(* ===== verification/AM_Prelude.thy ===== *)
theory AM_Prelude
  imports Main "HOL-Library.Multiset"
begin

text \<open>
  Shared vocabulary of the development: the types that name the program's basic data
  (instants, durations, byte strings, label sets), the collections of facts the component
  theories feed, and the generic lemmas on lists, maps and options they share.

  An instant (Go's \<^verbatim>\<open>time.Time\<close>) is its number of nanoseconds since the Unix epoch; the zero
  value of \<^verbatim>\<open>time.Time\<close> is January 1 of the year 1 and not the epoch. A pointer to a protobuf
  timestamp is an optional instant; reading a nil pointer gives the epoch, which is what
  \<^verbatim>\<open>(*timestamppb.Timestamp)(nil).AsTime()\<close> returns. A Go string is its bytes, which is what
  Isabelle's \<^verbatim>\<open>string\<close> is. A label set (a Go map from names to values) is a partial function.
\<close>

section \<open>Collections of facts\<close>

named_theorems model_simps \<open>unfolding rules of the model's definitions\<close>
named_theorems inv_intros \<open>preservation of the components' invariants\<close>

section \<open>Instants, durations, strings, label sets\<close>

type_synonym time = int
type_synonym duration = int
type_synonym timestamp = "time option"
type_synonym bytes = string
type_synonym labelset = "string \<rightharpoonup> string"

definition zero_time :: time where
  "zero_time = - 62135596800000000000"

definition second :: duration where
  "second = 1000000000"

abbreviation (input) is_zero :: "time \<Rightarrow> bool" where
  "is_zero t \<equiv> t = zero_time"

abbreviation (input) before :: "time \<Rightarrow> time \<Rightarrow> bool" where
  "before a b \<equiv> a < b"

abbreviation (input) after :: "time \<Rightarrow> time \<Rightarrow> bool" where
  "after a b \<equiv> b < a"

fun as_time :: "timestamp \<Rightarrow> time" where
  "as_time None = 0"
| "as_time (Some t) = t"

text \<open>Seconds since the epoch, as \<^verbatim>\<open>time.Time.Unix\<close> gives them (rounded down).\<close>

definition unix_seconds :: "time \<Rightarrow> int" where
  "unix_seconds t = t div second"

text \<open>Reading a missing key of a label set gives the empty string.\<close>

definition label_get :: "labelset \<Rightarrow> string \<Rightarrow> string" where
  "label_get l n = (case l n of None \<Rightarrow> '''' | Some v \<Rightarrow> v)"

lemma label_get_simps [simp]:
  "l n = None \<Longrightarrow> label_get l n = ''''"
  "l n = Some v \<Longrightarrow> label_get l n = v"
  by (simp_all add: label_get_def)

section \<open>Maps\<close>

lemma card_dom_upd:
  "finite (dom m) \<Longrightarrow> card (dom (m(k \<mapsto> v))) = (if k \<in> dom m then card (dom m) else Suc (card (dom m)))"
  by (simp add: insert_absorb)

end
