(* ===== verification/Go_Strings.thy ===== *)
theory Go_Strings
  imports AM_Prelude
begin

text \<open>
  What the program uses of Go's string library: the splitting of a string into its runes by a
  \<^verbatim>\<open>range\<close> loop, UTF-8 validity, white space and trimming, decimal numbers. A string is its bytes; a rune is kept
  as the chunk of bytes it was decoded from, so that concatenating the chunks gives the string
  back. A byte that starts no valid encoding is a chunk of its own and decodes to the
  replacement character U+FFFD.
\<close>

section \<open>Decoding\<close>

abbreviation byte :: "char \<Rightarrow> nat" where
  "byte c \<equiv> of_char c"

definition cont_byte :: "nat \<Rightarrow> nat \<Rightarrow> char \<Rightarrow> bool" where
  "cont_byte lo hi c \<longleftrightarrow> lo \<le> byte c \<and> byte c \<le> hi"

text \<open>Whether the first bytes are the encoding of a rune of one, two, three or four bytes.\<close>

fun enc1 :: "string \<Rightarrow> bool" where
  "enc1 (a # _) = (byte a < 128)"
| "enc1 _ = False"

fun enc2 :: "string \<Rightarrow> bool" where
  "enc2 (a # b # _) = (194 \<le> byte a \<and> byte a \<le> 223 \<and> cont_byte 128 191 b)"
| "enc2 _ = False"

fun enc3 :: "string \<Rightarrow> bool" where
  "enc3 (a # b # c # _) = (224 \<le> byte a \<and> byte a \<le> 239
     \<and> cont_byte (if byte a = 224 then 160 else 128) (if byte a = 237 then 159 else 191) b
     \<and> cont_byte 128 191 c)"
| "enc3 _ = False"

fun enc4 :: "string \<Rightarrow> bool" where
  "enc4 (a # b # c # d # _) = (240 \<le> byte a \<and> byte a \<le> 244
     \<and> cont_byte (if byte a = 240 then 144 else 128) (if byte a = 244 then 143 else 191) b
     \<and> cont_byte 128 191 c \<and> cont_byte 128 191 d)"
| "enc4 _ = False"

text \<open>The number of bytes of the first rune's encoding; 0 where the bytes encode none.\<close>

definition rune_width :: "string \<Rightarrow> nat" where
  "rune_width s = (if enc1 s then 1 else if enc2 s then 2 else if enc3 s then 3
     else if enc4 s then 4 else 0)"

definition rune_error :: nat where
  "rune_error = 65533"

text \<open>The code point of a chunk.\<close>

definition rune_of :: "string \<Rightarrow> nat" where
  "rune_of ch = (if rune_width ch = 0 then rune_error else
     (case map byte ch of
        [a] \<Rightarrow> a
      | [a, b] \<Rightarrow> (a - 192) * 64 + (b - 128)
      | [a, b, c] \<Rightarrow> (a - 224) * 4096 + (b - 128) * 64 + (c - 128)
      | [a, b, c, d] \<Rightarrow> (a - 240) * 262144 + (b - 128) * 4096 + (c - 128) * 64 + (d - 128)
      | _ \<Rightarrow> rune_error))"

definition next_width :: "string \<Rightarrow> nat" where
  "next_width s = max 1 (rune_width s)"

function runes :: "string \<Rightarrow> string list" where
  "runes s = (if s = [] then [] else take (next_width s) s # runes (drop (next_width s) s))"
  by pat_completeness auto
termination
  by (relation "measure length") (auto simp: next_width_def)

declare runes.simps [simp del]

function valid_utf8 :: "string \<Rightarrow> bool" where
  "valid_utf8 s = (if s = [] then True
     else rune_width s \<noteq> 0 \<and> valid_utf8 (drop (next_width s) s))"
  by pat_completeness auto
termination
  by (relation "measure length") (auto simp: next_width_def)

declare valid_utf8.simps [simp del]

text \<open>Writing a rune back: the replacement character for a chunk that encodes none.\<close>

definition write_rune :: "string \<Rightarrow> string" where
  "write_rune ch = (if rune_width ch = 0 then [char_of (239::nat), char_of (191::nat), char_of (189::nat)] else ch)"

lemma runes_Nil [simp]: "runes [] = []"
  by (subst runes.simps) simp

lemma valid_utf8_Nil [simp]: "valid_utf8 []"
  by (subst valid_utf8.simps) simp

lemma rune_width_ascii [simp]: "byte c < 128 \<Longrightarrow> rune_width (c # cs) = 1"
  by (simp add: rune_width_def)

lemma runes_ascii [simp]: "byte c < 128 \<Longrightarrow> runes (c # cs) = [c] # runes cs"
  by (subst runes.simps) (simp add: next_width_def)

lemma valid_utf8_ascii [simp]: "byte c < 128 \<Longrightarrow> valid_utf8 (c # cs) = valid_utf8 cs"
  by (subst valid_utf8.simps) (simp add: next_width_def)

lemma rune_of_ascii [simp]: "byte c < 128 \<Longrightarrow> rune_of [c] = byte c"
  by (simp add: rune_of_def)

lemma concat_runes [simp]: "concat (runes s) = s"
proof (induction s rule: runes.induct)
  case (1 s)
  then show ?case by (subst runes.simps) simp
qed

section \<open>White space\<close>

text \<open>\<^verbatim>\<open>unicode.IsSpace\<close>: the Latin-1 spaces and the other code points with the property
  White_Space.\<close>

definition is_space :: "nat \<Rightarrow> bool" where
  "is_space r \<longleftrightarrow> (9 \<le> r \<and> r \<le> 13) \<or> r = 32 \<or> r = 133 \<or> r = 160 \<or> r = 5760
     \<or> (8192 \<le> r \<and> r \<le> 8202) \<or> r = 8232 \<or> r = 8233 \<or> r = 8239 \<or> r = 8287 \<or> r = 12288"

definition trim_space :: "string \<Rightarrow> string" where
  "trim_space s =
     (let sp = (\<lambda>ch. is_space (rune_of ch))
      in concat (rev (dropWhile sp (rev (dropWhile sp (runes s))))))"

definition trim_prefix :: "string \<Rightarrow> char \<Rightarrow> string" where
  "trim_prefix s c = (case s of [] \<Rightarrow> [] | x # xs \<Rightarrow> if x = c then xs else s)"

definition trim_suffix :: "string \<Rightarrow> char \<Rightarrow> string" where
  "trim_suffix s c = (if s \<noteq> [] \<and> last s = c then butlast s else s)"

section \<open>Decimal numbers\<close>

text \<open>The verb \<^verbatim>\<open>%d\<close> of \<^verbatim>\<open>fmt\<close>, and \<^verbatim>\<open>strconv.Itoa\<close>, on a number that is not negative.\<close>

definition digit :: "nat \<Rightarrow> char" where
  "digit d = char_of (48 + d)"

fun itoa :: "nat \<Rightarrow> string" where
  "itoa n = (if n < 10 then [digit n] else itoa (n div 10) @ [digit (n mod 10)])"

declare itoa.simps [simp del]

lemma digit_byte: "d < 10 \<Longrightarrow> (of_char (digit d) :: nat) = 48 + d"
  by (simp add: digit_def take_bit_eq_mod)

lemma digit_inj: "d < 10 \<Longrightarrow> e < 10 \<Longrightarrow> digit d = digit e \<longleftrightarrow> d = e"
  by (metis digit_byte add_left_cancel)

lemma itoa_digits: "c \<in> set (itoa n) \<Longrightarrow> \<exists>d < 10. c = digit d"
proof (induction n rule: itoa.induct)
  case (1 n)
  then show ?case by (cases "n < 10") (auto simp: itoa.simps [of n] intro: exI [of _ "n mod 10"])
qed

lemma itoa_not_Nil [simp]: "itoa n \<noteq> []" "[] \<noteq> itoa n"
  by (simp_all add: itoa.simps [of n])

lemma itoa_inj: "itoa m = itoa n \<Longrightarrow> m = n"
proof (induction m arbitrary: n rule: itoa.induct)
  case (1 m)
  show ?case
  proof (cases "m < 10"; cases "n < 10")
    assume "m < 10" "n < 10"
    then show ?thesis using 1(2) by (simp add: itoa.simps [of m] itoa.simps [of n] digit_inj)
  next
    assume "\<not> m < 10" "\<not> n < 10"
    then have "itoa (m div 10) = itoa (n div 10)" "digit (m mod 10) = digit (n mod 10)"
      using 1(2) by (simp_all add: itoa.simps [of m] itoa.simps [of n])
    then have "m div 10 = n div 10" "m mod 10 = n mod 10" using 1(1) \<open>\<not> m < 10\<close> by (simp_all add: digit_inj)
    then show ?thesis by (metis div_mult_mod_eq)
  qed (use 1(2) in \<open>auto simp: itoa.simps [of m] itoa.simps [of n]\<close>)
qed

text \<open>The same on an integer, and \<^verbatim>\<open>strconv.Atoi\<close> on a 64 bit platform: an optional sign, at least one
  digit, and a value in range.\<close>

definition itoa_int :: "int \<Rightarrow> string" where
  "itoa_int n = (if n < 0 then CHR ''-'' # itoa (nat (- n)) else itoa (nat n))"

definition is_digit :: "char \<Rightarrow> bool" where
  "is_digit c \<longleftrightarrow> 48 \<le> (of_char c :: nat) \<and> (of_char c :: nat) \<le> 57"

definition digits_val :: "string \<Rightarrow> nat" where
  "digits_val ds = foldl (\<lambda>n c. 10 * n + (of_char c - 48)) 0 ds"

definition atoi :: "string \<Rightarrow> int option" where
  "atoi s =
     (let (neg, ds) = (case s of [] \<Rightarrow> (False, []) | c # r \<Rightarrow> if c = CHR ''-'' then (True, r) else if c = CHR ''+'' then (False, r) else (False, s))
      in if ds = [] \<or> \<not> list_all is_digit ds then None
         else (let n = int (digits_val ds); v = (if neg then - n else n)
               in if - (2 ^ 63) \<le> v \<and> v < 2 ^ 63 then Some v else None))"

lemma digit_is_digit: "d < 10 \<Longrightarrow> is_digit (digit d)"
  by (simp add: is_digit_def digit_byte)

lemma itoa_all_digits: "list_all is_digit (itoa n)"
  using itoa_digits digit_is_digit by (force simp: list_all_iff)

lemma digits_val_itoa: "digits_val (itoa n) = n"
proof (induction n rule: itoa.induct)
  case (1 n)
  then show ?case by (cases "n < 10") (simp_all add: itoa.simps [of n] digits_val_def digit_byte)
qed

lemma itoa_no_sign: "hd (itoa n) \<noteq> CHR ''-''" "hd (itoa n) \<noteq> CHR ''+''"
  using itoa_all_digits [of n] itoa_not_Nil [of n] by (cases "itoa n"; force simp: is_digit_def)+

lemma atoi_itoa:
  assumes "- (2 ^ 63) \<le> n" "n < 2 ^ 63"
  shows "atoi (itoa_int n) = Some n"
proof (cases "n < 0")
  case True
  then show ?thesis using assms by (simp add: itoa_int_def atoi_def itoa_all_digits digits_val_itoa)
next
  case False
  then show ?thesis using assms itoa_no_sign [of "nat n"] itoa_all_digits [of "nat n"] digits_val_itoa [of "nat n"]
    by (cases "itoa (nat n)") (auto simp: itoa_int_def atoi_def)
qed

text \<open>\<^verbatim>\<open>strings.Split\<close> by a single ASCII character.\<close>

fun split_on :: "char \<Rightarrow> string \<Rightarrow> string list" where
  "split_on c [] = [[]]"
| "split_on c (x # xs) = (if x = c then [] # split_on c xs else (case split_on c xs of p # ps \<Rightarrow> (x # p) # ps | [] \<Rightarrow> [[x]]))"

lemma split_on_none: "c \<notin> set s \<Longrightarrow> split_on c s = [s]"
  by (induction s) auto

lemma split_on_append: "c \<notin> set s \<Longrightarrow> split_on c (s @ c # t) = s # split_on c t"
  by (induction s) auto

text \<open>\<^verbatim>\<open>strings.ToLower\<close>; \<open>lr\<close> is the Unicode table on the runes that are not ASCII.\<close>

definition lower_ascii :: "char \<Rightarrow> char" where
  "lower_ascii c = (if 65 \<le> (of_char c :: nat) \<and> (of_char c :: nat) \<le> 90 then char_of (of_char c + 32 :: nat) else c)"

definition to_lower :: "(string \<Rightarrow> string) \<Rightarrow> string \<Rightarrow> string" where
  "to_lower lr s = concat (map (\<lambda>r. case r of [c] \<Rightarrow> if byte c < 128 then [lower_ascii c] else lr r | _ \<Rightarrow> lr r) (runes s))"

lemma to_lower_id: "\<forall>c \<in> set s. byte c < 128 \<and> \<not> (65 \<le> byte c \<and> byte c \<le> 90) \<Longrightarrow> to_lower lr s = s"
  by (induction s) (auto simp: to_lower_def lower_ascii_def)

text \<open>The last separator splits a text in one way.\<close>

lemma last_sep_inj:
  assumes "a @ c # x = b @ c # y" "c \<notin> set x" "c \<notin> set y"
  shows "a = b \<and> x = y"
proof -
  have "rev x @ c # rev a = rev y @ c # rev b" using arg_cong [OF assms(1), of rev] by simp
  then have "takeWhile (\<lambda>z. z \<noteq> c) (rev x @ c # rev a) = takeWhile (\<lambda>z. z \<noteq> c) (rev y @ c # rev b)" by simp
  moreover have "\<And>x. c \<notin> set x \<Longrightarrow> takeWhile (\<lambda>z. z \<noteq> c) (rev x @ c # z) = rev x" for z by (subst takeWhile_append2) auto
  ultimately have "x = y" using assms(2,3) by (metis rev_swap)
  then show ?thesis using assms(1) by simp
qed

section \<open>Valid strings\<close>

text \<open>A rune is an ASCII character, or a chunk of bytes none of which is ASCII.\<close>

lemma rune_width_multi:
  assumes "enc2 s \<or> enc3 s \<or> enc4 s"
  shows "\<exists>ch rest. s = ch @ rest \<and> ch \<noteq> [] \<and> (\<forall>c \<in> set ch. 128 \<le> byte c)
    \<and> (\<forall>t. rune_width (ch @ t) = length ch)"
  using assms
proof (elim disjE)
  assume e: "enc2 s"
  then obtain a b t where "s = a # b # t" by (auto elim: enc2.elims)
  with e show ?thesis
    by (intro exI [of _ "[a, b]"] exI [of _ t])
      (auto simp: rune_width_def cont_byte_def split: if_splits)
next
  assume e: "enc3 s"
  then obtain a b c t where "s = a # b # c # t" by (auto elim: enc3.elims)
  with e show ?thesis
    by (intro exI [of _ "[a, b, c]"] exI [of _ t])
      (auto simp: rune_width_def cont_byte_def split: if_splits)
next
  assume e: "enc4 s"
  then obtain a b c d t where "s = a # b # c # d # t" by (auto elim: enc4.elims)
  with e show ?thesis
    by (intro exI [of _ "[a, b, c, d]"] exI [of _ t])
      (auto simp: rune_width_def cont_byte_def split: if_splits)
qed

lemma rune_width_cases:
  assumes "rune_width s \<noteq> 0"
  obtains c cs where "s = c # cs" "byte c < 128"
  | ch rest where "s = ch @ rest" "ch \<noteq> []" "\<And>c. c \<in> set ch \<Longrightarrow> 128 \<le> byte c"
      "\<And>t. rune_width (ch @ t) = length ch"
proof (cases "enc1 s")
  case True
  then show ?thesis by (auto elim: enc1.elims intro: that(1))
next
  case False
  with assms have "enc2 s \<or> enc3 s \<or> enc4 s" by (auto simp: rune_width_def split: if_splits)
  then show ?thesis using that(2) rune_width_multi by metis
qed

lemma valid_utf8_chunk:
  assumes "\<And>t. rune_width (ch @ t) = length ch" "ch \<noteq> []"
  shows "valid_utf8 (ch @ t) = valid_utf8 t" "runes (ch @ t) = ch # runes t"
  using assms by (subst valid_utf8.simps runes.simps, auto simp: next_width_def max_def Suc_le_eq)+

text \<open>Induction over the runes of a valid string.\<close>

lemma valid_utf8_induct [consumes 1, case_names Nil ascii multi]:
  assumes "valid_utf8 s"
    and "P []"
    and "\<And>c cs. byte c < 128 \<Longrightarrow> valid_utf8 cs \<Longrightarrow> P cs \<Longrightarrow> P (c # cs)"
    and "\<And>ch rest. ch \<noteq> [] \<Longrightarrow> (\<And>c. c \<in> set ch \<Longrightarrow> 128 \<le> byte c) \<Longrightarrow>
      (\<And>t. rune_width (ch @ t) = length ch) \<Longrightarrow> valid_utf8 rest \<Longrightarrow> P rest \<Longrightarrow> P (ch @ rest)"
  shows "P s"
  using assms(1)
proof (induction s rule: length_induct)
  case (1 s)
  show ?case
  proof (cases "s = []")
    case True
    with assms(2) show ?thesis by simp
  next
    case False
    with 1(2) have w: "rune_width s \<noteq> 0"
      by (subst (asm) valid_utf8.simps) simp
    then show ?thesis
    proof (cases rule: rune_width_cases)
      case (1 c cs)
      with \<open>valid_utf8 s\<close> have "valid_utf8 cs" by simp
      with 1 \<open>\<forall>t. length t < length s \<longrightarrow> valid_utf8 t \<longrightarrow> P t\<close> assms(3) show ?thesis by simp
    next
      case (2 ch rest)
      have v: "valid_utf8 rest"
        using \<open>valid_utf8 s\<close> 2(1) valid_utf8_chunk(1) [OF 2(4) 2(2), of rest] by simp
      have "length rest < length s" using 2(1,2) by simp
      with v have "P rest" using \<open>\<forall>t. length t < length s \<longrightarrow> valid_utf8 t \<longrightarrow> P t\<close> by blast
      then show ?thesis unfolding 2(1) by (intro assms(4)) (use 2 v in auto)
    qed
  qed
qed

lemma valid_utf8_append: "valid_utf8 s \<Longrightarrow> valid_utf8 t \<Longrightarrow> valid_utf8 (s @ t)"
  by (induction s rule: valid_utf8_induct) (simp_all add: valid_utf8_chunk)

lemma runes_append: "valid_utf8 s \<Longrightarrow> runes (s @ t) = runes s @ runes t"
  by (induction s rule: valid_utf8_induct) (simp_all add: valid_utf8_chunk)

lemma write_runes: "valid_utf8 s \<Longrightarrow> concat (map write_rune (runes s)) = s"
proof (induction s rule: valid_utf8_induct)
  case (multi ch rest)
  have "rune_width (ch @ []) = length ch" by (rule multi(3))
  with multi show ?case by (simp add: valid_utf8_chunk write_rune_def)
qed (simp_all add: write_rune_def)

end
