(* ===== verification/Labels.thy ===== *)
theory Labels
  imports Go_Strings "HOL-Library.List_Lexorder" "HOL-Library.Char_ord"
begin

text \<open>
  Label matchers: \<^verbatim>\<open>pkg/labels/matcher.go\<close> (construction, matching, printing, ordering, the
  version 1 JSON form) and the classic parser \<^verbatim>\<open>pkg/labels/parse.go\<close>.

  The regular expression engine is a parameter \<open>rx\<close>: it maps a pattern to its match predicate,
  or to nothing where the pattern does not compile. Every theorem holds for any engine.
  \<^verbatim>\<open>Matcher.re\<close> is unexported and set by \<^verbatim>\<open>NewMatcher\<close> only; it is read for the two regular
  expression types only, so the model keeps the predicate itself there and a constant elsewhere.
  \<^verbatim>\<open>strconv.Quote\<close> is a parameter too, used only for names the classic parser does not accept.
\<close>

section \<open>Matchers\<close>

datatype match_type = MatchEqual | MatchNotEqual | MatchRegexp | MatchNotRegexp

type_synonym regexp_engine = "string \<Rightarrow> (string \<Rightarrow> bool) option"

record matcher =
  m_type :: match_type
  m_name :: string
  m_value :: string
  m_re :: "string \<Rightarrow> bool"

fun match_type_String :: "match_type \<Rightarrow> string" where
  "match_type_String MatchEqual = ''=''"
| "match_type_String MatchNotEqual = ''!=''"
| "match_type_String MatchRegexp = ''=~''"
| "match_type_String MatchNotRegexp = ''!~''"

fun is_regexp_type :: "match_type \<Rightarrow> bool" where
  "is_regexp_type MatchRegexp = True"
| "is_regexp_type MatchNotRegexp = True"
| "is_regexp_type _ = False"

definition anchored :: "string \<Rightarrow> string" where
  "anchored v = ''^(?:'' @ v @ '')$''"

definition NewMatcher :: "regexp_engine \<Rightarrow> match_type \<Rightarrow> string \<Rightarrow> string \<Rightarrow> matcher option" where
  "NewMatcher rx t n v =
     (if t = MatchRegexp \<or> t = MatchNotRegexp then
        (case rx (anchored v) of
           None \<Rightarrow> None
         | Some re \<Rightarrow> Some \<lparr>m_type = t, m_name = n, m_value = v, m_re = re\<rparr>)
      else Some \<lparr>m_type = t, m_name = n, m_value = v, m_re = (\<lambda>_. False)\<rparr>)"

fun matcher_matches_as :: "match_type \<Rightarrow> matcher \<Rightarrow> string \<Rightarrow> bool" where
  "matcher_matches_as MatchEqual m s = (s = m_value m)"
| "matcher_matches_as MatchNotEqual m s = (s \<noteq> m_value m)"
| "matcher_matches_as MatchRegexp m s = m_re m s"
| "matcher_matches_as MatchNotRegexp m s = (\<not> m_re m s)"

definition matcher_matches :: "matcher \<Rightarrow> string \<Rightarrow> bool" where
  "matcher_matches m s = matcher_matches_as (m_type m) m s"

section \<open>Lists of matchers: conjunction, and their disjunction\<close>

type_synonym matchers = "matcher list"
type_synonym matcher_set = "matchers list"

fun matchers_matches :: "matchers \<Rightarrow> labelset \<Rightarrow> bool" where
  "matchers_matches [] lset = True"
| "matchers_matches (m # ms) lset =
     (if \<not> matcher_matches m (label_get lset (m_name m)) then False else matchers_matches ms lset)"

fun matcher_set_matches :: "matcher_set \<Rightarrow> labelset \<Rightarrow> bool" where
  "matcher_set_matches [] lset = False"
| "matcher_set_matches (ms # mss) lset =
     (if matchers_matches ms lset then True else matcher_set_matches mss lset)"

lemma matchers_matches_iff [simp]:
  "matchers_matches ms lset \<longleftrightarrow> (\<forall>m \<in> set ms. matcher_matches m (label_get lset (m_name m)))"
  by (induction ms) auto

lemma matcher_set_matches_iff [simp]:
  "matcher_set_matches mss lset \<longleftrightarrow> (\<exists>ms \<in> set mss. matchers_matches ms lset)"
  by (induction mss) auto

section \<open>The order of matchers\<close>

fun match_type_index :: "match_type \<Rightarrow> nat" where
  "match_type_index MatchEqual = 0"
| "match_type_index MatchNotEqual = 1"
| "match_type_index MatchRegexp = 2"
| "match_type_index MatchNotRegexp = 3"

lemma match_type_index_inject [simp]: "match_type_index a = match_type_index b \<longleftrightarrow> a = b"
  by (cases a; cases b) simp_all

definition matchers_Less :: "matcher \<Rightarrow> matcher \<Rightarrow> bool" where
  "matchers_Less a b =
     (if m_name b < m_name a then False
      else if m_name a < m_name b then True
      else if m_value b < m_value a then False
      else if m_value a < m_value b then True
      else match_type_index (m_type a) < match_type_index (m_type b))"

definition matcher_key :: "matcher \<Rightarrow> string \<times> string \<times> match_type" where
  "matcher_key m = (m_name m, m_value m, m_type m)"

lemma matchers_Less_irrefl: "\<not> matchers_Less a a"
  by (simp add: matchers_Less_def)

lemma matchers_Less_trans: "matchers_Less a b \<Longrightarrow> matchers_Less b c \<Longrightarrow> matchers_Less a c"
  by (auto simp: matchers_Less_def split: if_splits)

lemma matchers_Less_total: "matchers_Less a b \<or> matchers_Less b a \<or> matcher_key a = matcher_key b"
  by (auto simp: matchers_Less_def matcher_key_def not_less dest: antisym intro: le_neq_implies_less)

section \<open>The JSON form of version 1\<close>

record api_v1_matcher =
  v1_name :: string
  v1_value :: string
  v1_isRegex :: bool
  v1_isEqual :: bool

definition MarshalJSON :: "matcher \<Rightarrow> api_v1_matcher" where
  "MarshalJSON m =
     \<lparr>v1_name = m_name m, v1_value = m_value m,
      v1_isRegex = (m_type m = MatchRegexp \<or> m_type m = MatchNotRegexp),
      v1_isEqual = (m_type m = MatchRegexp \<or> m_type m = MatchEqual)\<rparr>"

definition UnmarshalJSON :: "regexp_engine \<Rightarrow> api_v1_matcher \<Rightarrow> matcher option" where
  "UnmarshalJSON rx v1m =
     (let t = (if v1_isEqual v1m \<and> \<not> v1_isRegex v1m then MatchEqual
               else if \<not> v1_isEqual v1m \<and> \<not> v1_isRegex v1m then MatchNotEqual
               else if v1_isEqual v1m \<and> v1_isRegex v1m then MatchRegexp
               else MatchNotRegexp)
      in NewMatcher rx t (v1_name v1m) (v1_value v1m))"

lemma NewMatcher_fields:
  "NewMatcher rx t n v = Some m \<Longrightarrow> m_type m = t \<and> m_name m = n \<and> m_value m = v"
  by (auto simp: NewMatcher_def split: if_splits option.splits)

text \<open>
  The JSON form of a matcher of any type is read back as the same matcher.
\<close>

lemma UnmarshalJSON_MarshalJSON:
  assumes "NewMatcher rx t n v = Some m"
  shows "UnmarshalJSON rx (MarshalJSON m) = Some m"
proof -
  have f: "m_type m = t" "m_name m = n" "m_value m = v"
    using NewMatcher_fields [OF assms] by auto
  show ?thesis using assms f
    by (cases t) (simp_all add: UnmarshalJSON_def MarshalJSON_def)
qed

section \<open>Printing\<close>

abbreviation backslash :: char where "backslash \<equiv> CHR 0x5C"
abbreviation dquote :: char where "dquote \<equiv> CHR 0x22"
abbreviation newline_char :: char where "newline_char \<equiv> CHR 0x0A"

definition escape_char :: "char \<Rightarrow> string" where
  "escape_char c =
     (if c = backslash then [backslash, backslash]
      else if c = newline_char then [backslash, CHR ''n'']
      else if c = dquote then [backslash, dquote]
      else [c])"

definition openMetricsEscape :: "string \<Rightarrow> string" where
  "openMetricsEscape s = concat (map escape_char s)"

definition reserved_chars :: string where
  "reserved_chars = ''{}!=~,'' @ [backslash, dquote] @ [CHR 0x27, CHR 0x60]"

definition isReserved :: "nat \<Rightarrow> bool" where
  "isReserved r \<longleftrightarrow> is_space r \<or> r \<in> set (map of_char reserved_chars)"

definition contains_reserved :: "string \<Rightarrow> bool" where
  "contains_reserved s \<longleftrightarrow> list_ex (\<lambda>ch. isReserved (rune_of ch)) (runes s)"

definition matcher_String :: "(string \<Rightarrow> string) \<Rightarrow> matcher \<Rightarrow> string" where
  "matcher_String quote m =
     (if contains_reserved (m_name m)
      then quote (m_name m) @ match_type_String (m_type m) @ quote (m_value m)
      else m_name m @ match_type_String (m_type m) @ dquote # openMetricsEscape (m_value m) @ [dquote])"

fun matchers_body :: "(string \<Rightarrow> string) \<Rightarrow> matchers \<Rightarrow> string" where
  "matchers_body quote [] = []"
| "matchers_body quote [m] = matcher_String quote m"
| "matchers_body quote (m # m' # ms) = matcher_String quote m @ '','' @ matchers_body quote (m' # ms)"

definition matchers_String :: "(string \<Rightarrow> string) \<Rightarrow> matchers \<Rightarrow> string" where
  "matchers_String quote ms = ''{'' @ matchers_body quote ms @ ''}''"

section \<open>The classic parser\<close>

datatype matcher_parse_error =
    BadMatcherFormat string
  | ValueNotValidUTF8 string
  | UnescapedDoubleQuote string
  | RegexpDoesNotCompile string

text \<open>
  The expression \<^verbatim>\<open>^\s*([a-zA-Z_:][a-zA-Z0-9_:]*)\s*(=~|=|!=|!~)\s*((?s).*?)\s*$\<close>: the name, the
  operator and the value are determined by the input, since no character of an operator is a
  space or may occur in a name, and the lazy third group with the anchored trailing space is the
  remaining input without its trailing space.
\<close>

definition re_space :: "char \<Rightarrow> bool" where
  "re_space c \<longleftrightarrow> c = CHR '' '' \<or> c = CHR 0x09 \<or> c = CHR 0x0A \<or> c = CHR 0x0C \<or> c = CHR 0x0D"

definition label_start :: "char \<Rightarrow> bool" where
  "label_start c \<longleftrightarrow> (CHR ''a'' \<le> c \<and> c \<le> CHR ''z'') \<or> (CHR ''A'' \<le> c \<and> c \<le> CHR ''Z'')
     \<or> c = CHR ''_'' \<or> c = CHR '':''"

definition label_char :: "char \<Rightarrow> bool" where
  "label_char c \<longleftrightarrow> label_start c \<or> (CHR ''0'' \<le> c \<and> c \<le> CHR ''9'')"

definition rtrim :: "string \<Rightarrow> string" where
  "rtrim s = rev (dropWhile re_space (rev s))"

definition find_op :: "string \<Rightarrow> (match_type \<times> string) option" where
  "find_op s = (case s of
     [] \<Rightarrow> None
   | c # cs \<Rightarrow>
       if c = CHR ''='' then
         (case cs of d # ds \<Rightarrow> if d = CHR ''~'' then Some (MatchRegexp, ds) else Some (MatchEqual, cs)
          | [] \<Rightarrow> Some (MatchEqual, cs))
       else if c = CHR ''!'' then
         (case cs of d # ds \<Rightarrow> if d = CHR ''='' then Some (MatchNotEqual, ds)
                      else if d = CHR ''~'' then Some (MatchNotRegexp, ds) else None
          | [] \<Rightarrow> None)
       else None)"

definition find_submatch :: "string \<Rightarrow> (string \<times> match_type \<times> string) option" where
  "find_submatch s =
     (let s1 = dropWhile re_space s in
      if s1 = [] \<or> \<not> label_start (hd s1) then None
      else (case find_op (dropWhile re_space (dropWhile label_char s1)) of
              None \<Rightarrow> None
            | Some (t, s3) \<Rightarrow> Some (takeWhile label_char s1, t, rtrim (dropWhile re_space s3))))"

text \<open>
  The unescaping loop. It runs over the runes of a string already checked to be valid UTF-8 and
  treats ASCII characters specially only, every other rune being written back as the bytes it
  was read from; so it is a loop over the bytes. Arguments: \<^verbatim>\<open>escaped\<close>, \<^verbatim>\<open>expectTrailingQuote\<close>,
  the rest of the input. Result: the value and \<^verbatim>\<open>expectTrailingQuote\<close> at the end, or nothing
  where an unescaped double quote is met.
\<close>

fun unescape_value :: "bool \<Rightarrow> bool \<Rightarrow> string \<Rightarrow> (string \<times> bool) option" where
  "unescape_value escaped q [] = Some ([], q)"
| "unescape_value escaped q (r # rs) =
     (if escaped then
        map_option (apfst ((@) (if r = CHR ''n'' then [newline_char]
                                else if r = dquote \<or> r = backslash then [r]
                                else [backslash, r])))
          (unescape_value False q rs)
      else if r = backslash then
        (if rs \<noteq> [] then unescape_value True q rs
         else map_option (apfst ((#) backslash)) (unescape_value False q rs))
      else if r = dquote then
        (if \<not> q \<or> rs \<noteq> [] then None else unescape_value False False rs)
      else map_option (apfst ((#) r)) (unescape_value False q rs))"

definition ParseMatcher :: "regexp_engine \<Rightarrow> string \<Rightarrow> matcher_parse_error + matcher" where
  "ParseMatcher rx s = (case find_submatch s of
     None \<Rightarrow> Inl (BadMatcherFormat s)
   | Some (name, t, ms3) \<Rightarrow>
       (let expect = (ms3 \<noteq> [] \<and> hd ms3 = dquote);
            raw = (if expect then tl ms3 else ms3)
        in if \<not> valid_utf8 raw then Inl (ValueNotValidUTF8 ms3)
           else (case unescape_value False expect raw of
                   None \<Rightarrow> Inl (UnescapedDoubleQuote ms3)
                 | Some (value, expect') \<Rightarrow>
                     if expect' then Inl (UnescapedDoubleQuote ms3)
                     else (case NewMatcher rx t name value of
                             None \<Rightarrow> Inl (RegexpDoesNotCompile value)
                           | Some m \<Rightarrow> Inr m))))"

text \<open>
  The splitting at commas. Arguments: \<^verbatim>\<open>insideQuotes\<close>, \<^verbatim>\<open>escaped\<close>, the current token, the
  remaining runes. Result: the finished tokens and the token left at the end. A comma leaves
  \<^verbatim>\<open>escaped\<close> as it is.
\<close>

fun token_loop :: "bool \<Rightarrow> bool \<Rightarrow> string \<Rightarrow> string list \<Rightarrow> string list \<times> string" where
  "token_loop q e tok [] = ([], tok)"
| "token_loop q e tok (ch # chs) =
     (if ch = '','' \<and> \<not> q then apfst ((#) tok) (token_loop q e [] chs)
      else if ch = '','' then token_loop q e (tok @ write_rune ch) chs
      else if ch = [dquote] then
        (if \<not> e then token_loop (\<not> q) e (tok @ write_rune ch) chs
         else token_loop q False (tok @ write_rune ch) chs)
      else if ch = [backslash] then token_loop q (\<not> e) (tok @ write_rune ch) chs
      else token_loop q False (tok @ write_rune ch) chs)"

definition matcher_tokens :: "string \<Rightarrow> string list" where
  "matcher_tokens s =
     (let (ts, t) = token_loop False False [] (runes s); t' = trim_space t
      in if t' \<noteq> [] then ts @ [t'] else ts)"

fun parse_all :: "regexp_engine \<Rightarrow> string list \<Rightarrow> matcher_parse_error + matchers" where
  "parse_all rx [] = Inr []"
| "parse_all rx (t # ts) = (case ParseMatcher rx t of
     Inl e \<Rightarrow> Inl e
   | Inr m \<Rightarrow> (case parse_all rx ts of Inl e \<Rightarrow> Inl e | Inr ms \<Rightarrow> Inr (m # ms)))"

definition ParseMatchers :: "regexp_engine \<Rightarrow> string \<Rightarrow> matcher_parse_error + matchers" where
  "ParseMatchers rx s =
     parse_all rx (matcher_tokens (trim_suffix (trim_prefix s (CHR ''{'')) (CHR ''}'')))"

section \<open>Parsing what was printed\<close>

definition classic_name :: "string \<Rightarrow> bool" where
  "classic_name n \<longleftrightarrow> n \<noteq> [] \<and> label_start (hd n) \<and> list_all label_char n"

definition classic_matcher :: "regexp_engine \<Rightarrow> matcher \<Rightarrow> bool" where
  "classic_matcher rx m \<longleftrightarrow> classic_name (m_name m) \<and> valid_utf8 (m_value m)
     \<and> NewMatcher rx (m_type m) (m_name m) (m_value m) = Some m"

lemma unescape_escape:
  "unescape_value False True (openMetricsEscape v @ [dquote]) = Some (v, False)"
  by (induction v) (auto simp: openMetricsEscape_def escape_char_def)

lemma escape_high: "(\<And>c. c \<in> set ch \<Longrightarrow> 128 \<le> byte c) \<Longrightarrow> openMetricsEscape ch = ch"
  by (induction ch) (force simp: openMetricsEscape_def escape_char_def)+

lemma openMetricsEscape_simps:
  "openMetricsEscape [] = []" "openMetricsEscape (a # s) = escape_char a @ openMetricsEscape s"
  "openMetricsEscape (s @ t) = openMetricsEscape s @ openMetricsEscape t"
  by (simp_all add: openMetricsEscape_def)

lemma valid_utf8_escape: "valid_utf8 v \<Longrightarrow> valid_utf8 (openMetricsEscape v)"
proof (induction v rule: valid_utf8_induct)
  case (ascii c cs)
  then show ?case by (auto simp: openMetricsEscape_simps escape_char_def)
next
  case (multi ch rest)
  then show ?case by (simp add: openMetricsEscape_simps escape_high valid_utf8_chunk)
qed (simp add: openMetricsEscape_simps)


lemma label_char_ascii: "label_char c \<Longrightarrow> byte c < 128"
  by (auto simp: label_char_def label_start_def less_eq_char_def)

lemma label_char_not_space: "label_char c \<Longrightarrow> \<not> re_space c"
  by (auto simp: label_char_def label_start_def less_eq_char_def re_space_def)

lemma label_char_not_reserved: "label_char c \<Longrightarrow> \<not> isReserved (byte c)"
  by (auto simp: label_char_def label_start_def less_eq_char_def isReserved_def is_space_def
      reserved_chars_def)

lemma label_char_special:
  "\<not> label_char (CHR ''='')" "\<not> label_char (CHR ''!'')" "\<not> label_char (CHR '','')"
  "\<not> label_char dquote" "\<not> label_char backslash"
  by (simp_all add: label_char_def label_start_def less_eq_char_def)

lemma re_space_special: "\<not> re_space (CHR ''='')" "\<not> re_space (CHR ''!'')" "\<not> re_space dquote"
  by (simp_all add: re_space_def)

lemma runes_all_ascii: "(\<And>c. c \<in> set n \<Longrightarrow> byte c < 128) \<Longrightarrow> runes n = map (\<lambda>c. [c]) n"
  by (induction n) auto

lemma valid_utf8_all_ascii: "(\<And>c. c \<in> set n \<Longrightarrow> byte c < 128) \<Longrightarrow> valid_utf8 n"
  by (induction n) auto

lemma classic_name_chars: "classic_name n \<Longrightarrow> c \<in> set n \<Longrightarrow> label_char c"
  by (auto simp: classic_name_def list_all_iff)

lemma classic_name_not_reserved:
  assumes "classic_name n"
  shows "\<not> contains_reserved n"
proof -
  have "runes n = map (\<lambda>c. [c]) n"
    using assms by (intro runes_all_ascii label_char_ascii classic_name_chars)
  then show ?thesis
    using assms by (auto simp: contains_reserved_def list_ex_iff label_char_ascii label_char_not_reserved
        dest: classic_name_chars)
qed

lemma find_op_print:
  "find_op (match_type_String t @ dquote # s) = Some (t, dquote # s)"
  by (cases t) (simp_all add: find_op_def)

lemma dropWhile_op [simp]:
  "dropWhile label_char (match_type_String t @ s) = match_type_String t @ s"
  "takeWhile label_char (match_type_String t @ s) = []"
  "dropWhile re_space (match_type_String t @ s) = match_type_String t @ s"
  by (cases t; simp add: label_char_special re_space_special)+

lemma find_submatch_print:
  assumes "classic_name n"
  shows "find_submatch (n @ match_type_String t @ dquote # s @ [dquote]) =
    Some (n, t, dquote # s @ [dquote])"
proof -
  obtain c cs where n: "n = c # cs" "label_start c" using assms by (cases n) (auto simp: classic_name_def)
  have sp: "\<not> re_space c" using n label_char_not_space by (auto simp: label_char_def)
  have all: "\<forall>x \<in> set n. label_char x" using assms classic_name_chars by blast
  have "takeWhile label_char (n @ match_type_String t @ dquote # s @ [dquote]) = n"
    "dropWhile label_char (n @ match_type_String t @ dquote # s @ [dquote]) =
     match_type_String t @ dquote # s @ [dquote]"
    using all by (simp_all add: takeWhile_append2 dropWhile_append2)
  moreover have "rtrim (dquote # s @ [dquote]) = dquote # s @ [dquote]"
    by (simp add: rtrim_def re_space_special)
  ultimately show ?thesis using n sp
    by (simp add: find_submatch_def Let_def find_op_print re_space_special)
qed

lemma matcher_String_classic:
  "classic_name (m_name m) \<Longrightarrow> matcher_String quote m =
     m_name m @ match_type_String (m_type m) @ dquote # openMetricsEscape (m_value m) @ [dquote]"
  by (simp add: matcher_String_def classic_name_not_reserved)

lemma ParseMatcher_String:
  assumes "classic_matcher rx m"
  shows "ParseMatcher rx (matcher_String quote m) = Inr m"
proof -
  have m: "classic_name (m_name m)" "valid_utf8 (m_value m)"
    "NewMatcher rx (m_type m) (m_name m) (m_value m) = Some m"
    using assms by (auto simp: classic_matcher_def)
  have "valid_utf8 (openMetricsEscape (m_value m) @ [dquote])"
    using m(2) by (intro valid_utf8_append valid_utf8_escape) simp_all
  with m show ?thesis
    by (simp add: matcher_String_classic ParseMatcher_def find_submatch_print Let_def unescape_escape)
qed

definition plain_rune :: "string \<Rightarrow> bool" where
  "plain_rune ch \<longleftrightarrow> ch \<noteq> '','' \<and> ch \<noteq> [dquote] \<and> ch \<noteq> [backslash]"

lemma token_loop_plain:
  "(\<And>ch. ch \<in> set chs \<Longrightarrow> plain_rune ch) \<Longrightarrow>
     token_loop q False tok (chs @ rest) = token_loop q False (tok @ concat (map write_rune chs)) rest"
  by (induction chs arbitrary: tok) (simp_all add: plain_rune_def)

lemma token_loop_ascii:
  "(\<And>c. c \<in> set s \<Longrightarrow> byte c < 128 \<and> plain_rune [c]) \<Longrightarrow>
     token_loop q False tok (runes s @ rest) = token_loop q False (tok @ s) rest"
  using token_loop_plain [of "runes s" q tok rest] write_runes [of s]
  by (auto simp: runes_all_ascii valid_utf8_all_ascii)

lemma token_loop_escaped:
  "valid_utf8 v \<Longrightarrow> token_loop True False tok (runes (openMetricsEscape v) @ rest) =
     token_loop True False (tok @ openMetricsEscape v) rest"
proof (induction v arbitrary: tok rule: valid_utf8_induct)
  case (ascii c cs)
  then show ?case
    by (auto simp: openMetricsEscape_simps escape_char_def write_rune_def)
next
  case (multi ch vs)
  have "rune_width (ch @ []) = length ch" by (rule multi(3))
  then have w: "write_rune ch = ch" using multi(1) by (simp add: write_rune_def)
  have p: "plain_rune ch" using multi(1,2) by (force simp: plain_rune_def)
  have "token_loop True False tok ((ch # runes (openMetricsEscape vs)) @ rest) =
      token_loop True False (tok @ ch) (runes (openMetricsEscape vs) @ rest)"
    using p w by (simp add: plain_rune_def)
  then show ?case using multi
    by (simp add: openMetricsEscape_simps escape_high valid_utf8_chunk)
qed (simp add: openMetricsEscape_simps)

lemma runes_matcher_String:
  assumes "classic_matcher rx m"
  shows "valid_utf8 (matcher_String quote m)"
    and "runes (matcher_String quote m) = runes (m_name m) @ runes (match_type_String (m_type m))
      @ [dquote] # runes (openMetricsEscape (m_value m)) @ [[dquote]]"
proof -
  have m: "classic_name (m_name m)" "valid_utf8 (m_value m)"
    using assms by (auto simp: classic_matcher_def)
  have n: "valid_utf8 (m_name m)"
    using m(1) by (intro valid_utf8_all_ascii label_char_ascii classic_name_chars)
  have o: "valid_utf8 (match_type_String (m_type m))" by (cases "m_type m") simp_all
  note v = valid_utf8_escape [OF m(2)]
  show "valid_utf8 (matcher_String quote m)"
    using n o v by (simp add: matcher_String_classic [OF m(1)] valid_utf8_append)
  show "runes (matcher_String quote m) = runes (m_name m) @ runes (match_type_String (m_type m))
      @ [dquote] # runes (openMetricsEscape (m_value m)) @ [[dquote]]"
    using n o v by (simp add: matcher_String_classic [OF m(1)] runes_append)
qed

lemma token_loop_matcher:
  assumes "classic_matcher rx m"
  shows "token_loop False False tok (runes (matcher_String quote m) @ rest) =
    token_loop False False (tok @ matcher_String quote m) rest"
proof -
  have m: "classic_name (m_name m)" "valid_utf8 (m_value m)"
    using assms by (auto simp: classic_matcher_def)
  have 1: "byte c < 128 \<and> plain_rune [c]" if "c \<in> set (m_name m)" for c
    using classic_name_chars [OF m(1) that] label_char_ascii label_char_special
    by (auto simp: plain_rune_def)
  have 2: "byte c < 128 \<and> plain_rune [c]" if "c \<in> set (match_type_String (m_type m))" for c
    using that by (cases "m_type m") (auto simp: plain_rune_def)
  show ?thesis
    using m token_loop_ascii [of "m_name m", OF 1] token_loop_ascii [of "match_type_String (m_type m)", OF 2]
    by (simp add: runes_matcher_String(2) [OF assms, unfolded matcher_String_classic [OF m(1)]]
        token_loop_escaped matcher_String_classic write_rune_def)
qed

lemma trim_space_matcher:
  assumes "classic_matcher rx m"
  shows "trim_space (matcher_String quote m) = matcher_String quote m"
proof -
  have m: "classic_name (m_name m)" using assms by (auto simp: classic_matcher_def)
  obtain c cs where n: "m_name m = c # cs" "label_char c"
    using m by (cases "m_name m") (auto simp: classic_name_def)
  have "\<not> is_space (rune_of [c])"
    using n(2) label_char_not_reserved label_char_ascii by (auto simp: isReserved_def)
  moreover have "\<not> is_space (rune_of [dquote])" by (simp add: is_space_def)
  moreover obtain xs where xs: "runes (matcher_String quote m) = [c] # xs @ [[dquote]]"
    using n label_char_ascii [OF n(2)] by (simp add: runes_matcher_String(2) [OF assms])
  moreover have "concat ([c] # xs @ [[dquote]]) = matcher_String quote m"
    using concat_runes [of "matcher_String quote m"] xs by simp
  ultimately show ?thesis by (simp add: trim_space_def Let_def)
qed

lemma matcher_String_nonempty: "matcher_String quote m \<noteq> [] \<or> contains_reserved (m_name m)"
  by (simp add: matcher_String_def)

lemma token_loop_body:
  assumes "ms \<noteq> []" "\<And>m. m \<in> set ms \<Longrightarrow> classic_matcher rx m"
  shows "token_loop False False [] (runes (matchers_body quote ms)) =
    (map (matcher_String quote) (butlast ms), matcher_String quote (last ms))"
  using assms
proof (induction quote ms rule: matchers_body.induct)
  case (2 quote m)
  then show ?case using token_loop_matcher [of rx m "[]" quote "[]"] by simp
next
  case (3 quote m m' ms)
  have c: "classic_matcher rx m" using 3 by simp
  have "runes (matchers_body quote (m # m' # ms)) =
      runes (matcher_String quote m) @ '','' # runes (matchers_body quote (m' # ms))"
    using runes_matcher_String(1) [OF c] by (simp add: runes_append)
  moreover have "token_loop False False [] (runes (matchers_body quote (m' # ms))) =
      (map (matcher_String quote) (butlast (m' # ms)), matcher_String quote (last (m' # ms)))"
    using 3 by auto
  ultimately show ?case
    using token_loop_matcher [OF c, of "[]" quote "'','' # runes (matchers_body quote (m' # ms))"]
    by simp
qed simp

lemma parse_all_Strings:
  "(\<And>m. m \<in> set ms \<Longrightarrow> classic_matcher rx m) \<Longrightarrow> parse_all rx (map (matcher_String quote) ms) = Inr ms"
  by (induction ms) (simp_all add: ParseMatcher_String)

text \<open>
  Printing a list of matchers and parsing the text gives the same matchers, for names of the
  classic syntax and all valid UTF-8 values, with quotes, commas, backslashes and line feeds in them.
\<close>

lemma ParseMatchers_String:
  assumes "\<And>m. m \<in> set ms \<Longrightarrow> classic_matcher rx m"
  shows "ParseMatchers rx (matchers_String quote ms) = Inr ms"
proof -
  have trim: "trim_suffix (trim_prefix (matchers_String quote ms) (CHR ''{'')) (CHR ''}'') =
      matchers_body quote ms"
    by (simp add: matchers_String_def trim_prefix_def trim_suffix_def)
  show ?thesis
  proof (cases "ms = []")
    case True
    then show ?thesis unfolding ParseMatchers_def trim
      by (simp add: matcher_tokens_def trim_space_def)
  next
    case False
    then have l: "classic_matcher rx (last ms)" using assms by simp
    have "matcher_String quote (last ms) \<noteq> []"
      using l by (simp add: classic_matcher_def matcher_String_classic)
    moreover have "map (matcher_String quote) (butlast ms) @ [matcher_String quote (last ms)] =
        map (matcher_String quote) ms"
      using False map_append [of "matcher_String quote" "butlast ms" "[last ms]"] by simp
    ultimately have "matcher_tokens (matchers_body quote ms) = map (matcher_String quote) ms"
      using token_loop_body [OF False assms]
      by (simp add: matcher_tokens_def trim_space_matcher [OF l])
    then show ?thesis unfolding ParseMatchers_def trim by (simp add: parse_all_Strings assms)
  qed
qed

definition sample_matchers :: matchers where
  "sample_matchers =
     [\<lparr>m_type = MatchEqual, m_name = ''foo'', m_value = [CHR ''a'', CHR '','', dquote, backslash, newline_char], m_re = (\<lambda>_. False)\<rparr>,
      \<lparr>m_type = MatchRegexp, m_name = ''_b1'', m_value = ''x'', m_re = (\<lambda>s. s = ''x'')\<rparr>]"

definition sample_rx :: regexp_engine where
  "sample_rx p = (if p = anchored ''x'' then Some (\<lambda>s. s = ''x'') else None)"

lemma sample_classic: "m \<in> set sample_matchers \<Longrightarrow> classic_matcher sample_rx m"
  by (auto simp: sample_matchers_def classic_matcher_def NewMatcher_def sample_rx_def classic_name_def label_start_def label_char_def)

theorem ParseMatchers_String_witness:
  "ParseMatchers sample_rx (matchers_String id sample_matchers) = Inr sample_matchers"
  by (rule ParseMatchers_String) (rule sample_classic)

theorem UnmarshalJSON_MarshalJSON_witness:
  "UnmarshalJSON sample_rx (MarshalJSON (sample_matchers ! 1)) = Some (sample_matchers ! 1)"
  by (rule UnmarshalJSON_MarshalJSON [of _ MatchRegexp "''_b1''" "''x''"]) (simp add: sample_matchers_def NewMatcher_def sample_rx_def)

definition comma_value :: string where
  "comma_value = [CHR ''f'', CHR ''='', dquote, CHR ''a'', backslash, CHR '','', dquote]"

lemma comma_value_tokens: "matcher_tokens (comma_value @ '',g=b'') = [comma_value @ '',g=b'']"
proof -
  have "runes (comma_value @ '',g=b'') = map (\<lambda>c. [c]) (comma_value @ '',g=b'')"
    by (rule runes_all_ascii) (auto simp: comma_value_def)
  moreover have "write_rune [c] = [c]" if "byte c < 128" for c using that by (simp add: write_rune_def rune_width_def)
  ultimately show ?thesis by (simp add: matcher_tokens_def comma_value_def trim_space_def is_space_def Let_def)
qed

lemma comma_value_submatch:
  "find_submatch (comma_value @ '',g=b'') = Some (''f'', MatchEqual, [dquote, CHR ''a'', backslash, CHR '','', dquote] @ '',g=b'')"
  "find_submatch comma_value = Some (''f'', MatchEqual, [dquote, CHR ''a'', backslash, CHR '','', dquote])"
  by (simp_all add: find_submatch_def comma_value_def re_space_def label_start_def label_char_def find_op_def rtrim_def)

lemma comma_value_utf8: "valid_utf8 ([CHR ''a'', backslash, CHR '','', dquote] @ '',g=b'')" "valid_utf8 [CHR ''a'', backslash, CHR '','', dquote]"
  by (rule valid_utf8_all_ascii; auto)+

text \<open>
  A matcher whose quoted value ends in a backslash and a comma parses on its own, but not as the
  first of a list: the comma leaves the tokeniser's escape flag set, the closing quote is taken for
  an escaped one, and the comma after it does not separate the matchers.
\<close>

theorem token_escape_leak:
  "ParseMatcher rx comma_value =
     Inr \<lparr>m_type = MatchEqual, m_name = ''f'', m_value = [CHR ''a'', backslash, CHR '','' ], m_re = (\<lambda>_. False)\<rparr>
   \<and> (\<exists>e. ParseMatchers rx (comma_value @ '',g=b'') = Inl e)"
proof
  show "ParseMatcher rx comma_value =
     Inr \<lparr>m_type = MatchEqual, m_name = ''f'', m_value = [CHR ''a'', backslash, CHR '','' ], m_re = (\<lambda>_. False)\<rparr>"
    using comma_value_utf8(2) by (simp add: ParseMatcher_def comma_value_submatch NewMatcher_def)
  have "trim_suffix (trim_prefix (comma_value @ '',g=b'') (CHR ''{'')) (CHR ''}'') = comma_value @ '',g=b''"
    by (simp add: comma_value_def trim_suffix_def trim_prefix_def)
  moreover have "ParseMatcher rx (comma_value @ '',g=b'') = Inl (UnescapedDoubleQuote ([dquote, CHR ''a'', backslash, CHR '','', dquote] @ '',g=b''))"
    using comma_value_utf8(1) by (simp add: ParseMatcher_def comma_value_submatch)
  ultimately show "\<exists>e. ParseMatchers rx (comma_value @ '',g=b'') = Inl e"
    by (simp add: ParseMatchers_def comma_value_tokens)
qed

end
