(* ===== verification/LWW_Merge.thy ===== *)
theory LWW_Merge
  imports AM_Prelude
begin

text \<open>
  The contract of the two replicated stores of the program, silences and the notification log.
  Peers exchange entries; an entry replaces the stored one with the same key only when its time
  stamp is later, and an entry past its expiry is ignored. The locale states what one merge step
  does to the stored map; inside it, merging is idempotent and commutative, so that the state
  reached depends only on the set of entries received, not on their order or multiplicity.
\<close>

text \<open>A set of entries is coherent when two of them with the same key and the same stamp are the
  same after normalisation: the peer that issued a stamp issued one entry with it.\<close>

definition coherent :: "('e \<Rightarrow> 'k) \<Rightarrow> ('e \<Rightarrow> time) \<Rightarrow> ('e \<Rightarrow> 'e) \<Rightarrow> 'e set \<Rightarrow> bool" where
  "coherent key stamp norm S \<longleftrightarrow>
     (\<forall>e \<in> S. \<forall>e' \<in> S. key e = key e' \<longrightarrow> stamp e = stamp e' \<longrightarrow> norm e = norm e')"

definition settled :: "('e \<Rightarrow> 'k) \<Rightarrow> ('e \<Rightarrow> bool) \<Rightarrow> ('e \<Rightarrow> 'e) \<Rightarrow> ('k \<rightharpoonup> 'e) \<Rightarrow> 'e list \<Rightarrow> bool" where
  "settled key dead norm m es \<longleftrightarrow> distinct (map key es) \<and> m = map_of (map (\<lambda>e. (key e, e)) es)
     \<and> (\<forall>e \<in> set es. \<not> dead e \<and> norm e = e)"

locale lww_merge =
  fixes key :: "'e \<Rightarrow> 'k"
    and stamp :: "'e \<Rightarrow> time"
    and dead :: "'e \<Rightarrow> bool"
    and norm :: "'e \<Rightarrow> 'e"
    and merge1 :: "'e \<Rightarrow> ('k \<rightharpoonup> 'e) \<Rightarrow> ('k \<rightharpoonup> 'e)"
  assumes merge_dead: "dead e \<Longrightarrow> merge1 e m = m"
    and merge_new: "\<not> dead e \<Longrightarrow> m (key e) = None \<Longrightarrow> merge1 e m = m(key e \<mapsto> norm e)"
    and merge_newer: "\<not> dead e \<Longrightarrow> m (key e) = Some p \<Longrightarrow> stamp p < stamp e \<Longrightarrow>
      merge1 e m = m(key e \<mapsto> norm e)"
    and merge_older: "m (key e) = Some p \<Longrightarrow> \<not> stamp p < stamp e \<Longrightarrow> merge1 e m = m"
    and stamp_norm: "stamp (norm e) = stamp e"
begin

lemmas merge_laws = merge_dead merge_new merge_newer merge_older

lemma merge_cases:
  obtains "merge1 e m = m" | "merge1 e m = m(key e \<mapsto> norm e)"
  by (cases "dead e"; cases "m (key e)"; cases "stamp (the (m (key e))) < stamp e")
    (auto simp: merge_laws)

lemma merge_other: "k \<noteq> key e \<Longrightarrow> merge1 e m k = m k"
  by (cases rule: merge_cases [of e m]) simp_all

lemma merge_key: "merge1 e m (key e) =
  (if dead e then m (key e) else
     case m (key e) of None \<Rightarrow> Some (norm e)
     | Some p \<Rightarrow> if stamp p < stamp e then Some (norm e) else Some p)"
  by (cases "m (key e)") (auto simp: merge_laws)

lemma merge_at: "merge1 e m k =
  (if dead e \<or> k \<noteq> key e then m k else
     case m k of None \<Rightarrow> Some (norm e)
     | Some p \<Rightarrow> if stamp p < stamp e then Some (norm e) else Some p)"
  by (simp add: merge_key merge_other merge_dead)

lemma merge_idem: "merge1 e (merge1 e m) = merge1 e m"
  by (rule ext) (auto simp: merge_at stamp_norm split: option.splits)

lemma merge_commute:
  assumes "coherent key stamp norm S" "e \<in> S" "e' \<in> S"
  shows "merge1 e (merge1 e' m) = merge1 e' (merge1 e m)"
proof (rule ext)
  fix k
  have "key e = key e' \<Longrightarrow> stamp e = stamp e' \<Longrightarrow> norm e = norm e'"
    using assms unfolding coherent_def by blast
  then show "merge1 e (merge1 e' m) k = merge1 e' (merge1 e m) k"
    unfolding merge_at
    by (cases "dead e"; cases "dead e'"; cases "k = key e"; cases "k = key e'"; cases "m k";
        cases "stamp e" "stamp e'" rule: linorder_cases; simp add: stamp_norm)
qed

lemma comp_fun_idem_merge:
  assumes "coherent key stamp norm S"
  shows "comp_fun_idem_on S merge1"
proof unfold_locales
  fix x y
  assume "x \<in> S" "y \<in> S"
  then show "merge1 y \<circ> merge1 x = merge1 x \<circ> merge1 y"
    by (intro ext) (simp only: comp_apply merge_commute [OF assms])
next
  fix x
  show "merge1 x \<circ> merge1 x = merge1 x" by (rule ext) (simp only: comp_apply merge_idem)
qed

text \<open>Strong convergence: the same set of entries, in any order and with any repetition, gives
  the same state.\<close>

lemma merge_convergence:
  assumes "set es = set es'" "coherent key stamp norm (set es)"
  shows "fold merge1 es m = fold merge1 es' m"
proof -
  note c = comp_fun_idem_merge [OF assms(2)]
  have "fold merge1 es m = Finite_Set.fold merge1 m (set es)"
    by (rule comp_fun_idem_on.fold_set_fold [OF c, symmetric]) simp
  also have "\<dots> = fold merge1 es' m"
    unfolding assms(1) by (rule comp_fun_idem_on.fold_set_fold [OF c]) (simp add: assms(1))
  finally show ?thesis .
qed

text \<open>
  A state as merging leaves it: keyed by its entries' keys, live, normalised. Merging all of its
  entries into the empty state gives it back, so two peers that send each other their full states
  agree afterwards.
\<close>

lemma merge_rebuild:
  assumes "distinct (map key es)" "\<And>e. e \<in> set es \<Longrightarrow> m (key e) = None \<and> \<not> dead e \<and> norm e = e"
  shows "fold merge1 es m = m ++ map_of (map (\<lambda>e. (key e, e)) es)"
  using assms
proof (induction es arbitrary: m)
  case (Cons e es)
  have e: "merge1 e m = m(key e \<mapsto> e)" using Cons.prems(2) [of e] by (simp add: merge_new)
  have "fold merge1 es (m(key e \<mapsto> e)) = m(key e \<mapsto> e) ++ map_of (map (\<lambda>e. (key e, e)) es)"
    using Cons.prems by (intro Cons.IH) (auto simp: image_iff)
  moreover have "map_of (map (\<lambda>e. (key e, e)) es) (key e) = None"
    using Cons.prems(1) by (force simp: map_of_eq_None_iff)
  ultimately show ?case by (auto simp: e fun_eq_iff map_add_def split: option.splits)
qed simp

lemma settled_rebuild: "settled key dead norm m es \<Longrightarrow> fold merge1 es Map.empty = m"
  unfolding settled_def by (subst merge_rebuild) auto

lemma full_exchange:
  assumes "settled key dead norm m es" "settled key dead norm m' es'" "coherent key stamp norm (set es \<union> set es')"
  shows "fold merge1 es' m = fold merge1 es m'"
proof -
  have "fold merge1 es' m = fold merge1 (es @ es') Map.empty" by (simp add: settled_rebuild [OF assms(1)])
  also have "\<dots> = fold merge1 (es' @ es) Map.empty"
    using assms(3) by (intro merge_convergence) auto
  also have "\<dots> = fold merge1 es m'" by (simp add: settled_rebuild [OF assms(2)])
  finally show ?thesis .
qed

text \<open>The stamp stored under a key never decreases, and a stored entry never disappears.\<close>

lemma merge_stamp_mono:
  assumes "m k = Some p"
  shows "\<exists>p'. fold merge1 es m k = Some p' \<and> stamp p \<le> stamp p'"
  using assms
proof (induction es arbitrary: m p)
  case Nil
  then show ?case by simp
next
  case (Cons e es)
  obtain p1 where p1: "merge1 e m k = Some p1" "stamp p \<le> stamp p1"
  proof (cases "dead e \<or> k \<noteq> key e \<or> \<not> stamp p < stamp e")
    case True
    with Cons.prems show ?thesis by (intro that [of p]) (auto simp: merge_at)
  next
    case False
    with Cons.prems show ?thesis by (intro that [of "norm e"]) (auto simp: merge_at stamp_norm)
  qed
  obtain p' where "fold merge1 es (merge1 e m) k = Some p'" "stamp p1 \<le> stamp p'"
    using Cons.IH [of "merge1 e m" p1] p1(1) by blast
  with p1 show ?case by auto
qed

end

end
