(* ===== verification/Gossip.thy ===== *)
theory Gossip
  imports AM_Prelude
begin

text \<open>
  What the replicated stores use of the cluster package: the size above which a message is not
  gossiped but sent to every peer, \<^verbatim>\<open>cluster/channel.go\<close>.
\<close>

definition MaxGossipPacketSize :: nat where
  "MaxGossipPacketSize = 1400"

definition OversizedMessage :: "bytes \<Rightarrow> bool" where
  "OversizedMessage b \<longleftrightarrow> MaxGossipPacketSize div 2 < length b"

end
