(* ===== verification/Silences.thy ===== *)
theory Silences
  imports Labels LWW_Merge Gossip
begin

text \<open>
  The silence store, \<^verbatim>\<open>silence/silence.go\<close>: the matcher and version indices, validation, the
  operations that change the state (\<^verbatim>\<open>Set\<close>, \<^verbatim>\<open>Expire\<close>, \<^verbatim>\<open>GC\<close>, \<^verbatim>\<open>Merge\<close>, \<^verbatim>\<open>loadSnapshot\<close>), the
  queries, and the wire format's compatibility rules. Messages are those of
  \<^verbatim>\<open>silence/silencepb/silence.pb.go\<close>.

  Each operation takes the state and returns the new one; every reading of the clock is an
  argument, in the order the code reads it. The map of silences is a partial function; where the
  code ranges over a map, the order of the visit is an argument. Broadcast messages are collected
  in the state. What is not code of the repository is a field of \<open>sil_env\<close>: the regular
  expression engine, the validity of label names and values, the size and the wire encoding of
  a message. Metrics, logging, tracing and event recording are left out.
\<close>

section \<open>Messages\<close>

datatype pb_matcher_type =
  PB_EQUAL | PB_REGEXP | PB_NOT_EQUAL | PB_NOT_REGEXP | PB_UNKNOWN int

record pb_matcher =
  pm_type :: pb_matcher_type
  pm_name :: string
  pm_pattern :: string

type_synonym pb_matcher_set = "pb_matcher list"

record pb_comment =
  pc_author :: string
  pc_comment :: string
  pc_timestamp :: timestamp

record silence =
  sil_id :: string
  sil_matchers :: "pb_matcher list"
  sil_startsAt :: timestamp
  sil_endsAt :: timestamp
  sil_updatedAt :: timestamp
  sil_comments :: "pb_comment list"
  sil_createdBy :: string
  sil_comment :: string
  sil_annotations :: "string \<rightharpoonup> string"
  sil_matcherSets :: "pb_matcher_set list"
  sil_receiverMatcherSets :: "pb_matcher_set list"

record mesh_silence =
  ms_silence :: silence
  ms_expiresAt :: timestamp

type_synonym sil_state = "string \<rightharpoonup> mesh_silence"

section \<open>Errors\<close>

datatype sil_error =
    ErrNotFound
  | ErrInvalidState
  | UnknownMatcherType
  | MatcherDoesNotCompile string
  | InvalidLabelName string
  | InvalidLabelValue string
  | InvalidRegexp string
  | NoMatcherSets
  | EmptyMatcherSet nat
  | InvalidMatcher nat nat sil_error
  | AllMatchEmpty nat
  | ZeroStart
  | ZeroEnd
  | EndBeforeStart
  | InvalidSilence sil_error
  | SizeExceeded int
  | TooManySilences int
  | UuidFailed
  | MarshalFailed
  | DecodeFailed
  | ExpirePrevious sil_error
  | QIDsEmpty
  | QSinceWithQIDs

section \<open>What the store relies on\<close>

record sil_env =
  e_rx :: regexp_engine
  e_validName :: "string \<Rightarrow> bool"
  e_validValue :: "string \<Rightarrow> bool"
  e_size :: "mesh_silence \<Rightarrow> int"
  e_marshal :: "mesh_silence \<Rightarrow> bytes option"

section \<open>The matcher index\<close>

type_synonym matcher_index = "string \<rightharpoonup> matcher_set"

definition mi_get :: "matcher_index \<Rightarrow> silence \<Rightarrow> sil_error + matcher_set" where
  "mi_get c s = (case c (sil_id s) of Some m \<Rightarrow> Inr m | None \<Rightarrow> Inl ErrNotFound)"

fun pb_match_type :: "pb_matcher_type \<Rightarrow> match_type option" where
  "pb_match_type PB_EQUAL = Some MatchEqual"
| "pb_match_type PB_NOT_EQUAL = Some MatchNotEqual"
| "pb_match_type PB_REGEXP = Some MatchRegexp"
| "pb_match_type PB_NOT_REGEXP = Some MatchNotRegexp"
| "pb_match_type (PB_UNKNOWN _) = None"

definition compile_matcher :: "regexp_engine \<Rightarrow> pb_matcher \<Rightarrow> sil_error + matcher" where
  "compile_matcher rx m = (case pb_match_type (pm_type m) of
     None \<Rightarrow> Inl UnknownMatcherType
   | Some mt \<Rightarrow> (case NewMatcher rx mt (pm_name m) (pm_pattern m) of
       None \<Rightarrow> Inl (MatcherDoesNotCompile (pm_pattern m))
     | Some matcher \<Rightarrow> Inr matcher))"

fun compile_matchers :: "regexp_engine \<Rightarrow> pb_matcher list \<Rightarrow> sil_error + matchers" where
  "compile_matchers rx [] = Inr []"
| "compile_matchers rx (m # ms) = (case compile_matcher rx m of
     Inl e \<Rightarrow> Inl e
   | Inr x \<Rightarrow> (case compile_matchers rx ms of Inl e \<Rightarrow> Inl e | Inr xs \<Rightarrow> Inr (x # xs)))"

fun compile_sets :: "regexp_engine \<Rightarrow> pb_matcher_set list \<Rightarrow> sil_error + matcher_set" where
  "compile_sets rx [] = Inr []"
| "compile_sets rx (ms # mss) = (case compile_matchers rx ms of
     Inl e \<Rightarrow> Inl e
   | Inr xs \<Rightarrow> (case compile_sets rx mss of Inl e \<Rightarrow> Inl e | Inr xss \<Rightarrow> Inr (xs # xss)))"

text \<open>The index is only written when every matcher compiled.\<close>

definition mi_add :: "regexp_engine \<Rightarrow> matcher_index \<Rightarrow> silence \<Rightarrow> sil_error + matcher_index" where
  "mi_add rx c s = (case compile_sets rx (sil_matcherSets s) of
     Inl e \<Rightarrow> Inl e
   | Inr mss \<Rightarrow> Inr (c(sil_id s \<mapsto> mss)))"

section \<open>The version index\<close>

record silence_version =
  sv_id :: string
  sv_version :: int

type_synonym version_index = "silence_version list"

definition vi_add :: "version_index \<Rightarrow> int \<Rightarrow> string \<Rightarrow> version_index" where
  "vi_add vi version sil = vi @ [\<lparr>sv_id = sil, sv_version = version\<rparr>]"

text \<open>The binary search of Go's \<^verbatim>\<open>sort.Search\<close>.\<close>

function go_search :: "(nat \<Rightarrow> bool) \<Rightarrow> nat \<Rightarrow> nat \<Rightarrow> nat" where
  "go_search f i j =
     (if i < j then
        (let h = (i + j) div 2
         in if \<not> f h then go_search f (h + 1) j else go_search f i h)
      else i)"
  by pat_completeness auto
termination
  by (relation "measure (\<lambda>(f, i, j). j - i)") auto

declare go_search.simps [simp del]

definition findVersionGreaterThan :: "version_index \<Rightarrow> int \<Rightarrow> nat \<times> bool" where
  "findVersionGreaterThan s version =
     (let startIdx = go_search (\<lambda>i. version < sv_version (s ! i)) 0 (length s)
      in (startIdx, startIdx < length s))"

section \<open>The store\<close>

record silences =
  s_st :: sil_state
  s_version :: int
  s_mi :: matcher_index
  s_vi :: version_index
  s_retention :: duration
  s_maxSilences :: "int option"
  s_maxSilenceSizeBytes :: "int option"
  s_sent :: "bytes list"

datatype silence_state = SilenceStateExpired | SilenceStateActive | SilenceStatePending

definition getState :: "silence \<Rightarrow> time \<Rightarrow> silence_state" where
  "getState sil ts =
     (if before ts (as_time (sil_startsAt sil)) then SilenceStatePending
      else if after ts (as_time (sil_endsAt sil)) then SilenceStateExpired
      else SilenceStateActive)"

text \<open>The state computed for presentation, \<^verbatim>\<open>silence/state.go\<close>.\<close>

definition CurrentState :: "time \<Rightarrow> time \<Rightarrow> time \<Rightarrow> silence_state" where
  "CurrentState start end current =
     (if before current start then SilenceStatePending
      else if before current end then SilenceStateActive
      else SilenceStateExpired)"

section \<open>Validation\<close>

definition validateMatcher :: "sil_env \<Rightarrow> pb_matcher \<Rightarrow> sil_error option" where
  "validateMatcher E m =
     (if \<not> e_validName E (pm_name m) then Some (InvalidLabelName (pm_name m))
      else (case pm_type m of
          PB_EQUAL \<Rightarrow> if \<not> e_validValue E (pm_pattern m) then Some (InvalidLabelValue (pm_pattern m)) else None
        | PB_NOT_EQUAL \<Rightarrow> if \<not> e_validValue E (pm_pattern m) then Some (InvalidLabelValue (pm_pattern m)) else None
        | PB_REGEXP \<Rightarrow> if e_rx E (pm_pattern m) = None then Some (InvalidRegexp (pm_pattern m)) else None
        | PB_NOT_REGEXP \<Rightarrow> if e_rx E (pm_pattern m) = None then Some (InvalidRegexp (pm_pattern m)) else None
        | PB_UNKNOWN _ \<Rightarrow> Some UnknownMatcherType))"

definition matchesEmpty :: "sil_env \<Rightarrow> pb_matcher \<Rightarrow> bool" where
  "matchesEmpty E m = (case pm_type m of
     PB_EQUAL \<Rightarrow> pm_pattern m = []
   | PB_REGEXP \<Rightarrow> (case e_rx E (pm_pattern m) of None \<Rightarrow> False | Some f \<Rightarrow> f [])
   | _ \<Rightarrow> False)"

text \<open>The loop over one matcher set: the error with the matcher's position, or \<^verbatim>\<open>allMatchEmpty\<close>.\<close>

fun validate_matchers :: "sil_env \<Rightarrow> nat \<Rightarrow> nat \<Rightarrow> bool \<Rightarrow> pb_matcher list \<Rightarrow> sil_error + bool" where
  "validate_matchers E setIdx i allEmpty [] = Inr allEmpty"
| "validate_matchers E setIdx i allEmpty (m # ms) = (case validateMatcher E m of
     Some e \<Rightarrow> Inl (InvalidMatcher i setIdx e)
   | None \<Rightarrow> validate_matchers E setIdx (Suc i) (allEmpty \<and> matchesEmpty E m) ms)"

fun validate_sets :: "sil_env \<Rightarrow> nat \<Rightarrow> pb_matcher_set list \<Rightarrow> sil_error option" where
  "validate_sets E setIdx [] = None"
| "validate_sets E setIdx (ms # mss) =
     (if ms = [] then Some (EmptyMatcherSet setIdx)
      else (case validate_matchers E setIdx 0 True ms of
          Inl e \<Rightarrow> Some e
        | Inr allMatchEmpty \<Rightarrow>
            if allMatchEmpty then Some (AllMatchEmpty setIdx)
            else validate_sets E (Suc setIdx) mss))"

definition prepareSilenceForMarshalling :: "silence \<Rightarrow> silence" where
  "prepareSilenceForMarshalling sil =
     (case sil_matcherSets sil of [] \<Rightarrow> sil | ms # _ \<Rightarrow> sil\<lparr>sil_matchers := ms\<rparr>)"

definition postprocessUnmarshalledSilence :: "silence \<Rightarrow> silence" where
  "postprocessUnmarshalledSilence sil =
     (let sil' = (if sil_matcherSets sil = [] \<and> sil_matchers sil \<noteq> []
                  then sil\<lparr>sil_matcherSets := sil_matcherSets sil @ [sil_matchers sil]\<rparr> else sil)
      in sil'\<lparr>sil_matchers := []\<rparr>)"

definition is_nil_or_zero :: "timestamp \<Rightarrow> bool" where
  "is_nil_or_zero ts \<longleftrightarrow> ts = None \<or> is_zero (as_time ts)"

text \<open>The silence is changed by the conversion of old-style matchers and returned.\<close>

definition validateSilence :: "sil_env \<Rightarrow> silence \<Rightarrow> sil_error + silence" where
  "validateSilence E s0 =
     (let s = postprocessUnmarshalledSilence s0 in
      if sil_matcherSets s = [] then Inl NoMatcherSets
      else (case validate_sets E 0 (sil_matcherSets s) of
          Some e \<Rightarrow> Inl e
        | None \<Rightarrow>
            if is_nil_or_zero (sil_startsAt s) then Inl ZeroStart
            else if is_nil_or_zero (sil_endsAt s) then Inl ZeroEnd
            else if before (as_time (sil_endsAt s)) (as_time (sil_startsAt s)) then Inl EndBeforeStart
            else Inr s))"

section \<open>Changing the state\<close>

definition checkSizeLimits :: "sil_env \<Rightarrow> silences \<Rightarrow> mesh_silence \<Rightarrow> sil_error option" where
  "checkSizeLimits E s msil = (case s_maxSilenceSizeBytes s of
     None \<Rightarrow> None
   | Some m \<Rightarrow> if 0 < m \<and> m < e_size E msil then Some (SizeExceeded (e_size E msil)) else None)"

definition indexSilence :: "sil_env \<Rightarrow> silence \<Rightarrow> silences \<Rightarrow> silences" where
  "indexSilence E sil s =
     (let v = s_version s + 1;
          s1 = s\<lparr>s_version := v, s_vi := vi_add (s_vi s) v (sil_id sil)\<rparr>
      in case mi_add (e_rx E) (s_mi s1) sil of
           Inl _ \<Rightarrow> s1
         | Inr mi' \<Rightarrow> s1\<lparr>s_mi := mi'\<rparr>)"

definition getSilence :: "silences \<Rightarrow> string \<Rightarrow> silence option" where
  "getSilence s i = (case s_st s i of None \<Rightarrow> None | Some msil \<Rightarrow> Some (ms_silence msil))"

definition toMeshSilence :: "silences \<Rightarrow> silence \<Rightarrow> mesh_silence" where
  "toMeshSilence s sil =
     \<lparr>ms_silence = sil, ms_expiresAt = Some (as_time (sil_endsAt sil) + s_retention s)\<rparr>"

definition marshalMeshSilence :: "sil_env \<Rightarrow> mesh_silence \<Rightarrow> bytes option" where
  "marshalMeshSilence E e =
     e_marshal E \<lparr>ms_silence = prepareSilenceForMarshalling (ms_silence e), ms_expiresAt = ms_expiresAt e\<rparr>"

text \<open>The upgrade of the list of comments to the single comment.\<close>

definition upgrade_comments :: "mesh_silence \<Rightarrow> mesh_silence" where
  "upgrade_comments e = (case sil_comments (ms_silence e) of
     [] \<Rightarrow> e
   | c # _ \<Rightarrow> e\<lparr>ms_silence := (ms_silence e)\<lparr>sil_comment := pc_comment c,
                  sil_createdBy := pc_author c, sil_comments := []\<rparr>\<rparr>)"

text \<open>The result: the new state, whether it changed, whether a silence was added.\<close>

definition state_merge :: "sil_state \<Rightarrow> mesh_silence \<Rightarrow> time \<Rightarrow> sil_state \<times> bool \<times> bool" where
  "state_merge s e now =
     (let id = sil_id (ms_silence e) in
      if before (as_time (ms_expiresAt e)) now then (s, False, False)
      else
        (let e' = upgrade_comments e in
         case s id of
           None \<Rightarrow> (s(id \<mapsto> e'), True, True)
         | Some prev \<Rightarrow>
             if before (as_time (sil_updatedAt (ms_silence prev))) (as_time (sil_updatedAt (ms_silence e')))
             then (s(id \<mapsto> e'), True, False)
             else (s, False, False)))"

definition setSilence ::
  "sil_env \<Rightarrow> mesh_silence \<Rightarrow> time \<Rightarrow> silences \<Rightarrow> silences \<times> (sil_error + bool \<times> bool)" where
  "setSilence E msil now s = (case marshalMeshSilence E msil of
     None \<Rightarrow> (s, Inl MarshalFailed)
   | Some b \<Rightarrow>
       (let (st', changed, added) = state_merge (s_st s) msil now;
            s1 = s\<lparr>s_st := st'\<rparr>;
            s2 = (if added then indexSilence E (ms_silence msil) s1 else s1);
            s3 = (if changed then s2\<lparr>s_sent := s_sent s2 @ [b]\<rparr> else s2)
        in (s3, Inr (changed, added))))"

definition expire :: "sil_env \<Rightarrow> string \<Rightarrow> time \<Rightarrow> silences \<Rightarrow> silences \<times> sil_error option" where
  "expire E i now s = (case getSilence s i of
     None \<Rightarrow> (s, Some ErrNotFound)
   | Some sil \<Rightarrow>
       (case getState sil now of
          SilenceStateExpired \<Rightarrow> (s, None)
        | st \<Rightarrow>
            (let sil1 = (if st = SilenceStateActive then sil\<lparr>sil_endsAt := Some now\<rparr>
                         else sil\<lparr>sil_startsAt := Some now, sil_endsAt := Some now\<rparr>);
                 sil2 = sil1\<lparr>sil_updatedAt := Some now\<rparr>
             in case setSilence E (toMeshSilence s sil2) now s of
                  (s', Inl e) \<Rightarrow> (s', Some e)
                | (s', Inr _) \<Rightarrow> (s', None))))"

definition Expire :: "sil_env \<Rightarrow> string \<Rightarrow> time \<Rightarrow> silences \<Rightarrow> silences \<times> sil_error option" where
  "Expire E i now s = expire E i now s"

definition canUpdate :: "silence \<Rightarrow> silence \<Rightarrow> time \<Rightarrow> bool" where
  "canUpdate a b now =
     (if sil_matcherSets a \<noteq> sil_matcherSets b then False
      else (case getState a now of
          SilenceStateActive \<Rightarrow>
            if unix_seconds (as_time (sil_startsAt a)) \<noteq> unix_seconds (as_time (sil_startsAt b)) then False
            else if before (as_time (sil_endsAt b)) now then False
            else True
        | SilenceStatePending \<Rightarrow> if before (as_time (sil_startsAt b)) now then False else True
        | SilenceStateExpired \<Rightarrow> False))"

text \<open>
  \<^verbatim>\<open>Set\<close>. The clock is read at the start (\<open>now\<close>), for the state of the previous silence (\<open>now1\<close>)
  and inside \<^verbatim>\<open>expire\<close> (\<open>now2\<close>); \<open>uid\<close> is the outcome of \<^verbatim>\<open>uuid.NewRandom\<close>. On success the silence
  is returned as the call leaves it, with its identifier.
\<close>

definition set_update ::
  "sil_env \<Rightarrow> time \<Rightarrow> silence \<Rightarrow> silences \<Rightarrow> silences \<times> (sil_error + silence)" where
  "set_update E now sil s =
     (let sil' = sil\<lparr>sil_updatedAt := Some now\<rparr>; msil = toMeshSilence s sil'
      in case checkSizeLimits E s msil of
           Some e \<Rightarrow> (s, Inl e)
         | None \<Rightarrow> (case setSilence E msil now s of
               (s', Inl e) \<Rightarrow> (s', Inl e)
             | (s', Inr _) \<Rightarrow> (s', Inr sil')))"

definition over_limit :: "silences \<Rightarrow> bool" where
  "over_limit s = (case s_maxSilences s of
     None \<Rightarrow> False
   | Some m \<Rightarrow> 0 < m \<and> m < int (card (dom (s_st s))) + 1)"

definition stamp_new :: "time \<Rightarrow> string \<Rightarrow> silence \<Rightarrow> silence" where
  "stamp_new now u sil =
     (let sil1 = sil\<lparr>sil_id := u\<rparr>;
          sil2 = (if before (as_time (sil_startsAt sil1)) now then sil1\<lparr>sil_startsAt := Some now\<rparr> else sil1)
      in sil2\<lparr>sil_updatedAt := Some now\<rparr>)"

definition expire_previous ::
  "sil_env \<Rightarrow> time \<Rightarrow> time \<Rightarrow> silence option \<Rightarrow> silences \<Rightarrow> silences \<times> sil_error option" where
  "expire_previous E now1 now2 prev s = (case prev of
     Some p \<Rightarrow> if getState p now1 \<noteq> SilenceStateExpired then expire E (sil_id p) now2 s else (s, None)
   | None \<Rightarrow> (s, None))"

definition set_create ::
  "sil_env \<Rightarrow> time \<Rightarrow> time \<Rightarrow> time \<Rightarrow> string option \<Rightarrow> silence option \<Rightarrow> silence \<Rightarrow> silences \<Rightarrow>
     silences \<times> (sil_error + silence)" where
  "set_create E now now1 now2 uid prev sil s =
     (if over_limit s then (s, Inl (TooManySilences (int (card (dom (s_st s))))))
      else (case uid of
          None \<Rightarrow> (s, Inl UuidFailed)
        | Some u \<Rightarrow>
            (let sil' = stamp_new now u sil; msil = toMeshSilence s sil'
             in case checkSizeLimits E s msil of
                  Some e \<Rightarrow> (s, Inl e)
                | None \<Rightarrow> (case expire_previous E now1 now2 prev s of
                      (s1, Some e) \<Rightarrow> (s1, Inl (ExpirePrevious e))
                    | (s1, None) \<Rightarrow> (case setSilence E msil now s1 of
                          (s2, Inl e) \<Rightarrow> (s2, Inl e)
                        | (s2, Inr _) \<Rightarrow> (s2, Inr sil'))))))"

definition SetSilence ::
  "sil_env \<Rightarrow> time \<Rightarrow> time \<Rightarrow> time \<Rightarrow> string option \<Rightarrow> silence \<Rightarrow> silences \<Rightarrow>
     silences \<times> (sil_error + silence)" where
  "SetSilence E now now1 now2 uid sil0 s =
     (let sil1 = (if is_nil_or_zero (sil_startsAt sil0) then sil0\<lparr>sil_startsAt := Some now\<rparr> else sil0)
      in case validateSilence E sil1 of
           Inl e \<Rightarrow> (s, Inl (InvalidSilence e))
         | Inr sil \<Rightarrow>
             (let prev = getSilence s (sil_id sil)
              in if sil_id sil \<noteq> [] \<and> prev = None then (s, Inl ErrNotFound)
                 else (case prev of
                     Some p \<Rightarrow> if canUpdate p sil now then set_update E now sil s
                               else set_create E now now1 now2 uid prev sil s
                   | None \<Rightarrow> set_create E now now1 now2 uid prev sil s)))"

section \<open>Garbage collection\<close>

text \<open>
  The loop over the version index. The state, the matcher index, the entries kept so far, the
  number of silences removed and the errors are threaded through.
\<close>

datatype gc_error = GCMissing string | GCZeroExpiry string

fun gc_loop ::
  "time \<Rightarrow> version_index \<Rightarrow> sil_state \<Rightarrow> matcher_index \<Rightarrow>
     sil_state \<times> matcher_index \<times> version_index \<times> nat \<times> gc_error list" where
  "gc_loop now [] st mi = (st, mi, [], 0, [])"
| "gc_loop now (sv # vi) st mi = (case st (sv_id sv) of
     None \<Rightarrow>
       (let (st', mi', vi', n, errs) = gc_loop now vi st mi
        in (st', mi', vi', n, GCMissing (sv_id sv) # errs))
   | Some sil \<Rightarrow>
       (let id = sil_id (ms_silence sil);
            zero = is_nil_or_zero (ms_expiresAt sil);
            e = (if zero then [GCZeroExpiry id] else [])
        in if zero \<or> \<not> after (as_time (ms_expiresAt sil)) now then
             (let (st', mi', vi', n, errs) = gc_loop now vi (st(id := None)) (mi(id := None))
              in (st', mi', vi', Suc n, e @ errs))
           else
             (let (st', mi', vi', n, errs) = gc_loop now vi st mi
              in (st', mi', sv # vi', n, errs))))"

definition GC :: "time \<Rightarrow> silences \<Rightarrow> silences \<times> nat \<times> gc_error list" where
  "GC now s =
     (let (st', mi', vi', n, errs) = gc_loop now (s_vi s) (s_st s) (s_mi s)
      in (s\<lparr>s_st := st', s_mi := mi', s_vi := vi'\<rparr>, n, errs))"

section \<open>Queries\<close>

text \<open>A query parameter is a function in the code; here it is a value, interpreted by
  \<open>apply_param\<close>, and the filters it installs are interpreted by \<open>apply_filter\<close>.\<close>

datatype query_param =
    QIDs "string list"
  | QSince int
  | QMatches labelset
  | QState "silence_state list"

datatype silence_filter = FMatches labelset | FState "silence_state list"

record silence_query =
  q_ids :: "string list"
  q_since :: "int option"
  q_filters :: "silence_filter list"

fun apply_param :: "query_param \<Rightarrow> silence_query \<Rightarrow> sil_error + silence_query" where
  "apply_param (QIDs ids) q =
     (if ids = [] then Inl QIDsEmpty
      else if q_since q \<noteq> None then Inl QSinceWithQIDs
      else Inr (q\<lparr>q_ids := q_ids q @ ids\<rparr>))"
| "apply_param (QSince version) q =
     (if q_ids q \<noteq> [] then Inl QSinceWithQIDs else Inr (q\<lparr>q_since := Some version\<rparr>))"
| "apply_param (QMatches lset) q = Inr (q\<lparr>q_filters := q_filters q @ [FMatches lset]\<rparr>)"
| "apply_param (QState states) q = Inr (q\<lparr>q_filters := q_filters q @ [FState states]\<rparr>)"

fun apply_params :: "query_param list \<Rightarrow> silence_query \<Rightarrow> sil_error + silence_query" where
  "apply_params [] q = Inr q"
| "apply_params (p # ps) q = (case apply_param p q of Inl e \<Rightarrow> Inl e | Inr q' \<Rightarrow> apply_params ps q')"

fun apply_filter :: "silence_filter \<Rightarrow> silence \<Rightarrow> silences \<Rightarrow> time \<Rightarrow> sil_error + bool" where
  "apply_filter (FMatches lset) sil s now = (case mi_get (s_mi s) sil of
     Inl e \<Rightarrow> Inl e
   | Inr m \<Rightarrow> Inr (matcher_set_matches m lset))"
| "apply_filter (FState states) sil s now = Inr (getState sil now \<in> set states)"

fun filters_match :: "silence_filter list \<Rightarrow> silence \<Rightarrow> silences \<Rightarrow> time \<Rightarrow> sil_error + bool" where
  "filters_match [] sil s now = Inr True"
| "filters_match (f # fs) sil s now = (case apply_filter f sil s now of
     Inl e \<Rightarrow> Inl e
   | Inr matches \<Rightarrow> if \<not> matches then Inr False else filters_match fs sil s now)"

text \<open>The scan of the silences to consider, in order; an error of a filter ends it.\<close>

fun scan_silences :: "silence_filter list \<Rightarrow> silences \<Rightarrow> time \<Rightarrow> silence list \<Rightarrow> sil_error + silence list" where
  "scan_silences fs s now [] = Inr []"
| "scan_silences fs s now (sil # sils) = (case filters_match fs sil s now of
     Inl e \<Rightarrow> Inl e
   | Inr b \<Rightarrow> (case scan_silences fs s now sils of
       Inl e \<Rightarrow> Inl e
     | Inr res \<Rightarrow> Inr (if b then sil # res else res)))"

text \<open>The entries of the version index are looked up without a check; a missing silence is a
  nil dereference, the value \<open>None\<close> here.\<close>

fun lookup_all :: "sil_state \<Rightarrow> string list \<Rightarrow> silence list option" where
  "lookup_all st [] = Some []"
| "lookup_all st (i # is) = (case st i of
     None \<Rightarrow> None
   | Some msil \<Rightarrow> (case lookup_all st is of None \<Rightarrow> None | Some sils \<Rightarrow> Some (ms_silence msil # sils)))"

fun lookup_existing :: "sil_state \<Rightarrow> string list \<Rightarrow> silence list" where
  "lookup_existing st [] = []"
| "lookup_existing st (i # is) = (case st i of
     None \<Rightarrow> lookup_existing st is
   | Some msil \<Rightarrow> ms_silence msil # lookup_existing st is)"

text \<open>The result is the silences or the error, with the version; \<open>None\<close> is a panic.\<close>

definition query_run :: "silences \<Rightarrow> silence_query \<Rightarrow> time \<Rightarrow> ((sil_error + silence list) \<times> int) option" where
  "query_run s q now =
     (if q_ids q \<noteq> [] then
        Some (scan_silences (q_filters q) s now (lookup_existing (s_st s) (q_ids q)), s_version s)
      else
        (let (start, found) = (case q_since q of
               None \<Rightarrow> (0, True)
             | Some v \<Rightarrow> findVersionGreaterThan (s_vi s) v)
         in if \<not> found then Some (Inr [], s_version s)
            else (case lookup_all (s_st s) (map sv_id (drop start (s_vi s))) of
                None \<Rightarrow> None
              | Some sils \<Rightarrow> Some (scan_silences (q_filters q) s now sils, s_version s))))"

definition Query :: "silences \<Rightarrow> query_param list \<Rightarrow> time \<Rightarrow> ((sil_error + silence list) \<times> int) option" where
  "Query s params now = (case apply_params params \<lparr>q_ids = [], q_since = None, q_filters = []\<rparr> of
     Inl e \<Rightarrow> Some (Inl e, s_version s)
   | Inr q \<Rightarrow> query_run s q now)"

definition QueryOne :: "silences \<Rightarrow> query_param list \<Rightarrow> time \<Rightarrow> (sil_error + silence) option" where
  "QueryOne s params now = (case Query s params now of
     None \<Rightarrow> None
   | Some (Inl e, _) \<Rightarrow> Some (Inl e)
   | Some (Inr [], _) \<Rightarrow> Some (Inl ErrNotFound)
   | Some (Inr (sil # _), _) \<Rightarrow> Some (Inr sil))"

definition Version :: "silences \<Rightarrow> int" where
  "Version s = s_version s"

definition CountState :: "silences \<Rightarrow> silence_state list \<Rightarrow> time \<Rightarrow> nat option" where
  "CountState s states now = (case lookup_all (s_st s) (map sv_id (s_vi s)) of
     None \<Rightarrow> None
   | Some sils \<Rightarrow> Some (length (filter (\<lambda>sil. getState sil now \<in> set states) sils)))"

section \<open>Exchange with peers and snapshots\<close>

text \<open>
  One step of \<^verbatim>\<open>protodelim.UnmarshalFrom\<close>: a message (whose silence may be missing) and the rest
  of the input, the end of the input, or an error.
\<close>

datatype unmarshal_result =
    Message "silence option" timestamp bytes
  | EndOfFile
  | UnmarshalError

type_synonym unmarshaler = "bytes \<Rightarrow> unmarshal_result"

text \<open>
  The decoded map, as the list of its entries in the order the keys were first seen; a later
  message replaces an earlier one with the same identifier. Each message takes at least one byte,
  so the length of the input bounds the number of rounds.
\<close>

fun state_put :: "mesh_silence list \<Rightarrow> mesh_silence \<Rightarrow> mesh_silence list" where
  "state_put [] e = [e]"
| "state_put (x # xs) e =
     (if sil_id (ms_silence x) = sil_id (ms_silence e) then e # xs else x # state_put xs e)"

fun decode_loop :: "nat \<Rightarrow> unmarshaler \<Rightarrow> bytes \<Rightarrow> mesh_silence list \<Rightarrow> (sil_error + mesh_silence list) option" where
  "decode_loop 0 u b st = None"
| "decode_loop (Suc fuel) u b st = (case u b of
     Message None _ _ \<Rightarrow> Some (Inl ErrInvalidState)
   | Message (Some sil) ex rest \<Rightarrow>
       decode_loop fuel u rest
         (state_put st \<lparr>ms_silence = postprocessUnmarshalledSilence sil, ms_expiresAt = ex\<rparr>)
   | EndOfFile \<Rightarrow> Some (Inr st)
   | UnmarshalError \<Rightarrow> Some (Inl DecodeFailed))"

definition decodeState :: "unmarshaler \<Rightarrow> bytes \<Rightarrow> (sil_error + mesh_silence list) option" where
  "decodeState u b = decode_loop (Suc (length b)) u b []"

text \<open>A range over a map visits the entries in some order, given as a list.\<close>

definition merge_entry :: "sil_env \<Rightarrow> bytes \<Rightarrow> time \<Rightarrow> mesh_silence \<Rightarrow> silences \<Rightarrow> silences" where
  "merge_entry E b now e s =
     (let (st', merged, added) = state_merge (s_st s) e now;
          s1 = s\<lparr>s_st := st'\<rparr>
      in if merged then
           (let s2 = (if added then indexSilence E (ms_silence e) s1 else s1)
            in if \<not> OversizedMessage b then s2\<lparr>s_sent := s_sent s2 @ [b]\<rparr> else s2)
         else s1)"

definition merge_entries :: "sil_env \<Rightarrow> bytes \<Rightarrow> time \<Rightarrow> mesh_silence list \<Rightarrow> silences \<Rightarrow> silences" where
  "merge_entries E b now es s = fold (merge_entry E b now) es s"

definition Merge ::
  "sil_env \<Rightarrow> unmarshaler \<Rightarrow> (mesh_silence list \<Rightarrow> mesh_silence list) \<Rightarrow> bytes \<Rightarrow> time \<Rightarrow> silences \<Rightarrow>
     (silences \<times> sil_error option) option" where
  "Merge E u visit b now s = (case decodeState u b of
     None \<Rightarrow> None
   | Some (Inl e) \<Rightarrow> Some (s, Some e)
   | Some (Inr st) \<Rightarrow> Some (merge_entries E b now (visit st) s, None))"

fun load_entries ::
  "sil_env \<Rightarrow> int \<Rightarrow> mesh_silence list \<Rightarrow> sil_state \<Rightarrow> matcher_index \<Rightarrow> version_index \<Rightarrow>
     sil_state \<times> matcher_index \<times> version_index" where
  "load_entries E version [] st mi vi = (st, mi, vi)"
| "load_entries E version (e0 # es) st mi vi =
     (let e = upgrade_comments e0; id = sil_id (ms_silence e) in
      case mi_add (e_rx E) mi (ms_silence e) of
        Inl _ \<Rightarrow> load_entries E version es (st(id \<mapsto> e)) mi vi
      | Inr mi' \<Rightarrow> load_entries E version es (st(id \<mapsto> e)) mi' (vi_add vi (version + 1) id))"

text \<open>
  \<^verbatim>\<open>loadSnapshot\<close>. The decoded map becomes the new state as it is, so an entry whose matchers do
  not compile stays in it: the loop changes it in place (its comments) and skips the indices only.
\<close>

definition state_of :: "mesh_silence list \<Rightarrow> sil_state" where
  "state_of es = map_of (map (\<lambda>e. (sil_id (ms_silence e), e)) es)"

definition loadSnapshot ::
  "sil_env \<Rightarrow> unmarshaler \<Rightarrow> (mesh_silence list \<Rightarrow> mesh_silence list) \<Rightarrow> bytes \<Rightarrow> silences \<Rightarrow>
     (silences \<times> sil_error option) option" where
  "loadSnapshot E u visit b s = (case decodeState u b of
     None \<Rightarrow> None
   | Some (Inl e) \<Rightarrow> Some (s, Some e)
   | Some (Inr es) \<Rightarrow>
       (let (st, mi, vi) = load_entries E (s_version s) (visit es) (state_of es) Map.empty []
        in Some (s\<lparr>s_st := st, s_mi := mi, s_vi := vi, s_version := s_version s + 1\<rparr>, None)))"

fun marshal_entries :: "sil_env \<Rightarrow> mesh_silence list \<Rightarrow> bytes option" where
  "marshal_entries E [] = Some []"
| "marshal_entries E (e # es) = (case marshalMeshSilence E e of
     None \<Rightarrow> None
   | Some b \<Rightarrow> (case marshal_entries E es of None \<Rightarrow> None | Some bs \<Rightarrow> Some (b @ bs)))"

text \<open>\<^verbatim>\<open>state.MarshalBinary\<close>, over the entries in the order of the visit.\<close>

definition MarshalBinary :: "sil_env \<Rightarrow> mesh_silence list \<Rightarrow> sil_error + bytes" where
  "MarshalBinary E es = (case marshal_entries E es of None \<Rightarrow> Inl MarshalFailed | Some b \<Rightarrow> Inr b)"

definition new_silences :: "duration \<Rightarrow> int option \<Rightarrow> int option \<Rightarrow> silences" where
  "new_silences retention maxSilences maxSize =
     \<lparr>s_st = Map.empty, s_version = 0, s_mi = Map.empty, s_vi = [], s_retention = retention,
      s_maxSilences = maxSilences, s_maxSilenceSizeBytes = maxSize, s_sent = []\<rparr>"

section \<open>The binary search\<close>

lemma go_search_spec:
  assumes "\<And>a b. a \<le> b \<Longrightarrow> b < n \<Longrightarrow> f a \<Longrightarrow> f b" "i \<le> j" "j \<le> n"
  shows "i \<le> go_search f i j \<and> go_search f i j \<le> j
    \<and> (\<forall>k. i \<le> k \<and> k < go_search f i j \<longrightarrow> \<not> f k)
    \<and> (\<forall>k. go_search f i j \<le> k \<and> k < j \<longrightarrow> f k)"
  using assms
proof (induction f i j rule: go_search.induct)
  case (1 f i j)
  show ?case
  proof (cases "i < j")
    case False
    then have "go_search f i j = i" by (subst go_search.simps) simp
    with False "1.prems" show ?thesis by auto
  next
    case True
    define h where "h = (i + j) div 2"
    have h: "i \<le> h" "h < j" using True by (auto simp: h_def)
    show ?thesis
    proof (cases "f h")
      case False
      have eq: "go_search f i j = go_search f (h + 1) j"
        using True False by (subst go_search.simps) (simp add: h_def Let_def)
      have IH: "h + 1 \<le> go_search f (h + 1) j \<and> go_search f (h + 1) j \<le> j
          \<and> (\<forall>k. h + 1 \<le> k \<and> k < go_search f (h + 1) j \<longrightarrow> \<not> f k)
          \<and> (\<forall>k. go_search f (h + 1) j \<le> k \<and> k < j \<longrightarrow> f k)"
        by (rule "1.IH"(1) [OF True h_def False]) (erule (2) "1.prems"(1), use h "1.prems"(3) in simp_all)
      have lo: "\<not> f k" if "k \<le> h" for k
        using "1.prems"(1) [of k h] that False h "1.prems"(3) by auto
      have "\<not> f k" if "i \<le> k" "k < go_search f (h + 1) j" for k
        using IH lo [of k] that by (cases "k \<le> h") auto
      with IH h show ?thesis unfolding eq by auto
    next
      case T: True
      have eq: "go_search f i j = go_search f i h"
        using True T by (subst go_search.simps) (simp add: h_def Let_def)
      have IH: "i \<le> go_search f i h \<and> go_search f i h \<le> h
          \<and> (\<forall>k. i \<le> k \<and> k < go_search f i h \<longrightarrow> \<not> f k)
          \<and> (\<forall>k. go_search f i h \<le> k \<and> k < h \<longrightarrow> f k)"
        by (rule "1.IH"(2) [OF True h_def]) (use T in simp, erule (2) "1.prems"(1), use h "1.prems"(3) in simp_all)
      have hi: "f k" if "h \<le> k" "k < j" for k
        using "1.prems"(1) [of h k] that T "1.prems"(3) by auto
      have "f k" if "go_search f i h \<le> k" "k < j" for k
        using IH hi [of k] that by (cases "k < h") auto
      with IH h show ?thesis unfolding eq by auto
    qed
  qed
qed

lemma drop_eq_filter:
  assumes "k \<le> length xs" "\<And>i. i < k \<Longrightarrow> \<not> P (xs ! i)" "\<And>i. k \<le> i \<Longrightarrow> i < length xs \<Longrightarrow> P (xs ! i)"
  shows "drop k xs = filter P xs"
proof -
  have "filter P (take k xs) = []"
    using assms(1,2) by (auto simp: filter_empty_conv in_set_conv_nth)
  moreover have "filter P (drop k xs) = drop k xs"
    using assms(1,3) by (auto simp: filter_id_conv in_set_conv_nth)
  ultimately show ?thesis
    by (metis append_Nil append_take_drop_id filter_append)
qed

lemma findVersionGreaterThan_filter:
  assumes "sorted (map sv_version vi)" "findVersionGreaterThan vi v = (start, found)"
  shows "drop start vi = filter (\<lambda>sv. v < sv_version sv) vi"
    and "found \<longleftrightarrow> (\<exists>sv \<in> set vi. v < sv_version sv)"
proof -
  let ?f = "\<lambda>i. v < sv_version (vi ! i)"
  have s: "start = go_search ?f 0 (length vi)" and fd: "found \<longleftrightarrow> start < length vi"
    using assms(2) by (auto simp: findVersionGreaterThan_def Let_def)
  have mono: "?f b" if "a \<le> b" "b < length vi" "?f a" for a b
    using sorted_nth_mono [OF assms(1), of a b] that by auto
  note spec = go_search_spec [of "length vi" ?f 0 "length vi", OF mono, folded s, simplified]
  show eq: "drop start vi = filter (\<lambda>sv. v < sv_version sv) vi"
    using spec by (intro drop_eq_filter) auto
  have "found \<longleftrightarrow> drop start vi \<noteq> []" using fd by auto
  then show "found \<longleftrightarrow> (\<exists>sv \<in> set vi. v < sv_version sv)"
    unfolding eq by (auto simp: filter_empty_conv)
qed

section \<open>Merging one entry\<close>

abbreviation sil_key :: "mesh_silence \<Rightarrow> string" where
  "sil_key e \<equiv> sil_id (ms_silence e)"

abbreviation sil_stamp :: "mesh_silence \<Rightarrow> time" where
  "sil_stamp e \<equiv> as_time (sil_updatedAt (ms_silence e))"

lemma upgrade_comments_simps [simp]:
  "sil_key (upgrade_comments e) = sil_key e"
  "sil_updatedAt (ms_silence (upgrade_comments e)) = sil_updatedAt (ms_silence e)"
  "sil_startsAt (ms_silence (upgrade_comments e)) = sil_startsAt (ms_silence e)"
  "sil_endsAt (ms_silence (upgrade_comments e)) = sil_endsAt (ms_silence e)"
  "sil_matcherSets (ms_silence (upgrade_comments e)) = sil_matcherSets (ms_silence e)"
  "ms_expiresAt (upgrade_comments e) = ms_expiresAt e"
  "getState (ms_silence (upgrade_comments e)) t = getState (ms_silence e) t"
  by (simp_all add: upgrade_comments_def getState_def split: list.splits)

lemma state_merge_cases:
  obtains (unchanged) "state_merge st e now = (st, False, False)"
  | (added) "state_merge st e now = (st(sil_key e \<mapsto> upgrade_comments e), True, True)"
      "st (sil_key e) = None" "\<not> as_time (ms_expiresAt e) < now"
  | (updated) prev where "state_merge st e now = (st(sil_key e \<mapsto> upgrade_comments e), True, False)"
      "st (sil_key e) = Some prev" "sil_stamp prev < sil_stamp e" "\<not> as_time (ms_expiresAt e) < now"
proof (cases "as_time (ms_expiresAt e) < now")
  case True
  then show ?thesis by (intro that(1)) (simp add: state_merge_def)
next
  case nd: False
  show ?thesis
  proof (cases "st (sil_key e)")
    case None
    then show ?thesis using nd by (intro that(2)) (simp_all add: state_merge_def Let_def)
  next
    case (Some prev)
    show ?thesis
    proof (cases "sil_stamp prev < sil_stamp e")
      case True
      then show ?thesis using nd Some by (intro that(3)) (simp_all add: state_merge_def Let_def)
    next
      case False
      then show ?thesis using nd Some by (intro that(1)) (simp_all add: state_merge_def Let_def)
    qed
  qed
qed

interpretation sil_lww: lww_merge sil_key sil_stamp "\<lambda>e. as_time (ms_expiresAt e) < now" upgrade_comments
  "\<lambda>e st. fst (state_merge st e now)" for now
  by unfold_locales (simp_all add: state_merge_def Let_def)


section \<open>The structural invariant\<close>

text \<open>
  What every operation keeps: the state is keyed by the silences' own identifiers; the version
  index lists identifiers of stored silences, each once, by increasing version, none newer than
  the store's version; the matcher index speaks of listed silences only.
\<close>

definition vi_ids :: "silences \<Rightarrow> string set" where
  "vi_ids s = sv_id ` set (s_vi s)"

definition vi_inv :: "silences \<Rightarrow> bool" where
  "vi_inv s \<longleftrightarrow>
     finite (dom (s_st s))
     \<and> (\<forall>i msil. s_st s i = Some msil \<longrightarrow> sil_key msil = i)
     \<and> distinct (map sv_id (s_vi s))
     \<and> sorted (map sv_version (s_vi s))
     \<and> (\<forall>sv \<in> set (s_vi s). 0 < sv_version sv \<and> sv_version sv \<le> s_version s)
     \<and> 0 \<le> s_version s
     \<and> vi_ids s \<subseteq> dom (s_st s)
     \<and> dom (s_mi s) \<subseteq> vi_ids s"

text \<open>Every stored silence is listed.\<close>

definition vi_complete :: "silences \<Rightarrow> bool" where
  "vi_complete s \<longleftrightarrow> dom (s_st s) \<subseteq> vi_ids s"

lemma vi_invI [inv_intros]:
  assumes "finite (dom (s_st s))"
    and "\<And>i msil. s_st s i = Some msil \<Longrightarrow> sil_key msil = i"
    and "distinct (map sv_id (s_vi s))" "sorted (map sv_version (s_vi s))"
    and "\<And>sv. sv \<in> set (s_vi s) \<Longrightarrow> 0 < sv_version sv \<and> sv_version sv \<le> s_version s"
    and "0 \<le> s_version s" "vi_ids s \<subseteq> dom (s_st s)" "dom (s_mi s) \<subseteq> vi_ids s"
  shows "vi_inv s"
  using assms by (simp add: vi_inv_def)

lemma vi_invD:
  assumes "vi_inv s"
  shows "finite (dom (s_st s))"
    and "\<And>i msil. s_st s i = Some msil \<Longrightarrow> sil_key msil = i"
    and "distinct (map sv_id (s_vi s))" and "sorted (map sv_version (s_vi s))"
    and "\<And>sv. sv \<in> set (s_vi s) \<Longrightarrow> 0 < sv_version sv \<and> sv_version sv \<le> s_version s"
    and "0 \<le> s_version s" and "vi_ids s \<subseteq> dom (s_st s)" and "dom (s_mi s) \<subseteq> vi_ids s"
  using assms by (auto simp: vi_inv_def)

lemma vi_inv_new: "vi_inv (new_silences r m z)" "vi_complete (new_silences r m z)"
  by (simp_all add: vi_inv_def vi_complete_def vi_ids_def new_silences_def)

lemma vi_inv_cong:
  "s_st s' = s_st s \<Longrightarrow> s_vi s' = s_vi s \<Longrightarrow> s_mi s' = s_mi s \<Longrightarrow> s_version s' = s_version s \<Longrightarrow>
     vi_inv s' = vi_inv s \<and> vi_complete s' = vi_complete s"
  by (simp add: vi_inv_def vi_complete_def vi_ids_def)

lemma mi_add_dom: "mi_add rx c sil = Inr c' \<Longrightarrow> dom c' = insert (sil_id sil) (dom c)"
  by (auto simp: mi_add_def split: sum.splits)

lemma indexSilence_simps:
  "s_st (indexSilence E sil s) = s_st s"
  "s_version (indexSilence E sil s) = s_version s + 1"
  "s_vi (indexSilence E sil s) = s_vi s @ [\<lparr>sv_id = sil_id sil, sv_version = s_version s + 1\<rparr>]"
  "s_mi (indexSilence E sil s) =
     (case mi_add (e_rx E) (s_mi s) sil of Inl _ \<Rightarrow> s_mi s | Inr mi' \<Rightarrow> mi')"
  "s_retention (indexSilence E sil s) = s_retention s"
  by (simp_all add: indexSilence_def Let_def vi_add_def split: sum.splits)

text \<open>The common part of a local write and of a merge from a peer: the state after
  \<^verbatim>\<open>state.merge\<close>, indexed if the silence was added.\<close>

definition put_entry :: "sil_env \<Rightarrow> time \<Rightarrow> mesh_silence \<Rightarrow> silences \<Rightarrow> silences" where
  "put_entry E now e s =
     (let (st', changed, added) = state_merge (s_st s) e now;
          s1 = s\<lparr>s_st := st'\<rparr>
      in if added then indexSilence E (ms_silence e) s1 else s1)"

lemma put_entry_cases:
  obtains (unchanged) "put_entry E now e s = s" "state_merge (s_st s) e now = (s_st s, False, False)"
  | (added) "put_entry E now e s =
        indexSilence E (ms_silence e) (s\<lparr>s_st := (s_st s)(sil_key e \<mapsto> upgrade_comments e)\<rparr>)"
      "s_st s (sil_key e) = None"
      "state_merge (s_st s) e now = ((s_st s)(sil_key e \<mapsto> upgrade_comments e), True, True)"
  | (updated) prev where "put_entry E now e s = s\<lparr>s_st := (s_st s)(sil_key e \<mapsto> upgrade_comments e)\<rparr>"
      "s_st s (sil_key e) = Some prev" "sil_stamp prev < sil_stamp e"
      "state_merge (s_st s) e now = ((s_st s)(sil_key e \<mapsto> upgrade_comments e), True, False)"
  by (rule state_merge_cases [of "s_st s" e now]) (auto simp: put_entry_def)

lemma index_sent [simp]: "s_sent (indexSilence E sil s) = s_sent s"
  by (simp add: indexSilence_def Let_def split: sum.splits)

lemma put_sent [simp]: "s_sent (put_entry E now e s) = s_sent s"
  by (cases rule: put_entry_cases [of E now e s]) simp_all

lemma setSilence_put:
  "setSilence E msil now s = (case marshalMeshSilence E msil of
     None \<Rightarrow> (s, Inl MarshalFailed)
   | Some b \<Rightarrow>
       (let (st', changed, added) = state_merge (s_st s) msil now
        in ((put_entry E now msil s)\<lparr>s_sent := s_sent s @ (if changed then [b] else [])\<rparr>,
            Inr (changed, added))))"
proof (cases rule: state_merge_cases [of "s_st s" msil now])
  case unchanged
  then show ?thesis by (simp add: setSilence_def put_entry_def split: option.splits)
next
  case added
  then show ?thesis by (simp add: setSilence_def put_entry_def split: option.splits)
next
  case (updated prev)
  then show ?thesis by (simp add: setSilence_def put_entry_def split: option.splits)
qed

lemma merge_entry_put: "merge_entry E b now e s =
  (let (st', changed, added) = state_merge (s_st s) e now
   in (put_entry E now e s)\<lparr>s_sent := s_sent s @ (if changed \<and> \<not> OversizedMessage b then [b] else [])\<rparr>)"
proof (cases rule: state_merge_cases [of "s_st s" e now])
  case unchanged
  then show ?thesis by (simp add: merge_entry_def put_entry_def)
next
  case added
  then show ?thesis by (simp add: merge_entry_def put_entry_def)
next
  case (updated prev)
  then show ?thesis by (simp add: merge_entry_def put_entry_def)
qed

lemma vi_ids_upd [simp]: "vi_ids (s\<lparr>s_st := x\<rparr>) = vi_ids s" "vi_ids (s\<lparr>s_sent := y\<rparr>) = vi_ids s"
  by (simp_all add: vi_ids_def)

lemma vi_ids_index [simp]: "vi_ids (indexSilence E sil s) = insert (sil_id sil) (vi_ids s)"
  by (auto simp: vi_ids_def indexSilence_simps)

lemma vi_inv_index:
  assumes "vi_inv s" "sil_id sil \<notin> vi_ids s" "sil_id sil \<in> dom (s_st s)"
  shows "vi_inv (indexSilence E sil s)"
proof (rule vi_invI)
  note d = vi_invD [OF assms(1)]
  show "distinct (map sv_id (s_vi (indexSilence E sil s)))"
    using d(3) assms(2) by (auto simp: indexSilence_simps vi_ids_def)
  show "sorted (map sv_version (s_vi (indexSilence E sil s)))"
    using d(4) by (auto simp: indexSilence_simps sorted_append dest!: d(5))
  show "0 < sv_version sv \<and> sv_version sv \<le> s_version (indexSilence E sil s)"
    if "sv \<in> set (s_vi (indexSilence E sil s))" for sv
    using that d(6) by (auto simp: indexSilence_simps dest: d(5))
  show "dom (s_mi (indexSilence E sil s)) \<subseteq> vi_ids (indexSilence E sil s)"
    using d(8) by (auto simp: indexSilence_simps mi_add_def split: sum.splits if_splits)
  show "sil_key msil = i" if "s_st (indexSilence E sil s) i = Some msil" for i msil
    using that d(2) by (simp add: indexSilence_simps)
qed (use vi_invD(1,6,7) [OF assms(1)] assms(3) in \<open>simp_all add: indexSilence_simps\<close>)

lemma vi_inv_store:
  assumes "vi_inv s" "sil_key e = k"
  shows "vi_inv (s\<lparr>s_st := (s_st s)(k \<mapsto> e)\<rparr>)"
proof (rule vi_invI)
  show "sil_key msil = i" if "s_st (s\<lparr>s_st := (s_st s)(k \<mapsto> e)\<rparr>) i = Some msil" for i msil
    using that assms(2) vi_invD(2) [OF assms(1), of i msil] by (simp split: if_splits)
  show "vi_ids (s\<lparr>s_st := (s_st s)(k \<mapsto> e)\<rparr>) \<subseteq> dom (s_st (s\<lparr>s_st := (s_st s)(k \<mapsto> e)\<rparr>))"
    using vi_invD(7) [OF assms(1)] by auto
qed (use vi_invD(1,3-6,8) [OF assms(1)] in simp_all)

lemma vi_inv_put_entry [inv_intros]:
  assumes "vi_inv s"
  shows "vi_inv (put_entry E now e s)"
proof (cases rule: put_entry_cases [of E now e s])
  case added
  have "sil_key e \<notin> vi_ids s" using added(2) vi_invD(7) [OF assms] by auto
  then show ?thesis unfolding added(1)
    by (intro vi_inv_index vi_inv_store assms) simp_all
next
  case (updated prev)
  then show ?thesis by (simp add: vi_inv_store [OF assms])
qed (use assms in simp)

lemma vi_complete_put_entry [inv_intros]:
  "vi_complete s \<Longrightarrow> vi_complete (put_entry E now e s)"
  by (cases rule: put_entry_cases [of E now e s]) (auto simp: vi_complete_def indexSilence_simps)


lemma vi_inv_sent [simp]: "vi_inv (s\<lparr>s_sent := x\<rparr>) = vi_inv s" "vi_complete (s\<lparr>s_sent := x\<rparr>) = vi_complete s"
  by (simp_all add: vi_inv_def vi_complete_def vi_ids_def)

lemma vi_inv_setSilence [inv_intros]: "vi_inv s \<Longrightarrow> vi_inv (fst (setSilence E msil now s))"
  "vi_complete s \<Longrightarrow> vi_complete (fst (setSilence E msil now s))"
  by (simp_all add: setSilence_put inv_intros split: option.splits prod.splits)

lemma vi_inv_merge_entry [inv_intros]: "vi_inv s \<Longrightarrow> vi_inv (merge_entry E b now e s)"
  "vi_complete s \<Longrightarrow> vi_complete (merge_entry E b now e s)"
  by (simp_all add: merge_entry_put inv_intros split: prod.splits)

lemma vi_inv_merge_entries [inv_intros]: "vi_inv s \<Longrightarrow> vi_inv (merge_entries E b now es s)"
  "vi_complete s \<Longrightarrow> vi_complete (merge_entries E b now es s)"
  unfolding merge_entries_def by (induction es arbitrary: s) (simp_all add: inv_intros)

lemma fst_setSilence:
  "fst (case setSilence E msil now s of (s', Inl e) \<Rightarrow> (s', f e) | (s', Inr x) \<Rightarrow> (s', g x)) =
     fst (setSilence E msil now s)"
  by (simp split: prod.splits sum.splits)

lemma vi_inv_expire [inv_intros]:
  "vi_inv s \<Longrightarrow> vi_inv (fst (expire E i now s))"
  "vi_complete s \<Longrightarrow> vi_complete (fst (expire E i now s))"
  by (simp_all add: expire_def Let_def fst_setSilence inv_intros split: option.splits silence_state.splits)

lemma vi_inv_set_update [inv_intros]:
  "vi_inv s \<Longrightarrow> vi_inv (fst (set_update E now sil s))"
  "vi_complete s \<Longrightarrow> vi_complete (fst (set_update E now sil s))"
  by (simp_all add: set_update_def Let_def fst_setSilence inv_intros split: option.splits)

text \<open>What both writes keep, a creation keeps: the previous silence is expired first, then the new
  one is stored.\<close>

lemma set_create_preserves:
  assumes "P s" "\<And>i s. P s \<Longrightarrow> P (fst (expire E i now2 s))"
    "\<And>m s. P s \<Longrightarrow> P (fst (setSilence E m now s))"
  shows "P (fst (set_create E now now1 now2 uid prev sil s))"
proof -
  obtain s1 err where r: "expire_previous E now1 now2 prev s = (s1, err)"
    by (cases "expire_previous E now1 now2 prev s")
  have "P (fst (expire_previous E now1 now2 prev s))"
    using assms(1,2) by (simp add: expire_previous_def split: option.splits)
  then have "P s1" by (simp add: r)
  then show ?thesis
    using assms(1,3) by (simp add: set_create_def Let_def r fst_setSilence split: option.splits)
qed

lemma vi_inv_set_create [inv_intros]:
  "vi_inv s \<Longrightarrow> vi_inv (fst (set_create E now now1 now2 uid prev sil s))"
  "vi_complete s \<Longrightarrow> vi_complete (fst (set_create E now now1 now2 uid prev sil s))"
  by (rule set_create_preserves; simp add: inv_intros)+

lemma vi_inv_SetSilence [inv_intros]:
  "vi_inv s \<Longrightarrow> vi_inv (fst (SetSilence E now now1 now2 uid sil s))"
  "vi_complete s \<Longrightarrow> vi_complete (fst (SetSilence E now now1 now2 uid sil s))"
  by (simp_all add: SetSilence_def Let_def inv_intros split: option.splits sum.splits)

section \<open>Garbage collection\<close>

definition gc_dead :: "time \<Rightarrow> mesh_silence \<Rightarrow> bool" where
  "gc_dead now msil \<longleftrightarrow> is_nil_or_zero (ms_expiresAt msil) \<or> as_time (ms_expiresAt msil) \<le> now"

definition gc_live :: "time \<Rightarrow> sil_state \<Rightarrow> string \<Rightarrow> bool" where
  "gc_live now st i \<longleftrightarrow> (\<exists>msil. st i = Some msil \<and> \<not> gc_dead now msil)"

lemma gc_loop_spec:
  assumes "distinct (map sv_id vi)" "\<And>sv. sv \<in> set vi \<Longrightarrow> sv_id sv \<in> dom st"
    "\<And>i msil. st i = Some msil \<Longrightarrow> sil_key msil = i"
  shows "\<exists>errs. gc_loop now vi st mi =
    ((\<lambda>i. if i \<in> sv_id ` set vi \<and> \<not> gc_live now st i then None else st i),
     (\<lambda>i. if i \<in> sv_id ` set vi \<and> \<not> gc_live now st i then None else mi i),
     filter (\<lambda>sv. gc_live now st (sv_id sv)) vi,
     length (filter (\<lambda>sv. \<not> gc_live now st (sv_id sv)) vi), errs)
    \<and> (\<forall>i. GCMissing i \<notin> set errs)
    \<and> (\<forall>i. GCZeroExpiry i \<in> set errs \<longleftrightarrow>
         i \<in> sv_id ` set vi \<and> (\<exists>msil. st i = Some msil \<and> is_nil_or_zero (ms_expiresAt msil)))"
  using assms
proof (induction vi arbitrary: st mi)
  case Nil
  then show ?case by simp
next
  case (Cons sv vi)
  let ?i = "sv_id sv"
  obtain msil where st: "st ?i = Some msil" using Cons.prems(2) [of sv] by auto
  have key: "sil_key msil = ?i" using Cons.prems(3) [OF st] .
  have notin: "?i \<notin> sv_id ` set vi" and dv: "distinct (map sv_id vi)" using Cons.prems(1) by auto
  show ?case
  proof (cases "gc_dead now msil")
    case True
    let ?st = "st(?i := None)" and ?mi = "mi(?i := None)"
    have live: "gc_live now ?st j = gc_live now st j" if "j \<in> sv_id ` set vi" for j
    proof -
      have "j \<noteq> ?i" using that notin by blast
      then show ?thesis by (simp add: gc_live_def)
    qed
    have h1: "sv_id x \<in> dom ?st" if "x \<in> set vi" for x
    proof -
      have "sv_id x \<noteq> ?i" using that notin by (metis imageI)
      then show ?thesis using Cons.prems(2) [of x] that by simp
    qed
    have h2: "sil_key m = j" if "?st j = Some m" for j m
      using that Cons.prems(3) [of j m] by (simp split: if_splits)
    obtain errs where IH: "gc_loop now vi ?st ?mi =
      ((\<lambda>i. if i \<in> sv_id ` set vi \<and> \<not> gc_live now ?st i then None else ?st i),
       (\<lambda>i. if i \<in> sv_id ` set vi \<and> \<not> gc_live now ?st i then None else ?mi i),
       filter (\<lambda>sv. gc_live now ?st (sv_id sv)) vi,
       length (filter (\<lambda>sv. \<not> gc_live now ?st (sv_id sv)) vi), errs)"
      and m: "\<forall>i. GCMissing i \<notin> set errs"
      and z: "\<forall>i. GCZeroExpiry i \<in> set errs \<longleftrightarrow>
         i \<in> sv_id ` set vi \<and> (\<exists>msil. ?st i = Some msil \<and> is_nil_or_zero (ms_expiresAt msil))"
      using Cons.IH [OF dv h1 h2, where mi = ?mi] by blast
    have d: "\<not> gc_live now st ?i" using True st by (simp add: gc_live_def)
    have f: "filter (\<lambda>sv. gc_live now ?st (sv_id sv)) vi = filter (\<lambda>sv. gc_live now st (sv_id sv)) vi"
      "filter (\<lambda>sv. \<not> gc_live now ?st (sv_id sv)) vi = filter (\<lambda>sv. \<not> gc_live now st (sv_id sv)) vi"
      using live by (auto intro!: filter_cong)
    have g: "(\<lambda>i. if i \<in> sv_id ` set vi \<and> \<not> gc_live now ?st i then None else ?st i) =
        (\<lambda>i. if i \<in> sv_id ` set (sv # vi) \<and> \<not> gc_live now st i then None else st i)"
      "(\<lambda>i. if i \<in> sv_id ` set vi \<and> \<not> gc_live now ?st i then None else ?mi i) =
        (\<lambda>i. if i \<in> sv_id ` set (sv # vi) \<and> \<not> gc_live now st i then None else mi i)"
      using live d by (auto simp: fun_eq_iff)
    have c: "is_nil_or_zero (ms_expiresAt msil) \<or> \<not> now < as_time (ms_expiresAt msil)"
      using True by (auto simp: gc_dead_def)
    let ?e = "(if is_nil_or_zero (ms_expiresAt msil) then [GCZeroExpiry ?i] else []) @ errs"
    have "gc_loop now (sv # vi) st mi =
      ((\<lambda>i. if i \<in> sv_id ` set (sv # vi) \<and> \<not> gc_live now st i then None else st i),
       (\<lambda>i. if i \<in> sv_id ` set (sv # vi) \<and> \<not> gc_live now st i then None else mi i),
       filter (\<lambda>sv. gc_live now st (sv_id sv)) (sv # vi),
       length (filter (\<lambda>sv. \<not> gc_live now st (sv_id sv)) (sv # vi)), ?e)"
      using st key c d IH [unfolded f g] by (simp add: Let_def)
    moreover have "\<forall>i. GCMissing i \<notin> set ?e" using m by simp
    moreover have "\<forall>i. GCZeroExpiry i \<in> set ?e \<longleftrightarrow>
       i \<in> sv_id ` set (sv # vi) \<and> (\<exists>msil. st i = Some msil \<and> is_nil_or_zero (ms_expiresAt msil))"
    proof
      fix j
      show "GCZeroExpiry j \<in> set ?e \<longleftrightarrow> j \<in> sv_id ` set (sv # vi)
          \<and> (\<exists>msil. st j = Some msil \<and> is_nil_or_zero (ms_expiresAt msil))"
        using spec [OF z, of j] notin st by (cases "j = ?i") simp_all
    qed
    ultimately show ?thesis by (intro exI [of _ ?e] conjI)
  next
    case False
    obtain errs where IH: "gc_loop now vi st mi =
      ((\<lambda>i. if i \<in> sv_id ` set vi \<and> \<not> gc_live now st i then None else st i),
       (\<lambda>i. if i \<in> sv_id ` set vi \<and> \<not> gc_live now st i then None else mi i),
       filter (\<lambda>sv. gc_live now st (sv_id sv)) vi,
       length (filter (\<lambda>sv. \<not> gc_live now st (sv_id sv)) vi), errs)"
      and m: "\<forall>i. GCMissing i \<notin> set errs"
      and z: "\<forall>i. GCZeroExpiry i \<in> set errs \<longleftrightarrow>
         i \<in> sv_id ` set vi \<and> (\<exists>msil. st i = Some msil \<and> is_nil_or_zero (ms_expiresAt msil))"
      using Cons.IH [OF dv Cons.prems(2,3), where mi = mi] by auto
    have d: "gc_live now st ?i" using False st by (simp add: gc_live_def)
    have c: "\<not> (is_nil_or_zero (ms_expiresAt msil) \<or> \<not> now < as_time (ms_expiresAt msil))"
      using False by (auto simp: gc_dead_def)
    have g: "(\<lambda>i. if i \<in> sv_id ` set vi \<and> \<not> gc_live now st i then None else f i) =
        (\<lambda>i. if i \<in> sv_id ` set (sv # vi) \<and> \<not> gc_live now st i then None else f i)" for f :: "string \<Rightarrow> 'x option"
      using d by (auto simp: fun_eq_iff)
    have "gc_loop now (sv # vi) st mi =
      ((\<lambda>i. if i \<in> sv_id ` set (sv # vi) \<and> \<not> gc_live now st i then None else st i),
       (\<lambda>i. if i \<in> sv_id ` set (sv # vi) \<and> \<not> gc_live now st i then None else mi i),
       filter (\<lambda>sv. gc_live now st (sv_id sv)) (sv # vi),
       length (filter (\<lambda>sv. \<not> gc_live now st (sv_id sv)) (sv # vi)), errs)"
      using st key c d IH [unfolded g] by (simp add: Let_def)
    moreover have "\<forall>i. GCZeroExpiry i \<in> set errs \<longleftrightarrow>
       i \<in> sv_id ` set (sv # vi) \<and> (\<exists>msil. st i = Some msil \<and> is_nil_or_zero (ms_expiresAt msil))"
    proof
      fix j
      show "GCZeroExpiry j \<in> set errs \<longleftrightarrow> j \<in> sv_id ` set (sv # vi)
          \<and> (\<exists>msil. st j = Some msil \<and> is_nil_or_zero (ms_expiresAt msil))"
        using spec [OF z, of j] c st by (cases "j = ?i") simp_all
    qed
    ultimately show ?thesis using m by (intro exI [of _ errs] conjI)
  qed
qed


lemma GC_eq:
  assumes "vi_inv s"
  obtains errs where "GC now s =
     (s\<lparr>s_st := (\<lambda>i. if i \<in> vi_ids s \<and> \<not> gc_live now (s_st s) i then None else s_st s i),
         s_mi := (\<lambda>i. if i \<in> vi_ids s \<and> \<not> gc_live now (s_st s) i then None else s_mi s i),
         s_vi := filter (\<lambda>sv. gc_live now (s_st s) (sv_id sv)) (s_vi s)\<rparr>,
      length (filter (\<lambda>sv. \<not> gc_live now (s_st s) (sv_id sv)) (s_vi s)), errs)"
    and "\<And>i. GCMissing i \<notin> set errs"
    and "\<And>i. GCZeroExpiry i \<in> set errs \<longleftrightarrow>
      i \<in> vi_ids s \<and> (\<exists>msil. s_st s i = Some msil \<and> is_nil_or_zero (ms_expiresAt msil))"
proof -
  note d = vi_invD [OF assms]
  have in_dom: "sv_id sv \<in> dom (s_st s)" if "sv \<in> set (s_vi s)" for sv
    using d(7) that by (auto simp: vi_ids_def)
  obtain errs where e: "gc_loop now (s_vi s) (s_st s) (s_mi s) =
    ((\<lambda>i. if i \<in> sv_id ` set (s_vi s) \<and> \<not> gc_live now (s_st s) i then None else s_st s i),
     (\<lambda>i. if i \<in> sv_id ` set (s_vi s) \<and> \<not> gc_live now (s_st s) i then None else s_mi s i),
     filter (\<lambda>sv. gc_live now (s_st s) (sv_id sv)) (s_vi s),
     length (filter (\<lambda>sv. \<not> gc_live now (s_st s) (sv_id sv)) (s_vi s)), errs)"
    and m: "\<forall>i. GCMissing i \<notin> set errs"
    and z: "\<forall>i. GCZeroExpiry i \<in> set errs \<longleftrightarrow>
         i \<in> sv_id ` set (s_vi s) \<and> (\<exists>msil. s_st s i = Some msil \<and> is_nil_or_zero (ms_expiresAt msil))"
    using gc_loop_spec [OF d(3) in_dom d(2), where now = now and mi = "s_mi s"] by auto
  show ?thesis
    by (rule that [of errs]) (use e m z in \<open>simp_all add: GC_def vi_ids_def\<close>)
qed

lemma GC_state:
  assumes "vi_inv s" "GC now s = (s', n, errs)"
  shows "s_st s' = (\<lambda>i. if i \<in> vi_ids s \<and> \<not> gc_live now (s_st s) i then None else s_st s i)"
    and "s_mi s' = (\<lambda>i. if i \<in> vi_ids s \<and> \<not> gc_live now (s_st s) i then None else s_mi s i)"
    and "s_vi s' = filter (\<lambda>sv. gc_live now (s_st s) (sv_id sv)) (s_vi s)"
    and "s_version s' = s_version s"
    and "n = length (filter (\<lambda>sv. \<not> gc_live now (s_st s) (sv_id sv)) (s_vi s))"
    and "\<And>i. GCMissing i \<notin> set errs"
    and "\<And>i. GCZeroExpiry i \<in> set errs \<longleftrightarrow>
      i \<in> vi_ids s \<and> (\<exists>msil. s_st s i = Some msil \<and> is_nil_or_zero (ms_expiresAt msil))"
  by (rule GC_eq [OF assms(1), of now]; use assms(2) in auto)+

lemma GC_vi_ids:
  assumes "vi_inv s" "GC now s = (s', n, errs)"
  shows "vi_ids s' = {i \<in> vi_ids s. gc_live now (s_st s) i}"
  unfolding vi_ids_def GC_state(3) [OF assms] by auto

lemma GC_dom:
  assumes "vi_inv s" "GC now s = (s', n, errs)"
  shows "dom (s_st s') = {i \<in> dom (s_st s). i \<in> vi_ids s \<longrightarrow> gc_live now (s_st s) i}"
    and "dom (s_mi s') = {i \<in> dom (s_mi s). i \<in> vi_ids s \<longrightarrow> gc_live now (s_st s) i}"
  unfolding GC_state(1,2) [OF assms] by (auto split: if_splits)

lemma vi_inv_GC:
  assumes "vi_inv s" "GC now s = (s', n, errs)"
  shows "vi_inv s'"
proof (rule vi_invI)
  note d = vi_invD [OF assms(1)] and g = GC_state [OF assms] and v = GC_vi_ids [OF assms]
    and dm = GC_dom [OF assms]
  show "finite (dom (s_st s'))" unfolding dm using d(1) by simp
  show "sil_key msil = i" if "s_st s' i = Some msil" for i msil
    using that d(2) [of i msil] by (simp add: g(1) split: if_splits)
  show "distinct (map sv_id (s_vi s'))" unfolding g(3) using d(3) by (simp add: distinct_map_filter)
  show "sorted (map sv_version (s_vi s'))" unfolding g(3) using d(4) by (rule sorted_filter)
  show "0 < sv_version sv \<and> sv_version sv \<le> s_version s'" if "sv \<in> set (s_vi s')" for sv
    using that d(5) [of sv] by (simp add: g(3,4))
  show "0 \<le> s_version s'" using d(6) g(4) by simp
  show "vi_ids s' \<subseteq> dom (s_st s')" unfolding v dm using d(7) by auto
  show "dom (s_mi s') \<subseteq> vi_ids s'" unfolding v dm using d(8) by auto
qed

lemma vi_complete_GC:
  assumes "vi_inv s" "GC now s = (s', n, errs)" "vi_complete s"
  shows "vi_complete s'"
  using assms(3) unfolding vi_complete_def GC_vi_ids [OF assms(1,2)] GC_dom [OF assms(1,2)] by auto

section \<open>Queries\<close>

lemma lookup_all_Some:
  "set is \<subseteq> dom st \<Longrightarrow> lookup_all st is = Some (map (\<lambda>i. ms_silence (the (st i))) is)"
  by (induction "is") (auto simp: dom_def)

lemma lookup_existing_eq:
  "lookup_existing st is = map (\<lambda>i. ms_silence (the (st i))) (filter (\<lambda>i. i \<in> dom st) is)"
  by (induction "is") (auto split: option.splits)

lemma scan_silences_filter:
  "(\<And>sil. sil \<in> set sils \<Longrightarrow> filters_match fs sil s now = Inr (p sil)) \<Longrightarrow>
     scan_silences fs s now sils = Inr (filter p sils)"
  by (induction sils) auto

text \<open>A query never dereferences a missing silence.\<close>

lemma query_run_no_panic: "vi_inv s \<Longrightarrow> query_run s q now \<noteq> None"
proof -
  assume inv: "vi_inv s"
  have "set (map sv_id (drop k (s_vi s))) \<subseteq> dom (s_st s)" for k
    using vi_invD(7) [OF inv] set_drop_subset [of k "s_vi s"] by (auto simp: vi_ids_def)
  then have l: "lookup_all (s_st s) (map sv_id (drop k (s_vi s))) \<noteq> None" for k
    by (simp only: lookup_all_Some) simp
  show ?thesis
    unfolding query_run_def Let_def using l l [of 0, simplified]
    by (cases "q_since q"; cases "findVersionGreaterThan (s_vi s) (the (q_since q))")
      (auto split: option.splits dest: l [THEN notE, rotated])
qed

lemma CountState_eq:
  assumes "vi_inv s"
  shows "CountState s states now =
    Some (length (filter (\<lambda>sv. getState (ms_silence (the (s_st s (sv_id sv)))) now \<in> set states) (s_vi s)))"
proof -
  have "set (map sv_id (s_vi s)) \<subseteq> dom (s_st s)"
    using vi_invD(7) [OF assms] by (simp add: vi_ids_def)
  then show ?thesis by (simp add: CountState_def lookup_all_Some filter_map comp_def del: set_map)
qed

end
