(* ===== verification/Silencer.thy ===== *)
theory Silencer
  imports Silences
begin

text \<open>
  \<^verbatim>\<open>Silencer\<close> of \<^verbatim>\<open>silence/silence.go\<close> and its cache \<^verbatim>\<open>silence/cache.go\<close>. For every alert the cache
  keeps the identifiers of the silences that matched it and were active or pending when it was
  last looked at, and the version of the store this is based on; a later look at the alert only
  considers these and the silences added since. The main result is that this incremental
  procedure gives the same answer as scanning every silence.

  The cache is keyed by the fingerprint of the alert's labels, computed by a function of a
  package the repository only calls: it is the parameter \<open>fp\<close>. \<^verbatim>\<open>Mutes\<close> locks the store three
  times; each access sees its own state of the store (\<open>s0\<close>, \<open>s1\<close>, \<open>s2\<close>) and each reading of the
  clock has its own value.
\<close>

section \<open>The cache\<close>

record cache_entry =
  ce_ids :: "string list"
  ce_version :: int

type_synonym 'fp sil_cache = "'fp \<rightharpoonup> cache_entry"

definition newCacheEntry :: "int \<Rightarrow> string list \<Rightarrow> cache_entry" where
  "newCacheEntry version ids = \<lparr>ce_ids = ids, ce_version = version\<rparr>"

definition ce_count :: "cache_entry \<Rightarrow> nat" where
  "ce_count e = length (ce_ids e)"

definition cache_delete :: "'fp sil_cache \<Rightarrow> 'fp \<Rightarrow> 'fp sil_cache" where
  "cache_delete c f = c(f := None)"

definition cache_get :: "'fp sil_cache \<Rightarrow> 'fp \<Rightarrow> cache_entry" where
  "cache_get c f = (case c f of Some e \<Rightarrow> e | None \<Rightarrow> \<lparr>ce_ids = [], ce_version = 0\<rparr>)"

definition cache_put :: "'fp sil_cache \<Rightarrow> 'fp \<Rightarrow> cache_entry \<Rightarrow> 'fp sil_cache" where
  "cache_put c f e = c(f \<mapsto> e)"

definition PostGC :: "'fp sil_cache \<Rightarrow> 'fp list \<Rightarrow> 'fp sil_cache" where
  "PostGC c ff = fold (\<lambda>f c. cache_delete c f) ff c"

section \<open>Mutes\<close>

text \<open>The sorting of the silences found, without repetition: the active ones, and all of them.\<close>

fun classify :: "time \<Rightarrow> string list \<Rightarrow> silence list \<Rightarrow> string list \<times> string list" where
  "classify now seen [] = ([], [])"
| "classify now seen (sil # sils) =
     (if sil_id sil \<in> set seen then classify now seen sils
      else (let (active, all) = classify now (sil_id sil # seen) sils
            in case getState sil now of
                 SilenceStatePending \<Rightarrow> (active, sil_id sil # all)
               | SilenceStateActive \<Rightarrow> (sil_id sil # active, sil_id sil # all)
               | SilenceStateExpired \<Rightarrow> (active, all)))"

definition query_old :: "silences \<Rightarrow> time \<Rightarrow> cache_entry \<Rightarrow> silence list option" where
  "query_old s now e =
     (if ce_count e > 0 then
        (case Query s [QIDs (ce_ids e), QState [SilenceStateActive, SilenceStatePending]] now of
           None \<Rightarrow> None
         | Some (Inl _, _) \<Rightarrow> Some []
         | Some (Inr sils, _) \<Rightarrow> Some sils)
      else Some [])"

definition query_new :: "silences \<Rightarrow> time \<Rightarrow> bool \<Rightarrow> cache_entry \<Rightarrow> labelset \<Rightarrow> (silence list \<times> int) option" where
  "query_new s now cacheIsUpToDate e lset =
     (if \<not> cacheIsUpToDate then
        (case Query s [QSince (ce_version e), QState [SilenceStateActive, SilenceStatePending], QMatches lset] now of
           None \<Rightarrow> None
         | Some (Inl _, v) \<Rightarrow> Some ([], v)
         | Some (Inr sils, v) \<Rightarrow> Some (sils, v))
      else Some ([], ce_version e))"

text \<open>The result: the cache, whether the alert is muted, the silences to mark it with; \<open>None\<close> is a
  panic.\<close>

definition Mutes ::
  "(labelset \<Rightarrow> 'fp) \<Rightarrow> silences \<Rightarrow> silences \<Rightarrow> silences \<Rightarrow> time \<Rightarrow> time \<Rightarrow> time \<Rightarrow> 'fp sil_cache \<Rightarrow>
     labelset \<Rightarrow> ('fp sil_cache \<times> bool \<times> string list) option" where
  "Mutes fp s0 s1 s2 t1 t2 t3 c lset =
     (let f = fp lset; e = cache_get c f; upToDate = (ce_version e = Version s0)
      in if upToDate \<and> ce_count e = 0 then Some (c, False, [])
         else (case query_old s1 t1 e of
             None \<Rightarrow> None
           | Some old \<Rightarrow> (case query_new s2 t2 upToDate e lset of
               None \<Rightarrow> None
             | Some (new, newVersion) \<Rightarrow>
                 if length old + length new = 0
                 then Some (cache_put c f (newCacheEntry newVersion []), False, [])
                 else (let (active, all) = classify t3 [] (old @ new);
                           mutes = (length active > 0)
                       in Some (cache_put c f (newCacheEntry newVersion all), mutes,
                                if mutes then active else [])))))"

section \<open>What muting means\<close>

definition sil_matches :: "regexp_engine \<Rightarrow> labelset \<Rightarrow> silence \<Rightarrow> bool" where
  "sil_matches rx lset sil = (case compile_sets rx (sil_matcherSets sil) of
     Inl _ \<Rightarrow> False
   | Inr mss \<Rightarrow> matcher_set_matches mss lset)"

text \<open>The specification: some stored silence matches the labels and is active.\<close>

definition muted_by :: "regexp_engine \<Rightarrow> silences \<Rightarrow> time \<Rightarrow> labelset \<Rightarrow> string set" where
  "muted_by rx s now lset = {i. \<exists>msil. s_st s i = Some msil \<and> sil_matches rx lset (ms_silence msil)
     \<and> getState (ms_silence msil) now = SilenceStateActive}"

text \<open>The matcher index holds the compiled matchers of every listed silence.\<close>

definition mi_inv :: "regexp_engine \<Rightarrow> silences \<Rightarrow> bool" where
  "mi_inv rx s \<longleftrightarrow> (\<forall>i \<in> vi_ids s. \<exists>msil mss. s_st s i = Some msil \<and> s_mi s i = Some mss
     \<and> compile_sets rx (sil_matcherSets (ms_silence msil)) = Inr mss)"

text \<open>
  What a cache entry promises at a time: it is not newer than the store; a silence up to its
  version that matches and has not expired is in it; what is in it matches, if still stored.
\<close>

definition cache_ok :: "regexp_engine \<Rightarrow> silences \<Rightarrow> time \<Rightarrow> labelset \<Rightarrow> cache_entry \<Rightarrow> bool" where
  "cache_ok rx s now lset e \<longleftrightarrow>
     ce_version e \<le> s_version s
     \<and> (\<forall>sv \<in> set (s_vi s). \<forall>msil. sv_version sv \<le> ce_version e \<longrightarrow> s_st s (sv_id sv) = Some msil \<longrightarrow>
          sil_matches rx lset (ms_silence msil) \<longrightarrow> getState (ms_silence msil) now \<noteq> SilenceStateExpired \<longrightarrow>
          sv_id sv \<in> set (ce_ids e))
     \<and> (\<forall>i \<in> set (ce_ids e). \<forall>msil. s_st s i = Some msil \<longrightarrow> sil_matches rx lset (ms_silence msil))"

lemma cache_okD:
  assumes "cache_ok rx s now lset e"
  shows "ce_version e \<le> s_version s"
    and "\<And>sv msil. sv \<in> set (s_vi s) \<Longrightarrow> sv_version sv \<le> ce_version e \<Longrightarrow> s_st s (sv_id sv) = Some msil \<Longrightarrow>
      sil_matches rx lset (ms_silence msil) \<Longrightarrow> getState (ms_silence msil) now \<noteq> SilenceStateExpired \<Longrightarrow>
      sv_id sv \<in> set (ce_ids e)"
    and "\<And>i msil. i \<in> set (ce_ids e) \<Longrightarrow> s_st s i = Some msil \<Longrightarrow> sil_matches rx lset (ms_silence msil)"
  using assms by (auto simp: cache_ok_def)

lemma cache_okI:
  assumes "ce_version e \<le> s_version s"
    and "\<And>sv msil. sv \<in> set (s_vi s) \<Longrightarrow> sv_version sv \<le> ce_version e \<Longrightarrow> s_st s (sv_id sv) = Some msil \<Longrightarrow>
      sil_matches rx lset (ms_silence msil) \<Longrightarrow> getState (ms_silence msil) now \<noteq> SilenceStateExpired \<Longrightarrow>
      sv_id sv \<in> set (ce_ids e)"
    and "\<And>i msil. i \<in> set (ce_ids e) \<Longrightarrow> s_st s i = Some msil \<Longrightarrow> sil_matches rx lset (ms_silence msil)"
  shows "cache_ok rx s now lset e"
  using assms unfolding cache_ok_def by blast

text \<open>A silence that has not expired had not expired earlier.\<close>

lemma not_expired_earlier:
  "getState sil t' \<noteq> SilenceStateExpired \<Longrightarrow> t \<le> t' \<Longrightarrow> getState sil t \<noteq> SilenceStateExpired"
  by (auto simp: getState_def split: if_splits)

lemma cache_ok_later: "cache_ok rx s t lset e \<Longrightarrow> t \<le> t' \<Longrightarrow> cache_ok rx s t' lset e"
  by (rule cache_okI) (auto dest: cache_okD not_expired_earlier)

section \<open>The classification\<close>

lemma filter_seen_eq:
  assumes "\<And>x. x \<in> set sils \<Longrightarrow> sil_id x = sil_id sil \<Longrightarrow> x = sil"
  shows "P sil \<Longrightarrow> insert (sil_id sil) (sil_id ` set (filter (\<lambda>x. sil_id x \<notin> set (sil_id sil # seen) \<and> P x) sils)) =
      insert (sil_id sil) (sil_id ` set (filter (\<lambda>x. sil_id x \<notin> set seen \<and> P x) sils))"
    and "\<not> P sil \<Longrightarrow> sil_id ` set (filter (\<lambda>x. sil_id x \<notin> set (sil_id sil # seen) \<and> P x) sils) =
      sil_id ` set (filter (\<lambda>x. sil_id x \<notin> set seen \<and> P x) sils)"
proof -
  assume "\<not> P sil"
  then have "filter (\<lambda>x. sil_id x \<notin> set (sil_id sil # seen) \<and> P x) sils = filter (\<lambda>x. sil_id x \<notin> set seen \<and> P x) sils"
    using assms by (intro filter_cong refl) auto
  then show "sil_id ` set (filter (\<lambda>x. sil_id x \<notin> set (sil_id sil # seen) \<and> P x) sils) =
      sil_id ` set (filter (\<lambda>x. sil_id x \<notin> set seen \<and> P x) sils)" by simp
qed auto

lemma classify_sets:
  assumes "inj_on sil_id (set sils)" "classify now seen sils = (active, all)"
  shows "set active = sil_id ` set (filter (\<lambda>x. sil_id x \<notin> set seen \<and> getState x now = SilenceStateActive) sils)
    \<and> set all = sil_id ` set (filter (\<lambda>x. sil_id x \<notin> set seen \<and> getState x now \<noteq> SilenceStateExpired) sils)"
  using assms
proof (induction now seen sils arbitrary: active all rule: classify.induct)
  case (1 now seen)
  then show ?case by simp
next
  case (2 now seen sil sils)
  have inj: "inj_on sil_id (set sils)" using "2.prems"(1) by simp
  show ?case
  proof (cases "sil_id sil \<in> set seen")
    case True
    then have "classify now seen sils = (active, all)" using "2.prems"(2) by simp
    from "2.IH"(1) [OF True inj this] True show ?thesis by simp
  next
    case False
    obtain a l where al: "classify now (sil_id sil # seen) sils = (a, l)" by fastforce
    note IH = "2.IH"(2) [OF False inj al]
    have same: "x = sil" if "x \<in> set sils" "sil_id x = sil_id sil" for x
      using inj_onD [OF "2.prems"(1), of x sil] that by simp
    have A: "set active = (if getState sil now = SilenceStateActive then insert (sil_id sil) (set a) else set a)"
      and L: "set all = (if getState sil now \<noteq> SilenceStateExpired then insert (sil_id sil) (set l) else set l)"
      using "2.prems"(2) False al by (auto split: silence_state.splits)
    note eqs = filter_seen_eq [where sils = sils and sil = sil, OF same]
    show ?thesis unfolding A L IH [THEN conjunct1] IH [THEN conjunct2]
      using False eqs(1) [where P = "\<lambda>x. getState x now = SilenceStateActive" and seen = seen]
        eqs(2) [where P = "\<lambda>x. getState x now = SilenceStateActive" and seen = seen]
        eqs(1) [where P = "\<lambda>x. getState x now \<noteq> SilenceStateExpired" and seen = seen]
        eqs(2) [where P = "\<lambda>x. getState x now \<noteq> SilenceStateExpired" and seen = seen]
      by simp
  qed
qed


section \<open>The two queries\<close>

lemma not_expired_iff: "getState sil t \<in> {SilenceStateActive, SilenceStatePending} \<longleftrightarrow> getState sil t \<noteq> SilenceStateExpired"
  by (cases "getState sil t") auto

lemma query_old_eq:
  "query_old s t e = Some (filter (\<lambda>sil. getState sil t \<noteq> SilenceStateExpired) (lookup_existing (s_st s) (ce_ids e)))"
proof (cases "ce_ids e = []")
  case True
  then show ?thesis by (simp add: query_old_def ce_count_def)
next
  case False
  have "scan_silences [FState [SilenceStateActive, SilenceStatePending]] s t sils =
      Inr (filter (\<lambda>sil. getState sil t \<noteq> SilenceStateExpired) sils)" for sils
    by (rule scan_silences_filter) (simp add: not_expired_iff [simplified])
  then show ?thesis using False
    by (simp add: query_old_def ce_count_def Query_def query_run_def)
qed

definition stored :: "silences \<Rightarrow> string \<Rightarrow> silence" where
  "stored s i = ms_silence (the (s_st s i))"

lemma stored_id: "vi_inv s \<Longrightarrow> i \<in> dom (s_st s) \<Longrightarrow> sil_id (stored s i) = i"
  by (auto simp: stored_def dest: vi_invD(2))

lemma lookup_all_listed:
  assumes "vi_inv s" "set svs \<subseteq> set (s_vi s)"
  shows "lookup_all (s_st s) (map sv_id svs) = Some (map (\<lambda>sv. stored s (sv_id sv)) svs)"
proof -
  have "set (map sv_id svs) \<subseteq> dom (s_st s)"
    using assms(2) vi_invD(7) [OF assms(1)] by (auto simp: vi_ids_def)
  then show ?thesis by (simp add: lookup_all_Some stored_def comp_def del: set_map)
qed

lemma filters_match_listed:
  assumes "vi_inv s" "mi_inv rx s" "i \<in> vi_ids s"
  shows "filters_match [FState [SilenceStateActive, SilenceStatePending], FMatches lset] (stored s i) s t =
    Inr (getState (stored s i) t \<noteq> SilenceStateExpired \<and> sil_matches rx lset (stored s i))"
proof -
  obtain msil mss where m: "s_st s i = Some msil" "s_mi s i = Some mss"
    "compile_sets rx (sil_matcherSets (ms_silence msil)) = Inr mss"
    using assms(2,3) by (auto simp: mi_inv_def)
  have "sil_id (stored s i) = i" using stored_id [OF assms(1)] m(1) by auto
  with m show ?thesis
    by (simp add: mi_get_def sil_matches_def stored_def not_expired_iff [simplified] del: matcher_set_matches_iff)
qed

lemma query_new_eq:
  assumes "vi_inv s" "mi_inv rx s"
  shows "query_new s t False e lset =
    Some (filter (\<lambda>sil. getState sil t \<noteq> SilenceStateExpired \<and> sil_matches rx lset sil)
            (map (\<lambda>sv. stored s (sv_id sv)) (filter (\<lambda>sv. ce_version e < sv_version sv) (s_vi s))),
          s_version s)"
proof -
  obtain start found where f: "findVersionGreaterThan (s_vi s) (ce_version e) = (start, found)" by fastforce
  note F = findVersionGreaterThan_filter [OF vi_invD(4) [OF assms(1)] f]
  let ?svs = "filter (\<lambda>sv. ce_version e < sv_version sv) (s_vi s)"
  have "lookup_all (s_st s) (map sv_id (drop start (s_vi s))) = Some (map (\<lambda>sv. stored s (sv_id sv)) ?svs)"
    unfolding F(1) by (rule lookup_all_listed [OF assms(1)]) auto
  moreover have "scan_silences [FState [SilenceStateActive, SilenceStatePending], FMatches lset] s t
      (map (\<lambda>sv. stored s (sv_id sv)) ?svs) =
    Inr (filter (\<lambda>sil. getState sil t \<noteq> SilenceStateExpired \<and> sil_matches rx lset sil)
      (map (\<lambda>sv. stored s (sv_id sv)) ?svs))"
  proof (rule scan_silences_filter)
    fix sil assume "sil \<in> set (map (\<lambda>sv. stored s (sv_id sv)) ?svs)"
    then obtain i where "sil = stored s i" "i \<in> vi_ids s" by (auto simp: vi_ids_def)
    then show "filters_match [FState [SilenceStateActive, SilenceStatePending], FMatches lset] sil s t =
      Inr (getState sil t \<noteq> SilenceStateExpired \<and> sil_matches rx lset sil)"
      by (simp only: filters_match_listed [OF assms])
  qed
  moreover have "?svs = []" if "\<not> found" using that F(2) by (auto simp: filter_empty_conv)
  ultimately show ?thesis
    by (cases found) (simp_all add: query_new_def Query_def query_run_def f)
qed

section \<open>Mutes gives the specified answer\<close>

text \<open>The silences the two queries find, as identifiers.\<close>

definition found_ids :: "regexp_engine \<Rightarrow> silences \<Rightarrow> time \<Rightarrow> labelset \<Rightarrow> string set" where
  "found_ids rx s now lset = {i \<in> dom (s_st s). sil_matches rx lset (stored s i) \<and> getState (stored s i) now \<noteq> SilenceStateExpired}"

definition mutes_found :: "regexp_engine \<Rightarrow> silences \<Rightarrow> time \<Rightarrow> time \<Rightarrow> cache_entry \<Rightarrow> labelset \<Rightarrow> silence list" where
  "mutes_found rx s t1 t2 e lset =
     filter (\<lambda>sil. getState sil t1 \<noteq> SilenceStateExpired) (lookup_existing (s_st s) (ce_ids e)) @
     (if ce_version e = s_version s then []
      else filter (\<lambda>sil. getState sil t2 \<noteq> SilenceStateExpired \<and> sil_matches rx lset sil)
            (map (\<lambda>sv. stored s (sv_id sv)) (filter (\<lambda>sv. ce_version e < sv_version sv) (s_vi s))))"

lemma lookup_existing_stored:
  "lookup_existing (s_st s) is = map (stored s) (filter (\<lambda>i. i \<in> dom (s_st s)) is)"
  by (simp add: lookup_existing_eq stored_def)

lemma mutes_found_stored:
  assumes "vi_inv s" "cache_ok rx s t0 lset e" "sil \<in> set (mutes_found rx s t1 t2 e lset)"
  shows "\<exists>i \<in> dom (s_st s). sil = stored s i \<and> sil_matches rx lset (stored s i)"
proof -
  have *: "sv_id sv \<in> dom (s_st s)" if "sv \<in> set (s_vi s)" for sv
    using that vi_invD(7) [OF assms(1)] by (auto simp: vi_ids_def)
  have "sil_matches rx lset (stored s i)" if "i \<in> set (ce_ids e)" "i \<in> dom (s_st s)" for i
    using that cache_okD(3) [OF assms(2)] by (auto simp: stored_def)
  with assms(3) * show ?thesis
    unfolding mutes_found_def by (fastforce simp: lookup_existing_stored split: if_splits)
qed

lemma mutes_found_inj:
  assumes "vi_inv s" "cache_ok rx s t0 lset e"
  shows "inj_on sil_id (set (mutes_found rx s t1 t2 e lset))"
proof (rule inj_onI)
  fix x y assume xy: "x \<in> set (mutes_found rx s t1 t2 e lset)" "y \<in> set (mutes_found rx s t1 t2 e lset)" "sil_id x = sil_id y"
  obtain i where i: "i \<in> dom (s_st s)" "x = stored s i" using mutes_found_stored [OF assms xy(1)] by blast
  obtain j where j: "j \<in> dom (s_st s)" "y = stored s j" using mutes_found_stored [OF assms xy(2)] by blast
  have "i = j" using xy(3) stored_id [OF assms(1) i(1)] stored_id [OF assms(1) j(1)] unfolding i(2) j(2) by simp
  then show "x = y" using i j by simp
qed

lemma mutes_found_complete:
  assumes "vi_inv s" "vi_complete s" "cache_ok rx s t0 lset e" "t0 \<le> t1" "t1 \<le> t2" "t2 \<le> t3"
    and i: "i \<in> found_ids rx s t3 lset"
  shows "stored s i \<in> set (mutes_found rx s t1 t2 e lset)"
proof -
  obtain msil where m: "s_st s i = Some msil" "sil_matches rx lset (stored s i)" "getState (stored s i) t3 \<noteq> SilenceStateExpired"
    using i by (auto simp: found_ids_def)
  have ne: "getState (stored s i) t \<noteq> SilenceStateExpired" if "t \<le> t3" for t
    using not_expired_earlier [OF m(3) that] .
  obtain sv where sv: "sv \<in> set (s_vi s)" "sv_id sv = i"
    using assms(2) m(1) by (auto simp: vi_complete_def vi_ids_def)
  have ver: "sv_version sv \<le> s_version s" using vi_invD(5) [OF assms(1)] sv(1) by blast
  show ?thesis
  proof (cases "sv_version sv \<le> ce_version e")
    case True
    have "i \<in> set (ce_ids e)"
      using cache_okD(2) [OF assms(3) sv(1) True] m ne [of t0] assms(4-6) sv(2) by (auto simp: stored_def)
    then show ?thesis using m ne [of t1] assms(4-6)
      by (auto simp: mutes_found_def lookup_existing_eq stored_def intro!: image_eqI [of _ _ i])
  next
    case False
    then show ?thesis using m ne [of t2] assms(6) sv ver
      by (auto simp: mutes_found_def intro!: image_eqI [of _ _ sv])
  qed
qed

lemma found_active:
  assumes "vi_inv s"
  shows "muted_by rx s t lset = {i \<in> found_ids rx s t lset. getState (stored s i) t = SilenceStateActive}"
  by (auto simp: muted_by_def found_ids_def stored_def)

lemma classify_mutes_found:
  assumes "vi_inv s" "vi_complete s" "cache_ok rx s t0 lset e" "t0 \<le> t1" "t1 \<le> t2" "t2 \<le> t3"
    and c: "classify t3 [] (mutes_found rx s t1 t2 e lset) = (active, all)"
  shows "set active = muted_by rx s t3 lset" "set all = found_ids rx s t3 lset"
proof -
  let ?F = "set (mutes_found rx s t1 t2 e lset)"
  note C = classify_sets [OF mutes_found_inj [OF assms(1,3)] c]
  have "found_ids rx s t3 lset = sil_id ` {sil \<in> ?F. getState sil t3 \<noteq> SilenceStateExpired}" (is "?A = ?B")
  proof
    show "?A \<subseteq> ?B"
    proof
      fix i assume i: "i \<in> ?A"
      then have "i \<in> dom (s_st s)" "getState (stored s i) t3 \<noteq> SilenceStateExpired" by (auto simp: found_ids_def)
      then show "i \<in> ?B" using mutes_found_complete [OF assms(1-6) i] stored_id [OF assms(1), of i]
        by (intro image_eqI [of _ _ "stored s i"]) auto
    qed
    show "?B \<subseteq> ?A" using mutes_found_stored [OF assms(1,3)] stored_id [OF assms(1)]
      by (fastforce simp: found_ids_def)
  qed
  then show all: "set all = found_ids rx s t3 lset" using C by simp
  have "set active = {i \<in> found_ids rx s t3 lset. getState (stored s i) t3 = SilenceStateActive}"
  proof -
    have "set active = sil_id ` {sil \<in> ?F. getState sil t3 = SilenceStateActive}" using C by simp
    also have "\<dots> = {i \<in> ?B. getState (stored s i) t3 = SilenceStateActive}" (is "?L = ?R")
    proof -
      have *: "stored s (sil_id sil) = sil" if "sil \<in> ?F" for sil
        using mutes_found_stored [OF assms(1,3) that] stored_id [OF assms(1)] by fastforce
      show ?thesis using * by (auto intro!: image_eqI)
    qed
    finally show ?thesis using \<open>?A = ?B\<close> by simp
  qed
  then show "set active = muted_by rx s t3 lset" using found_active [OF assms(1)] by simp
qed

lemma Mutes_eq:
  assumes "vi_inv s" "mi_inv rx s"
  shows "Mutes fp s s s t1 t2 t3 c lset =
    (let e = cache_get c (fp lset)
     in if ce_version e = s_version s \<and> ce_ids e = [] then Some (c, False, [])
        else (let (active, all) = classify t3 [] (mutes_found rx s t1 t2 e lset)
              in Some (cache_put c (fp lset) (newCacheEntry (s_version s) all), active \<noteq> [], active)))"
  using query_new_eq [OF assms, of t2 "cache_get c (fp lset)" lset]
  by (auto simp: Mutes_def Let_def Version_def ce_count_def query_old_eq mutes_found_def query_new_def
      split: prod.splits)

text \<open>An alert with an up-to-date and empty cache entry is not muted.\<close>

lemma cache_empty_not_muted:
  assumes "vi_inv s" "vi_complete s" "cache_ok rx s t0 lset e" "t0 \<le> t3"
    and "ce_version e = s_version s" "ce_ids e = []"
  shows "found_ids rx s t3 lset = {}"
proof (rule ccontr)
  assume "found_ids rx s t3 lset \<noteq> {}"
  then obtain i where i: "i \<in> found_ids rx s t3 lset" by blast
  have "mutes_found rx s t0 t3 e lset = []" using assms(5,6) by (simp add: mutes_found_def)
  then show False using mutes_found_complete [OF assms(1-3) order_refl assms(4) order_refl i] by simp
qed

lemma cache_ok_found:
  assumes "set (ce_ids e) = found_ids rx s t lset" "ce_version e = s_version s"
  shows "cache_ok rx s t lset e"
  by (rule cache_okI) (auto simp: assms found_ids_def stored_def)

lemma cache_put_simps [simp]:
  "cache_get (cache_put c f e) g = (if g = f then e else cache_get c g)"
  "f \<noteq> g \<Longrightarrow> cache_put c f e g = c g"
  "ce_ids (newCacheEntry v is) = is" "ce_version (newCacheEntry v is) = v"
  by (simp_all add: cache_get_def cache_put_def newCacheEntry_def)

text \<open>What a call establishes, from a correct cache entry.\<close>

lemma Mutes_step:
  assumes "vi_inv s" "vi_complete s" "mi_inv rx s"
    and "cache_ok rx s t0 lset (cache_get c (fp lset))" "t0 \<le> t1" "t1 \<le> t2" "t2 \<le> t3"
  obtains c' ids where "Mutes fp s s s t1 t2 t3 c lset = Some (c', ids \<noteq> [], ids)"
    and "set ids = muted_by rx s t3 lset"
    and "set (ce_ids (cache_get c' (fp lset))) = found_ids rx s t3 lset"
    and "ce_version (cache_get c' (fp lset)) = s_version s"
    and "\<And>f. f \<noteq> fp lset \<Longrightarrow> c' f = c f"
proof (cases "ce_version (cache_get c (fp lset)) = s_version s \<and> ce_ids (cache_get c (fp lset)) = []")
  case True
  have "found_ids rx s t3 lset = {}"
    by (rule cache_empty_not_muted [OF assms(1,2,4)]) (use True assms(5-7) in auto)
  then show ?thesis using True
    by (intro that [of c "[]"]) (auto simp: Mutes_eq [OF assms(1,3)] found_active [OF assms(1)])
next
  case False
  obtain active all where c: "classify t3 [] (mutes_found rx s t1 t2 (cache_get c (fp lset)) lset) = (active, all)"
    by fastforce
  note C = classify_mutes_found [OF assms(1,2,4-7) c]
  show ?thesis using False C
    by (intro that [of "cache_put c (fp lset) (newCacheEntry (s_version s) all)" active])
      (auto simp: Mutes_eq [OF assms(1,3)] c)
qed

section \<open>Keeping the cache correct\<close>

text \<open>
  An identifier stands for the same matchers for ever: \<open>reg\<close> gives them. The store keeps to it,
  and so do the entries of the cache, also for silences that are no longer stored.
\<close>

definition sets_match :: "regexp_engine \<Rightarrow> labelset \<Rightarrow> pb_matcher_set list \<Rightarrow> bool" where
  "sets_match rx lset sets = (case compile_sets rx sets of
     Inl _ \<Rightarrow> False | Inr mss \<Rightarrow> matcher_set_matches mss lset)"

lemma sil_matches_sets: "sil_matches rx lset sil = sets_match rx lset (sil_matcherSets sil)"
  by (simp add: sil_matches_def sets_match_def)

definition compiles :: "regexp_engine \<Rightarrow> pb_matcher_set list \<Rightarrow> bool" where
  "compiles rx sets \<longleftrightarrow> (\<exists>mss. compile_sets rx sets = Inr mss)"

definition store_inv :: "regexp_engine \<Rightarrow> (string \<Rightarrow> pb_matcher_set list) \<Rightarrow> silences \<Rightarrow> bool" where
  "store_inv rx reg s \<longleftrightarrow> vi_inv s \<and> vi_complete s \<and> mi_inv rx s
     \<and> (\<forall>i msil. s_st s i = Some msil \<longrightarrow> sil_matcherSets (ms_silence msil) = reg i)"

definition entry_inv ::
  "regexp_engine \<Rightarrow> (string \<Rightarrow> pb_matcher_set list) \<Rightarrow> silences \<Rightarrow> time \<Rightarrow> labelset \<Rightarrow> cache_entry \<Rightarrow> bool" where
  "entry_inv rx reg s now lset e \<longleftrightarrow> cache_ok rx s now lset e \<and> (\<forall>i \<in> set (ce_ids e). sets_match rx lset (reg i))"

text \<open>A write is safe at a time if it keeps the identifier's matchers, which compile, and does not
  bring an expired silence back.\<close>

definition put_safe ::
  "regexp_engine \<Rightarrow> (string \<Rightarrow> pb_matcher_set list) \<Rightarrow> time \<Rightarrow> mesh_silence \<Rightarrow> silences \<Rightarrow> bool" where
  "put_safe rx reg t e s \<longleftrightarrow>
     sil_matcherSets (ms_silence e) = reg (sil_key e) \<and> compiles rx (reg (sil_key e))
     \<and> (\<forall>prev. s_st s (sil_key e) = Some prev \<longrightarrow> getState (ms_silence prev) t = SilenceStateExpired \<longrightarrow>
          getState (ms_silence e) t = SilenceStateExpired)"

lemma mi_add_compiled:
  "compile_sets rx (sil_matcherSets sil) = Inr mss \<Longrightarrow> mi_add rx c sil = Inr (c(sil_id sil \<mapsto> mss))"
  by (simp add: mi_add_def)

lemma mi_inv_put_entry:
  assumes "store_inv (e_rx E) reg s" "put_safe (e_rx E) reg t e s"
  shows "mi_inv (e_rx E) (put_entry E now e s)"
proof -
  have mi: "mi_inv (e_rx E) s" and vi: "vi_inv s" and r: "\<And>i msil. s_st s i = Some msil \<Longrightarrow> sil_matcherSets (ms_silence msil) = reg i"
    using assms(1) by (auto simp: store_inv_def)
  obtain mss where mss: "compile_sets (e_rx E) (sil_matcherSets (ms_silence e)) = Inr mss"
    using assms(2) by (auto simp: put_safe_def compiles_def)
  show ?thesis
  proof (cases rule: put_entry_cases [of E now e s])
    case unchanged
    then show ?thesis using mi by simp
  next
    case added
    have "sil_key e \<notin> vi_ids s" using added(2) vi_invD(7) [OF vi] by auto
    then show ?thesis unfolding added(1) mi_inv_def
      using mi mss mi_add_compiled [OF mss] by (auto simp: indexSilence_simps mi_inv_def)
  next
    case (updated prev)
    have same: "sil_matcherSets (ms_silence prev) = sil_matcherSets (ms_silence e)"
      using r [OF updated(2)] assms(2) by (simp add: put_safe_def)
    show ?thesis unfolding updated(1) mi_inv_def
      using mi updated(2) same by (fastforce simp: mi_inv_def)
  qed
qed

lemma store_inv_put_entry:
  assumes "store_inv (e_rx E) reg s" "put_safe (e_rx E) reg t e s"
  shows "store_inv (e_rx E) reg (put_entry E now e s)"
proof -
  have "sil_matcherSets (ms_silence msil) = reg i" if "s_st (put_entry E now e s) i = Some msil" for i msil
    using that assms
    by (cases rule: put_entry_cases [of E now e s]) (auto simp: store_inv_def put_safe_def indexSilence_simps split: if_splits)
  then show ?thesis using assms(1) mi_inv_put_entry [OF assms]
    by (auto simp: store_inv_def intro: inv_intros)
qed

lemma entry_invI:
  assumes "store_inv rx reg s" "\<And>i. i \<in> set (ce_ids e) \<Longrightarrow> sets_match rx lset (reg i)" "ce_version e \<le> s_version s"
    and "\<And>sv msil. sv \<in> set (s_vi s) \<Longrightarrow> sv_version sv \<le> ce_version e \<Longrightarrow> s_st s (sv_id sv) = Some msil \<Longrightarrow>
      sil_matches rx lset (ms_silence msil) \<Longrightarrow> getState (ms_silence msil) now \<noteq> SilenceStateExpired \<Longrightarrow>
      sv_id sv \<in> set (ce_ids e)"
  shows "entry_inv rx reg s now lset e"
  unfolding entry_inv_def
proof
  show "\<forall>i \<in> set (ce_ids e). sets_match rx lset (reg i)" using assms(2) by blast
  show "cache_ok rx s now lset e" using assms(1,2)
    by (intro cache_okI assms(3,4)) (auto simp: store_inv_def sil_matches_sets)
qed

lemma entry_invD:
  assumes "entry_inv rx reg s now lset e"
  shows "cache_ok rx s now lset e" "\<And>i. i \<in> set (ce_ids e) \<Longrightarrow> sets_match rx lset (reg i)" "ce_version e \<le> s_version s"
    and "\<And>sv msil. sv \<in> set (s_vi s) \<Longrightarrow> sv_version sv \<le> ce_version e \<Longrightarrow> s_st s (sv_id sv) = Some msil \<Longrightarrow>
      sil_matches rx lset (ms_silence msil) \<Longrightarrow> getState (ms_silence msil) now \<noteq> SilenceStateExpired \<Longrightarrow>
      sv_id sv \<in> set (ce_ids e)"
  using assms by (auto simp: entry_inv_def dest: cache_okD)

lemma entry_inv_put_entry:
  assumes "store_inv (e_rx E) reg s" "put_safe (e_rx E) reg t e s" "entry_inv (e_rx E) reg s t lset ce"
  shows "entry_inv (e_rx E) reg (put_entry E now e s) t lset ce"
proof (cases rule: put_entry_cases [of E now e s])
  case unchanged
  then show ?thesis using assms(3) by simp
next
  note st' = store_inv_put_entry [OF assms(1,2), of now] and ok = entry_invD [OF assms(3)]
  case added
  have k: "sil_key e \<notin> vi_ids s" using added(2) assms(1) vi_invD(7) [of s] by (auto simp: store_inv_def)
  show ?thesis
  proof (rule entry_invI [OF st' ok(2)])
    show "ce_version ce \<le> s_version (put_entry E now e s)" unfolding added(1)
      using ok(3) by (simp add: indexSilence_simps)
    fix sv msil
    assume a: "sv \<in> set (s_vi (put_entry E now e s))" "sv_version sv \<le> ce_version ce"
      "s_st (put_entry E now e s) (sv_id sv) = Some msil" "sil_matches (e_rx E) lset (ms_silence msil)"
      "getState (ms_silence msil) t \<noteq> SilenceStateExpired"
    have sv: "sv \<in> set (s_vi s)" using a(1,2) ok(3) unfolding added(1) by (auto simp: indexSilence_simps)
    then have "sv_id sv \<noteq> sil_key e" using k unfolding vi_ids_def by (metis imageI)
    then show "sv_id sv \<in> set (ce_ids ce)"
      using a(3) ok(4) [OF sv a(2) _ a(4,5)] unfolding added(1) by (simp add: indexSilence_simps)
  qed
next
  note st' = store_inv_put_entry [OF assms(1,2), of now] and ok = entry_invD [OF assms(3)]
  case (updated prev)
  have p: "sil_matcherSets (ms_silence prev) = sil_matcherSets (ms_silence e)"
    "getState (ms_silence e) t \<noteq> SilenceStateExpired \<Longrightarrow> getState (ms_silence prev) t \<noteq> SilenceStateExpired"
    using assms(1,2) updated(2) by (auto simp: store_inv_def put_safe_def)
  show ?thesis
  proof (rule entry_invI [OF st' ok(2)])
    show "ce_version ce \<le> s_version (put_entry E now e s)" unfolding updated(1) using ok(3) by simp
    fix sv msil
    assume a: "sv \<in> set (s_vi (put_entry E now e s))" "sv_version sv \<le> ce_version ce"
      "s_st (put_entry E now e s) (sv_id sv) = Some msil" "sil_matches (e_rx E) lset (ms_silence msil)"
      "getState (ms_silence msil) t \<noteq> SilenceStateExpired"
    show "sv_id sv \<in> set (ce_ids ce)"
    proof (cases "sv_id sv = sil_key e")
      case True
      then have "msil = upgrade_comments e" using a(3) unfolding updated(1) by simp
      then show ?thesis using True a ok(4) [of sv prev] updated(2) p
        unfolding updated(1) by (simp add: sil_matches_sets)
    next
      case False
      then show ?thesis using a ok(4) [of sv msil] unfolding updated(1) by simp
    qed
  qed
qed

text \<open>Both invariants together, for all label sets the silencer is asked about.\<close>

definition sys_inv ::
  "regexp_engine \<Rightarrow> (string \<Rightarrow> pb_matcher_set list) \<Rightarrow> (labelset \<Rightarrow> 'fp) \<Rightarrow> labelset set \<Rightarrow> silences \<Rightarrow> 'fp sil_cache \<Rightarrow> time \<Rightarrow> bool" where
  "sys_inv rx reg fp L s c t \<longleftrightarrow> store_inv rx reg s \<and> (\<forall>lset \<in> L. entry_inv rx reg s t lset (cache_get c (fp lset)))"

lemma sys_invD:
  assumes "sys_inv rx reg fp L s c t"
  shows "store_inv rx reg s" "\<And>lset. lset \<in> L \<Longrightarrow> entry_inv rx reg s t lset (cache_get c (fp lset))"
    and "vi_inv s" "vi_complete s" "mi_inv rx s"
    and "\<And>i msil. s_st s i = Some msil \<Longrightarrow> sil_matcherSets (ms_silence msil) = reg i"
  using assms by (auto simp: sys_inv_def store_inv_def)

lemma sys_inv_put_entry:
  assumes "sys_inv (e_rx E) reg fp L s c t" "put_safe (e_rx E) reg t e s"
  shows "sys_inv (e_rx E) reg fp L (put_entry E now e s) c t"
  using assms store_inv_put_entry entry_inv_put_entry unfolding sys_inv_def by blast

lemma sys_inv_sent [simp]: "sys_inv rx reg fp L (s\<lparr>s_sent := x\<rparr>) c t = sys_inv rx reg fp L s c t"
  by (simp add: sys_inv_def store_inv_def entry_inv_def cache_ok_def mi_inv_def)

lemma sys_inv_setSilence:
  assumes "sys_inv (e_rx E) reg fp L s c t" "put_safe (e_rx E) reg t e s"
  shows "sys_inv (e_rx E) reg fp L (fst (setSilence E e now s)) c t"
  using assms sys_inv_put_entry [OF assms] by (auto simp: setSilence_put split: option.splits prod.splits)

lemma sys_inv_merge_entry:
  assumes "sys_inv (e_rx E) reg fp L s c t" "put_safe (e_rx E) reg t e s"
  shows "sys_inv (e_rx E) reg fp L (merge_entry E b now e s) c t"
  using assms sys_inv_put_entry [OF assms] by (auto simp: merge_entry_put split: prod.splits)


lemma sys_inv_later:
  assumes "sys_inv rx reg fp L s c t" "t \<le> t'" shows "sys_inv rx reg fp L s c t'"
  using assms cache_ok_later by (fastforce simp: sys_inv_def entry_inv_def)

lemma compiles_stored:
  assumes "sys_inv rx reg fp L s c t" "s_st s i = Some msil"
  shows "compiles rx (reg i)"
proof -
  have "i \<in> vi_ids s" using assms(2) sys_invD(4) [OF assms(1)] by (auto simp: vi_complete_def)
  then show ?thesis using sys_invD(5) [OF assms(1)] sys_invD(6) [OF assms(1,2)] assms(2)
    by (force simp: mi_inv_def compiles_def)
qed

text \<open>What \<^verbatim>\<open>expire\<close> stores in place of a silence that has not ended.\<close>

definition expired_now :: "time \<Rightarrow> silence \<Rightarrow> silence" where
  "expired_now now sil = sil\<lparr>
     sil_startsAt := (if getState sil now = SilenceStateActive then sil_startsAt sil else Some now),
     sil_endsAt := Some now, sil_updatedAt := Some now\<rparr>"

lemma expired_now_simps [simp]:
  "sil_id (expired_now now sil) = sil_id sil" "sil_matcherSets (expired_now now sil) = sil_matcherSets sil"
  "sil_endsAt (expired_now now sil) = Some now" "sil_updatedAt (expired_now now sil) = Some now"
  by (simp_all add: expired_now_def)

lemma expire_eq:
  assumes "s_st s i = Some msil"
  shows "fst (expire E i now s) = (if getState (ms_silence msil) now = SilenceStateExpired then s
    else fst (setSilence E (toMeshSilence s (expired_now now (ms_silence msil))) now s))"
proof -
  have "sil\<lparr>sil_endsAt := b, sil_updatedAt := u\<rparr> = sil\<lparr>sil_startsAt := sil_startsAt sil, sil_endsAt := b, sil_updatedAt := u\<rparr>"
    for sil :: silence and b u by simp
  then show ?thesis using assms
    by (simp add: expire_def getSilence_def Let_def fst_setSilence expired_now_def split: silence_state.splits)
qed

lemma sys_inv_expire:
  assumes "sys_inv (e_rx E) reg fp L s c t"
  shows "sys_inv (e_rx E) reg fp L (fst (expire E i t s)) c t"
proof (cases "s_st s i")
  case None
  then show ?thesis using assms by (simp add: expire_def getSilence_def)
next
  case (Some msil)
  have k: "sil_key msil = i" using vi_invD(2) [OF sys_invD(3) [OF assms] Some] .
  have "put_safe (e_rx E) reg t (toMeshSilence s (expired_now t (ms_silence msil))) s"
    if "getState (ms_silence msil) t \<noteq> SilenceStateExpired"
    using that Some k sys_invD(6) [OF assms Some] compiles_stored [OF assms Some]
    by (simp add: put_safe_def toMeshSilence_def)
  then show ?thesis using assms by (simp add: expire_eq [OF Some] sys_inv_setSilence)
qed

lemma sys_inv_set_update:
  assumes "sys_inv (e_rx E) reg fp L s c t" "getSilence s (sil_id sil) = Some p" "canUpdate p sil t"
  shows "sys_inv (e_rx E) reg fp L (fst (set_update E t sil s)) c t"
proof -
  obtain msil where m: "s_st s (sil_id sil) = Some msil" "p = ms_silence msil"
    using assms(2) by (auto simp: getSilence_def split: option.splits)
  have "put_safe (e_rx E) reg t (toMeshSilence s (sil\<lparr>sil_updatedAt := Some t\<rparr>)) s"
    using m assms(3) sys_invD(6) [OF assms(1) m(1)] compiles_stored [OF assms(1) m(1)]
    by (auto simp: put_safe_def toMeshSilence_def canUpdate_def split: if_splits)
  then show ?thesis using assms(1)
    by (auto simp: set_update_def Let_def fst_setSilence intro!: sys_inv_setSilence split: option.splits)
qed

text \<open>What \<^verbatim>\<open>uuid.NewRandom\<close> is relied on: the new identifier is not in use, and stands for the new
  silence's matchers from now on.\<close>

definition fresh_uid :: "(string \<Rightarrow> pb_matcher_set list) \<Rightarrow> silences \<Rightarrow> silence \<Rightarrow> string option \<Rightarrow> bool" where
  "fresh_uid reg s sil uid \<longleftrightarrow> (\<forall>u. uid = Some u \<longrightarrow> s_st s u = None \<and>
     reg u = sil_matcherSets (postprocessUnmarshalledSilence sil))"

lemma stamp_new_simps [simp]:
  "sil_id (stamp_new now u sil) = u" "sil_matcherSets (stamp_new now u sil) = sil_matcherSets sil"
  by (simp_all add: stamp_new_def Let_def)

lemma put_entry_dom: "dom (s_st (put_entry E now e s)) \<subseteq> insert (sil_key e) (dom (s_st s))"
  by (cases rule: put_entry_cases [of E now e s]) (auto simp: indexSilence_simps)

lemma expire_dom:
  assumes "vi_inv s"
  shows "dom (s_st (fst (expire E i now s))) \<subseteq> dom (s_st s)"
proof (cases "s_st s i")
  case None
  then show ?thesis by (simp add: expire_def getSilence_def)
next
  case (Some msil)
  have k: "sil_key msil = i" using vi_invD(2) [OF assms Some] .
  show ?thesis
    using put_entry_dom [of E now "toMeshSilence s (expired_now now (ms_silence msil))" s] k Some
    by (auto simp: expire_eq [OF Some] setSilence_put toMeshSilence_def split: option.splits prod.splits)
qed

lemma toMeshSilence_cong: "s_retention s = s_retention s' \<Longrightarrow> toMeshSilence s sil = toMeshSilence s' sil"
  by (simp add: toMeshSilence_def)

lemma sys_inv_set_create:
  assumes inv: "sys_inv (e_rx E) reg fp L s c now2"
    and u: "\<And>u. uid = Some u \<Longrightarrow> s_st s u = None \<and> reg u = sil_matcherSets sil"
    and comp: "compiles (e_rx E) (sil_matcherSets sil)"
  shows "sys_inv (e_rx E) reg fp L (fst (set_create E now now1 now2 uid prev sil s)) c now2"
proof (cases uid)
  case None
  then show ?thesis using inv by (simp add: set_create_def)
next
  case (Some u0)
  obtain s1 err where r: "expire_previous E now1 now2 prev s = (s1, err)"
    by (cases "expire_previous E now1 now2 prev s")
  have "sys_inv (e_rx E) reg fp L (fst (expire_previous E now1 now2 prev s)) c now2"
    "dom (s_st (fst (expire_previous E now1 now2 prev s))) \<subseteq> dom (s_st s)"
    using inv sys_inv_expire [OF inv] expire_dom [OF sys_invD(3) [OF inv]]
    by (simp_all add: expire_previous_def split: option.splits)
  then have s1: "sys_inv (e_rx E) reg fp L s1 c now2" "dom (s_st s1) \<subseteq> dom (s_st s)" by (simp_all add: r)
  have "s_st s1 u0 = None" using u [OF Some] s1(2) by auto
  then have "put_safe (e_rx E) reg now2 (toMeshSilence s (stamp_new now u0 sil)) s1"
    using u [OF Some] comp by (simp add: put_safe_def toMeshSilence_def)
  then show ?thesis using inv s1(1) Some
    by (simp add: set_create_def Let_def r fst_setSilence sys_inv_setSilence split: option.splits)
qed

text \<open>
  What the expression engine is relied on: an expression that compiles also compiles once
  anchored. Then validated matchers compile.
\<close>

definition anchor_safe :: "regexp_engine \<Rightarrow> bool" where
  "anchor_safe rx \<longleftrightarrow> (\<forall>p. rx p \<noteq> None \<longrightarrow> rx (anchored p) \<noteq> None)"

lemma validateMatcher_compiles:
  assumes "anchor_safe (e_rx E)" "validateMatcher E m = None"
  shows "\<exists>x. compile_matcher (e_rx E) m = Inr x"
  using assms by (cases "pm_type m")
    (auto simp: validateMatcher_def compile_matcher_def NewMatcher_def anchor_safe_def split: if_splits option.splits)

lemma validate_matchers_compiles:
  assumes "anchor_safe (e_rx E)" "validate_matchers E si i a ms = Inr b"
  shows "\<exists>xs. compile_matchers (e_rx E) ms = Inr xs"
  using assms(2)
proof (induction ms arbitrary: i a)
  case (Cons m ms)
  then show ?case using validateMatcher_compiles [OF assms(1), of m]
    by (fastforce split: option.splits)
qed simp

lemma validate_sets_compiles:
  assumes "anchor_safe (e_rx E)" "validate_sets E si mss = None"
  shows "compiles (e_rx E) mss"
  unfolding compiles_def using assms(2)
proof (induction mss arbitrary: si)
  case (Cons ms mss)
  then obtain b where b: "validate_matchers E si 0 True ms = Inr b" "validate_sets E (Suc si) mss = None"
    by (auto split: if_splits sum.splits)
  then show ?case using validate_matchers_compiles [OF assms(1) b(1)] Cons.IH [OF b(2)] by auto
qed simp

lemma validateSilence_compiles:
  assumes "anchor_safe (e_rx E)" "validateSilence E sil = Inr sil'"
  shows "compiles (e_rx E) (sil_matcherSets sil')" "sil' = postprocessUnmarshalledSilence sil"
  using assms validate_sets_compiles [OF assms(1)]
  by (auto simp: validateSilence_def Let_def split: if_splits option.splits)

lemma sys_inv_SetSilence:
  assumes inv: "sys_inv (e_rx E) reg fp L s c t" and as: "anchor_safe (e_rx E)" and uid: "fresh_uid reg s sil uid"
    and tm: "t \<le> now" "now \<le> now2"
  shows "sys_inv (e_rx E) reg fp L (fst (SetSilence E now now1 now2 uid sil s)) c now2"
proof -
  let ?sil1 = "if is_nil_or_zero (sil_startsAt sil) then sil\<lparr>sil_startsAt := Some now\<rparr> else sil"
  have inv2: "sys_inv (e_rx E) reg fp L s c now2" and inv1: "sys_inv (e_rx E) reg fp L s c now"
    using sys_inv_later [OF inv] tm by auto
  show ?thesis
  proof (cases "validateSilence E ?sil1")
    case (Inl e)
    then show ?thesis using inv2 by (simp add: SetSilence_def)
  next
    case (Inr sil')
    note v = validateSilence_compiles [OF as Inr]
    have "sil_matcherSets sil' = sil_matcherSets (postprocessUnmarshalledSilence sil)"
      unfolding v(2) by (simp add: postprocessUnmarshalledSilence_def Let_def)
    then have C: "sys_inv (e_rx E) reg fp L (fst (set_create E now now1 now2 uid prev sil' s)) c now2" for prev
      using uid by (intro sys_inv_set_create [OF inv2 _ v(1)]) (simp add: fresh_uid_def)
    have U: "sys_inv (e_rx E) reg fp L (fst (set_update E now sil' s)) c now2"
      if "getSilence s (sil_id sil') = Some p" "canUpdate p sil' now" for p
      by (rule sys_inv_later [OF sys_inv_set_update [OF inv1 that] tm(2)])
    show ?thesis using C U inv2 Inr
      by (simp add: SetSilence_def Let_def split: option.splits)
  qed
qed

lemma put_entry_other: "i \<noteq> sil_key e \<Longrightarrow> s_st (put_entry E now e s) i = s_st s i"
  by (cases rule: put_entry_cases [of E now e s]) (auto simp: indexSilence_simps)

lemma merge_entry_other: "i \<noteq> sil_key e \<Longrightarrow> s_st (merge_entry E b now e s) i = s_st s i"
  using put_entry_other [of i e E now s] by (simp add: merge_entry_put split: prod.splits)

text \<open>A message whose entries, one for each identifier, are all safe.\<close>

lemma sys_inv_merge_entries:
  assumes "sys_inv (e_rx E) reg fp L s c t" "distinct (map sil_key es)"
    and "\<And>e. e \<in> set es \<Longrightarrow> put_safe (e_rx E) reg t e s"
  shows "sys_inv (e_rx E) reg fp L (merge_entries E b now es s) c t"
  using assms unfolding merge_entries_def
proof (induction es arbitrary: s)
  case (Cons e es)
  let ?s' = "merge_entry E b now e s"
  have "put_safe (e_rx E) reg t x ?s'" if "x \<in> set es" for x
  proof -
    have "sil_key x \<noteq> sil_key e" using Cons.prems(2) that by (auto simp: image_iff)
    then have "s_st ?s' (sil_key x) = s_st s (sil_key x)" by (rule merge_entry_other)
    then show ?thesis using Cons.prems(3) [of x] that by (simp add: put_safe_def)
  qed
  moreover have "sys_inv (e_rx E) reg fp L ?s' c t"
    using Cons.prems by (intro sys_inv_merge_entry) auto
  ultimately show ?case using Cons.IH [of ?s'] Cons.prems(2) by simp
qed simp

lemma sys_inv_GC:
  assumes "sys_inv rx reg fp L s c t" "GC now s = (s', n, errs)"
  shows "sys_inv rx reg fp L s' c t"
proof -
  note D = sys_invD [OF assms(1)] and G = GC_state [OF D(3) assms(2)]
  have sub: "s_st s' i = Some msil \<Longrightarrow> s_st s i = Some msil" for i msil by (simp add: G(1) split: if_splits)
  have "mi_inv rx s'" unfolding mi_inv_def
  proof
    fix i assume "i \<in> vi_ids s'"
    then have i: "i \<in> vi_ids s" "gc_live now (s_st s) i" by (simp_all add: GC_vi_ids [OF D(3) assms(2)])
    then show "\<exists>msil mss. s_st s' i = Some msil \<and> s_mi s' i = Some mss \<and>
        compile_sets rx (sil_matcherSets (ms_silence msil)) = Inr mss"
      using D(5) by (simp add: mi_inv_def G(1,2))
  qed
  then have st': "store_inv rx reg s'"
    using vi_inv_GC [OF D(3) assms(2)] vi_complete_GC [OF D(3) assms(2) D(4)] D(6) sub
    by (auto simp: store_inv_def)
  moreover have "entry_inv rx reg s' t lset (cache_get c (fp lset))" if "lset \<in> L" for lset
  proof -
    note e = entry_invD [OF D(2) [OF that]]
    show ?thesis by (rule entry_invI [OF st' e(2)]) (use e(3,4) sub G(3,4) in auto)
  qed
  ultimately show ?thesis by (simp add: sys_inv_def)
qed

text \<open>A label set without an entry is looked at afresh.\<close>

lemma entry_inv_empty:
  assumes "store_inv rx reg s"
  shows "entry_inv rx reg s t lset \<lparr>ce_ids = [], ce_version = 0\<rparr>"
proof (rule entry_invI [OF assms])
  have vi: "vi_inv s" using assms by (simp add: store_inv_def)
  show "ce_version \<lparr>ce_ids = [], ce_version = 0\<rparr> \<le> s_version s" using vi_invD(6) [OF vi] by simp
  show "sv_id sv \<in> set (ce_ids \<lparr>ce_ids = [], ce_version = 0\<rparr>)"
    if "sv \<in> set (s_vi s)" "sv_version sv \<le> ce_version \<lparr>ce_ids = [], ce_version = 0\<rparr>" for sv
    using vi_invD(5) [OF vi that(1)] that(2) by simp
qed simp

lemma PostGC_apply: "PostGC c ff f = (if f \<in> set ff then None else c f)"
  unfolding PostGC_def by (induction ff arbitrary: c) (auto simp: cache_delete_def)

lemma sys_inv_PostGC:
  assumes "sys_inv rx reg fp L s c t" shows "sys_inv rx reg fp L s (PostGC c ff) t"
  using assms entry_inv_empty [OF sys_invD(1) [OF assms]]
  by (auto simp: sys_inv_def cache_get_def PostGC_apply)

lemma sys_inv_Mutes:
  assumes inv: "sys_inv rx reg fp L s c t0" and tm: "t0 \<le> t1" "t1 \<le> t2" "t2 \<le> t3"
    and L: "inj_on fp L" "lset \<in> L"
  obtains c' ids where "Mutes fp s s s t1 t2 t3 c lset = Some (c', ids \<noteq> [], ids)"
    "set ids = muted_by rx s t3 lset" "sys_inv rx reg fp L s c' t3"
proof -
  note D = sys_invD [OF inv]
  obtain c' ids where m: "Mutes fp s s s t1 t2 t3 c lset = Some (c', ids \<noteq> [], ids)"
    "set ids = muted_by rx s t3 lset"
    and c': "set (ce_ids (cache_get c' (fp lset))) = found_ids rx s t3 lset"
      "ce_version (cache_get c' (fp lset)) = s_version s"
    and other: "\<And>f. f \<noteq> fp lset \<Longrightarrow> c' f = c f"
    using Mutes_step [where fp = fp and lset = lset and c = c, OF D(3-5) entry_invD(1) [OF D(2) [OF L(2)]] tm] by blast
  have "entry_inv rx reg s t3 l (cache_get c' (fp l))" if "l \<in> L" for l
  proof (cases "l = lset")
    case True
    have "sets_match rx lset (reg i)" if "i \<in> found_ids rx s t3 lset" for i
      using that D(6) by (auto simp: found_ids_def stored_def sil_matches_sets)
    then show ?thesis using True c' cache_ok_found [OF c'] by (auto simp: entry_inv_def)
  next
    case False
    then have "fp l \<noteq> fp lset" using L that by (auto dest: inj_onD)
    then have "cache_get c' (fp l) = cache_get c (fp l)" using other by (simp add: cache_get_def)
    then show ?thesis using sys_invD(2) [OF sys_inv_later [OF inv], of t3 l] that tm by simp
  qed
  then have "sys_inv rx reg fp L s c' t3" using D(1) by (simp add: sys_inv_def)
  then show ?thesis using that m by blast
qed

section \<open>The running system\<close>

text \<open>
  One silencer over one store, as a transition system: the calls of the API, of the maintenance
  loop, of the gossip layer and of the notification pipeline, in any order, and the passing of
  time. A message from a peer is as the peer sent it: its entries have the matchers of their
  identifier, which compile there too, and it does not arrive so late that it would bring back a
  silence that has expired here.
\<close>

record 'fp silencer_sys =
  y_sil :: silences
  y_cache :: "'fp sil_cache"
  y_now :: time

inductive sys_step ::
  "sil_env \<Rightarrow> (string \<Rightarrow> pb_matcher_set list) \<Rightarrow> (labelset \<Rightarrow> 'fp) \<Rightarrow> labelset set \<Rightarrow>
     'fp silencer_sys \<Rightarrow> 'fp silencer_sys \<Rightarrow> bool"
  for E reg fp L where
  tick: "y_now y \<le> t \<Longrightarrow> sys_step E reg fp L y (y\<lparr>y_now := t\<rparr>)"
| set_sil: "y_now y \<le> t \<Longrightarrow> t \<le> t1 \<Longrightarrow> t1 \<le> t2 \<Longrightarrow> fresh_uid reg (y_sil y) sil uid \<Longrightarrow>
    SetSilence E t t1 t2 uid sil (y_sil y) = (s', res) \<Longrightarrow>
    sys_step E reg fp L y (y\<lparr>y_sil := s', y_now := t2\<rparr>)"
| expire_sil: "y_now y \<le> t \<Longrightarrow> Expire E i t (y_sil y) = (s', err) \<Longrightarrow>
    sys_step E reg fp L y (y\<lparr>y_sil := s', y_now := t\<rparr>)"
| gossip: "y_now y \<le> t \<Longrightarrow> distinct (map sil_key es) \<Longrightarrow>
    (\<And>e. e \<in> set es \<Longrightarrow> put_safe (e_rx E) reg t e (y_sil y)) \<Longrightarrow>
    sys_step E reg fp L y (y\<lparr>y_sil := merge_entries E b t es (y_sil y), y_now := t\<rparr>)"
| gc: "y_now y \<le> t \<Longrightarrow> GC t (y_sil y) = (s', n, errs) \<Longrightarrow>
    sys_step E reg fp L y (y\<lparr>y_sil := s', y_now := t\<rparr>)"
| post_gc: "sys_step E reg fp L y (y\<lparr>y_cache := PostGC (y_cache y) ff\<rparr>)"
| mutes: "y_now y \<le> t1 \<Longrightarrow> t1 \<le> t2 \<Longrightarrow> t2 \<le> t3 \<Longrightarrow> lset \<in> L \<Longrightarrow>
    Mutes fp (y_sil y) (y_sil y) (y_sil y) t1 t2 t3 (y_cache y) lset = Some (c', m, ids) \<Longrightarrow>
    sys_step E reg fp L y (y\<lparr>y_cache := c', y_now := t3\<rparr>)"

inductive_cases sys_stepE: "sys_step E reg fp L y y'"

definition sys_start :: "duration \<Rightarrow> int option \<Rightarrow> int option \<Rightarrow> time \<Rightarrow> 'fp silencer_sys" where
  "sys_start r m z t = \<lparr>y_sil = new_silences r m z, y_cache = Map.empty, y_now = t\<rparr>"

definition sys_ok :: "sil_env \<Rightarrow> (string \<Rightarrow> pb_matcher_set list) \<Rightarrow> (labelset \<Rightarrow> 'fp) \<Rightarrow> labelset set \<Rightarrow> 'fp silencer_sys \<Rightarrow> bool" where
  "sys_ok E reg fp L y \<longleftrightarrow> sys_inv (e_rx E) reg fp L (y_sil y) (y_cache y) (y_now y)"

lemma sys_ok_start: "sys_ok E reg fp L (sys_start r m z t)"
proof -
  have "store_inv (e_rx E) reg (new_silences r m z)"
    using vi_inv_new by (simp add: store_inv_def) (simp add: mi_inv_def vi_ids_def new_silences_def)
  then show ?thesis using entry_inv_empty by (simp add: sys_ok_def sys_inv_def sys_start_def cache_get_def)
qed

lemma sys_ok_step:
  assumes "sys_step E reg fp L y y'" "sys_ok E reg fp L y" "anchor_safe (e_rx E)" "inj_on fp L"
  shows "sys_ok E reg fp L y'"
  using assms(1)
proof cases
  case (tick t)
  then show ?thesis using assms(2) sys_inv_later by (auto simp: sys_ok_def)
next
  case (set_sil t t1 t2 sil uid s' res)
  have "t \<le> t2" using set_sil by linarith
  then show ?thesis using set_sil assms(2)
      sys_inv_SetSilence [OF assms(2) [unfolded sys_ok_def] assms(3) set_sil(5) set_sil(2), of t2 t1] by (simp add: sys_ok_def)
next
  case (expire_sil t i s' err)
  then show ?thesis using sys_inv_expire [OF sys_inv_later [OF assms(2) [unfolded sys_ok_def] expire_sil(2)], of i]
    by (simp add: sys_ok_def Expire_def)
next
  case (gossip t es b)
  then show ?thesis using sys_inv_merge_entries [OF sys_inv_later [OF assms(2) [unfolded sys_ok_def] gossip(2)] gossip(3,4)]
    by (simp add: sys_ok_def)
next
  case (gc t s' n errs)
  then show ?thesis using sys_inv_GC [OF sys_inv_later [OF assms(2) [unfolded sys_ok_def] gc(2)] gc(3)] by (simp add: sys_ok_def)
next
  case (post_gc ff)
  then show ?thesis using sys_inv_PostGC assms(2) by (auto simp: sys_ok_def)
next
  case (mutes t1 t2 t3 lset c' m ids)
  then show ?thesis
    using sys_inv_Mutes [where lset = lset and fp = fp, OF assms(2) [unfolded sys_ok_def] mutes(2-4) assms(4) mutes(5)] by (auto simp: sys_ok_def)
qed

definition sys_reachable ::
  "sil_env \<Rightarrow> (string \<Rightarrow> pb_matcher_set list) \<Rightarrow> (labelset \<Rightarrow> 'fp) \<Rightarrow> labelset set \<Rightarrow>
     'fp silencer_sys \<Rightarrow> 'fp silencer_sys \<Rightarrow> bool" where
  "sys_reachable E reg fp L = (sys_step E reg fp L)\<^sup>*\<^sup>*"

lemma sys_ok_reachable:
  assumes "sys_reachable E reg fp L y y'" "sys_ok E reg fp L y" "anchor_safe (e_rx E)" "inj_on fp L"
  shows "sys_ok E reg fp L y'"
  using assms(1) unfolding sys_reachable_def
  by (induction rule: rtranclp_induct) (auto intro: assms(2) sys_ok_step [OF _ _ assms(3,4)])

section \<open>The answers of a running silencer\<close>


text \<open>A small environment: expressions are literal texts, except that a quoted one cannot be
  anchored, since the quotation swallows the closing parenthesis.\<close>

definition demo_rx :: regexp_engine where
  "demo_rx p = (if p = [CHR 0x5C, CHR ''Q'', CHR ''a''] then Some (\<lambda>v. v = ''a'') else None)"

definition demo_env :: "regexp_engine \<Rightarrow> sil_env" where
  "demo_env rx = \<lparr>e_rx = rx, e_validName = (\<lambda>_. True), e_validValue = (\<lambda>_. True),
     e_size = (\<lambda>_. 0), e_marshal = (\<lambda>_. Some [])\<rparr>"

definition demo_sil :: "string \<Rightarrow> time \<Rightarrow> pb_matcher \<Rightarrow> silence" where
  "demo_sil i t m = \<lparr>sil_id = i, sil_matchers = [],
     sil_startsAt = Some 10, sil_endsAt = Some t, sil_updatedAt = None, sil_comments = [],
     sil_createdBy = [], sil_comment = [], sil_annotations = Map.empty,
     sil_matcherSets = [[m]], sil_receiverMatcherSets = []\<rparr>"

definition demo_eq :: pb_matcher where
  "demo_eq = \<lparr>pm_type = PB_EQUAL, pm_name = ''a'', pm_pattern = ''b''\<rparr>"

definition demo_set :: "regexp_engine \<Rightarrow> silences" where
  "demo_set rx = fst (SetSilence (demo_env rx) 20 20 20 (Some ''u'') (demo_sil [] 100 demo_eq) (new_silences 5 None None))"

lemmas sil_eval = SetSilence_def new_silences_def validateSilence_def
    postprocessUnmarshalledSilence_def is_nil_or_zero_def zero_time_def validateMatcher_def matchesEmpty_def
    set_create_def over_limit_def stamp_new_def checkSizeLimits_def setSilence_def marshalMeshSilence_def
    expire_previous_def getSilence_def state_merge_def toMeshSilence_def upgrade_comments_def indexSilence_def mi_add_def
    compile_matcher_def NewMatcher_def vi_add_def Let_def

lemma demo_set_eq: "demo_set rx = \<lparr>
    s_st = [''u'' \<mapsto> \<lparr>ms_silence = (demo_sil ''u'' 100 demo_eq)\<lparr>sil_startsAt := Some 20, sil_updatedAt := Some 20\<rparr>, ms_expiresAt = Some 105\<rparr>],
    s_version = 1, s_mi = [''u'' \<mapsto> [[\<lparr>m_type = MatchEqual, m_name = ''a'', m_value = ''b'', m_re = (\<lambda>_. False)\<rparr>]]],
    s_vi = [\<lparr>sv_id = ''u'', sv_version = 1\<rparr>], s_retention = 5, s_maxSilences = None,
    s_maxSilenceSizeBytes = None, s_sent = [[]]\<rparr>"
  by (simp add: demo_set_def demo_env_def demo_sil_def demo_eq_def sil_eval)

definition demo_sys :: "labelset silencer_sys" where
  "demo_sys = \<lparr>y_sil = demo_set (\<lambda>_. None), y_cache = Map.empty, y_now = 20\<rparr>"

lemma demo_sys_reachable:
  "sys_reachable (demo_env (\<lambda>_. None)) (\<lambda>_. [[demo_eq]]) (\<lambda>l. l) UNIV (sys_start 5 None None 0) demo_sys"
proof -
  let ?E = "demo_env (\<lambda>_. None)" and ?y0 = "sys_start 5 None None 0 :: labelset silencer_sys"
  obtain res where r: "SetSilence ?E 20 20 20 (Some ''u'') (demo_sil [] 100 demo_eq) (new_silences 5 None None) = (demo_set (\<lambda>_. None), res)"
    unfolding demo_set_def by (metis prod.collapse)
  have "fresh_uid (\<lambda>_. [[demo_eq]]) (new_silences 5 None None) (demo_sil [] 100 demo_eq) (Some ''u'')"
    by (simp add: fresh_uid_def new_silences_def demo_sil_def postprocessUnmarshalledSilence_def)
  then have "sys_step ?E (\<lambda>_. [[demo_eq]]) (\<lambda>l. l) UNIV ?y0 (?y0\<lparr>y_sil := demo_set (\<lambda>_. None), y_now := 20\<rparr>)"
    by (intro sys_step.set_sil [where t = 20 and ?t1.0 = 20 and uid = "Some ''u''" and sil = "demo_sil [] 100 demo_eq"])
      (simp_all add: sys_start_def r)
  then show ?thesis by (simp add: sys_reachable_def demo_sys_def sys_start_def r_into_rtranclp)
qed

lemmas match_eval = sil_matches_def compile_matcher_def NewMatcher_def getState_def matcher_matches_def label_get_def


definition demo_bad :: pb_matcher where
  "demo_bad = \<lparr>pm_type = PB_REGEXP, pm_name = ''a'', pm_pattern = [CHR 0x5C, CHR ''Q'', CHR ''a'']\<rparr>"

definition demo_set2 :: silences where
  "demo_set2 = fst (SetSilence (demo_env demo_rx) 30 30 30 (Some ''v'') (demo_sil [] 40 demo_bad) (demo_set demo_rx))"

lemma demo_set2_eq: "demo_set2 = \<lparr>
    s_st = [''u'' \<mapsto> \<lparr>ms_silence = (demo_sil ''u'' 100 demo_eq)\<lparr>sil_startsAt := Some 20, sil_updatedAt := Some 20\<rparr>, ms_expiresAt = Some 105\<rparr>,
      ''v'' \<mapsto> \<lparr>ms_silence = (demo_sil ''v'' 40 demo_bad)\<lparr>sil_startsAt := Some 30, sil_updatedAt := Some 30\<rparr>, ms_expiresAt = Some 45\<rparr>],
    s_version = 2, s_mi = [''u'' \<mapsto> [[\<lparr>m_type = MatchEqual, m_name = ''a'', m_value = ''b'', m_re = (\<lambda>_. False)\<rparr>]]],
    s_vi = [\<lparr>sv_id = ''u'', sv_version = 1\<rparr>, \<lparr>sv_id = ''v'', sv_version = 2\<rparr>], s_retention = 5, s_maxSilences = None,
    s_maxSilenceSizeBytes = None, s_sent = [[], []]\<rparr>"
  by (simp add: demo_set2_def demo_set_eq demo_env_def demo_sil_def demo_eq_def demo_bad_def demo_rx_def anchored_def sil_eval)


lemmas mutes_eval = Mutes_def Version_def query_old_def query_new_def ce_count_def cache_get_def cache_put_def newCacheEntry_def
  Query_def query_run_def findVersionGreaterThan_def go_search.simps mi_get_def Let_def


definition demo_late :: mesh_silence where
  "demo_late = \<lparr>ms_silence = (demo_sil ''u'' 200 demo_eq)\<lparr>sil_updatedAt := Some 90\<rparr>, ms_expiresAt = Some 205\<rparr>"

text \<open>
  An extension of a silence that a peer made in time, but that arrives after the silence has expired
  here, makes the silence active again without a new version: an alert looked at in between has an
  empty, up-to-date cache entry and is not muted, although the silence is active and matches it.
\<close>

theorem late_extension_missed:
  "\<exists>c. Mutes id (demo_set demo_rx) (demo_set demo_rx) (demo_set demo_rx) 101 101 101 Map.empty [''a'' \<mapsto> ''b''] = Some (c, False, [])
    \<and> (let s = merge_entry (demo_env demo_rx) [] 110 demo_late (demo_set demo_rx)
       in muted_by demo_rx s 120 [''a'' \<mapsto> ''b''] = {''u''}
          \<and> Mutes id s s s 120 120 120 c [''a'' \<mapsto> ''b''] = Some (c, False, []))"
proof (intro conjI exI)
  let ?c = "[[''a'' \<mapsto> ''b''] \<mapsto> \<lparr>ce_ids = [], ce_version = 1\<rparr>]"
  show "Mutes id (demo_set demo_rx) (demo_set demo_rx) (demo_set demo_rx) 101 101 101 Map.empty [''a'' \<mapsto> ''b''] = Some (?c, False, [])"
    by (simp add: demo_set_eq demo_sil_def demo_eq_def match_eval mutes_eval)
  have s: "merge_entry (demo_env demo_rx) [] 110 demo_late (demo_set demo_rx) =
    (demo_set demo_rx)\<lparr>s_st := [''u'' \<mapsto> demo_late], s_sent := [[], []]\<rparr>"
    by (simp add: merge_entry_def demo_set_eq demo_late_def demo_sil_def sil_eval OversizedMessage_def)
  show "let s = merge_entry (demo_env demo_rx) [] 110 demo_late (demo_set demo_rx)
       in muted_by demo_rx s 120 [''a'' \<mapsto> ''b''] = {''u''} \<and> Mutes id s s s 120 120 120 ?c [''a'' \<mapsto> ''b''] = Some (?c, False, [])"
    unfolding s by (auto simp: demo_set_eq demo_late_def demo_sil_def demo_eq_def muted_by_def match_eval mutes_eval split: if_splits)
qed

end
