(* ===== verification/Silences_Correct.thy ===== *)
theory Silences_Correct
  imports Silencer
begin

text \<open>
  What the silence store of \<^verbatim>\<open>silence/silence.go\<close> guarantees: peers converge; its indices stay
  consistent under every sequence of calls, so queries do not panic; a snapshot reads back what was
  written; \<^verbatim>\<open>Set\<close> does not rewrite history and respects the limit; \<^verbatim>\<open>Expire\<close> and \<^verbatim>\<open>GC\<close> do exactly what
  they should. Closed theorems record the cases in which the code does something else than it says.
\<close>

section \<open>Convergence of peers\<close>

lemma merge_entry_st: "s_st (merge_entry E b now e s) = fst (state_merge (s_st s) e now)"
  by (cases rule: state_merge_cases [of "s_st s" e now]) (simp_all add: merge_entry_def indexSilence_simps Let_def)

lemma merge_entries_st: "s_st (merge_entries E b now es s) = fold (\<lambda>e st. fst (state_merge st e now)) es (s_st s)"
  unfolding merge_entries_def by (induction es arbitrary: s) (simp_all add: merge_entry_st)

text \<open>
  C10: two instances that start from the same silences and receive the same entries, in whatever order,
  grouping and repetition the gossip layer delivers them, store the same silences, provided that no
  two different entries of one silence carry the same time of update.
\<close>

theorem silences_merge_convergence:
  assumes "set es = set es'" "coherent sil_key sil_stamp upgrade_comments (set es)"
  shows "s_st (merge_entries E b now es s) = s_st (merge_entries E b' now es' s)"
  unfolding merge_entries_st by (rule sil_lww.merge_convergence [OF assms])


definition demo_upd :: "string \<Rightarrow> time \<Rightarrow> time \<Rightarrow> mesh_silence" where
  "demo_upd i u t = \<lparr>ms_silence = (demo_sil i t demo_eq)\<lparr>sil_updatedAt := Some u\<rparr>, ms_expiresAt = Some (t + 5)\<rparr>"

theorem silences_merge_convergence_witness:
  "s_st (merge_entries (demo_env demo_rx) [] 50 [demo_upd ''u'' 20 100, demo_upd ''u'' 30 200] (new_silences 5 None None)) =
   s_st (merge_entries (demo_env demo_rx) [] 50 [demo_upd ''u'' 30 200, demo_upd ''u'' 20 100, demo_upd ''u'' 30 200] (new_silences 5 None None))"
  by (rule silences_merge_convergence) (auto simp: coherent_def demo_upd_def demo_sil_def)


section \<open>Loading a snapshot\<close>

definition store_upgraded :: "mesh_silence \<Rightarrow> sil_state \<Rightarrow> sil_state" where
  "store_upgraded e st = st(sil_key e \<mapsto> upgrade_comments e)"

lemma load_entries_spec:
  "load_entries E v es st mi vi = (st', mi', vi') \<Longrightarrow>
    vi' = vi @ map (\<lambda>e. \<lparr>sv_id = sil_key e, sv_version = v + 1\<rparr>)
      (filter (\<lambda>e. compiles (e_rx E) (sil_matcherSets (ms_silence e))) es)
    \<and> dom mi' = dom mi \<union> sil_key ` {e \<in> set es. compiles (e_rx E) (sil_matcherSets (ms_silence e))}
    \<and> st' = fold store_upgraded es st"
proof (induction es arbitrary: st mi vi)
  case (Cons e es)
  let ?e = "upgrade_comments e" and ?k = "sil_key e"
  show ?case
  proof (cases "mi_add (e_rx E) mi (ms_silence ?e)")
    case (Inl x)
    then have "\<not> compiles (e_rx E) (sil_matcherSets (ms_silence e))"
      by (auto simp: mi_add_def compiles_def split: sum.splits)
    moreover have "load_entries E v es (st(?k \<mapsto> ?e)) mi vi = (st', mi', vi')" using Cons.prems Inl by (simp add: Let_def)
    note Cons.IH [OF this]
    ultimately show ?thesis by (auto simp: store_upgraded_def)
  next
    case (Inr mi1)
    then have c: "compiles (e_rx E) (sil_matcherSets (ms_silence e))" and d: "dom mi1 = insert ?k (dom mi)"
      using mi_add_dom [OF Inr] by (auto simp: mi_add_def compiles_def split: sum.splits)
    have "load_entries E v es (st(?k \<mapsto> ?e)) mi1 (vi_add vi (v + 1) ?k) = (st', mi', vi')"
      using Cons.prems Inr by (simp add: Let_def)
    note Cons.IH [OF this]
    then show ?thesis using c d by (auto simp: vi_add_def store_upgraded_def)
  qed
qed simp

lemma state_put_keys: "distinct (map sil_key es) \<Longrightarrow>
  distinct (map sil_key (state_put es e)) \<and> sil_key ` set (state_put es e) = insert (sil_key e) (sil_key ` set es)"
  by (induction es) auto

lemma decode_loop_distinct:
  "decode_loop n u b st = Some (Inr es) \<Longrightarrow> distinct (map sil_key st) \<Longrightarrow> distinct (map sil_key es)"
  by (induction n u b st rule: decode_loop.induct)
    (auto simp: state_put_keys split: unmarshal_result.splits option.splits)

lemma decodeState_distinct: "decodeState u b = Some (Inr es) \<Longrightarrow> distinct (map sil_key es)"
  unfolding decodeState_def by (erule decode_loop_distinct) simp

text \<open>A message takes at least a byte of the input: then decoding comes to an end.\<close>

definition consumes :: "unmarshaler \<Rightarrow> bool" where
  "consumes u \<longleftrightarrow> (\<forall>b sil ex rest. u b = Message sil ex rest \<longrightarrow> length rest < length b)"

lemma decode_loop_returns: "consumes u \<Longrightarrow> length b < n \<Longrightarrow> decode_loop n u b st \<noteq> None"
proof (induction n u b st rule: decode_loop.induct)
  case (2 n u b st)
  show ?case
  proof (cases "u b")
    case (Message sil ex rest)
    then have "length rest < n" using "2.prems" unfolding consumes_def by force
    then show ?thesis using "2.IH" Message "2.prems"(1) by (cases sil) auto
  qed simp_all
qed simp

lemma decodeState_returns: "consumes u \<Longrightarrow> decodeState u b \<noteq> None"
  unfolding decodeState_def by (rule decode_loop_returns) simp_all

lemma state_of_simps:
  "dom (state_of es) = sil_key ` set es" "state_of es i = Some m \<Longrightarrow> sil_key m = i \<and> m \<in> set es"
  unfolding state_of_def by (force simp: dom_map_of_conv_image_fst dest: map_of_SomeD)+

lemma fold_store_upgraded: "dom (fold store_upgraded es st) = sil_key ` set es \<union> dom st"
  by (induction es arbitrary: st) (auto simp: store_upgraded_def)

lemma fold_store_upgraded_keyed:
  "\<forall>i m. st i = Some m \<longrightarrow> sil_key m = i \<Longrightarrow> \<forall>i m. fold store_upgraded es st i = Some m \<longrightarrow> sil_key m = i"
proof (induction es arbitrary: st)
  case (Cons e es)
  have "\<forall>i m. store_upgraded e st i = Some m \<longrightarrow> sil_key m = i"
    using Cons.prems by (simp add: store_upgraded_def)
  then show ?case unfolding fold_simps by (rule Cons.IH)
qed (simp only: fold_simps)

text \<open>The indices of a loaded snapshot are in order, whatever it holds.\<close>

lemma vi_inv_loadSnapshot:
  assumes "loadSnapshot E u visit b s = Some (s', None)" "\<And>es. mset (visit es) = mset es" "0 \<le> s_version s"
  shows "vi_inv s'"
proof -
  obtain es where d: "decodeState u b = Some (Inr es)"
    using assms(1) by (auto simp: loadSnapshot_def split: option.splits sum.splits)
  obtain st mi vi where l: "load_entries E (s_version s) (visit es) (state_of es) Map.empty [] = (st, mi, vi)"
    by (metis surj_pair)
  have s': "s' = s\<lparr>s_st := st, s_mi := mi, s_vi := vi, s_version := s_version s + 1\<rparr>"
    using assms(1) d l by (simp add: loadSnapshot_def)
  note L = load_entries_spec [OF l]
  let ?ok = "\<lambda>e. compiles (e_rx E) (sil_matcherSets (ms_silence e))"
  have vs: "set (visit es) = set es" using assms(2) [of es] by (rule mset_eq_setD)
  have dist: "distinct (map sil_key (visit es))"
  proof -
    have "mset (map sil_key (visit es)) = mset (map sil_key es)" using assms(2) [of es] by simp
    then show ?thesis using decodeState_distinct [OF d] mset_eq_imp_distinct_iff by blast
  qed
  have ids: "vi_ids s' = sil_key ` {e \<in> set es. ?ok e}" using L vs by (auto simp: vi_ids_def s' image_image)
  show ?thesis
  proof (rule vi_invI)
    show "finite (dom (s_st s'))" using L by (simp add: s' state_of_simps(1) fold_store_upgraded)
    show "sil_key msil = i" if "s_st s' i = Some msil" for i msil
    proof -
      have "\<forall>i m. state_of es i = Some m \<longrightarrow> sil_key m = i" using state_of_simps(2) by blast
      from fold_store_upgraded_keyed [OF this, of "visit es"] that L show ?thesis unfolding s' by simp
    qed
    show "distinct (map sv_id (s_vi s'))"
      using L distinct_map_filter [OF dist, of ?ok] by (simp add: s' comp_def)
    show "sorted (map sv_version (s_vi s'))" using L by (auto simp: s' comp_def sorted_wrt_iff_nth_less)
    show "0 < sv_version sv \<and> sv_version sv \<le> s_version s'" if "sv \<in> set (s_vi s')" for sv
      using that L assms(3) by (auto simp: s')
    show "0 \<le> s_version s'" using assms(3) by (simp add: s')
    show "vi_ids s' \<subseteq> dom (s_st s')" unfolding ids using L by (auto simp: s' state_of_simps(1) fold_store_upgraded)
    show "dom (s_mi s') \<subseteq> vi_ids s'" unfolding ids using L vs by (auto simp: s')
  qed
qed

section \<open>Every history of calls\<close>

text \<open>
  The store under the calls that change it, with any data from peers and from disk. A range over a
  map visits its entries in some order, so \<^verbatim>\<open>visit\<close> permutes them.
\<close>

inductive store_step :: "sil_env \<Rightarrow> unmarshaler \<Rightarrow> silences \<Rightarrow> silences \<Rightarrow> bool"
  for E u where
  set_call: "SetSilence E now now1 now2 uid sil s = (s', res) \<Longrightarrow> store_step E u s s'"
| expire_call: "Expire E i now s = (s', err) \<Longrightarrow> store_step E u s s'"
| merge_call: "Merge E u visit b now s = Some (s', err) \<Longrightarrow> store_step E u s s'"
| gc_call: "GC now s = (s', n, errs) \<Longrightarrow> store_step E u s s'"
| load_call: "(\<And>es. mset (visit es) = mset es) \<Longrightarrow> loadSnapshot E u visit b s = Some (s', err) \<Longrightarrow> store_step E u s s'"

inductive_cases store_stepE: "store_step E u s s'"

definition store_reachable :: "sil_env \<Rightarrow> unmarshaler \<Rightarrow> silences \<Rightarrow> silences \<Rightarrow> bool" where
  "store_reachable E u = (store_step E u)\<^sup>*\<^sup>*"

lemma vi_inv_Merge: "vi_inv s \<Longrightarrow> Merge E u visit b now s = Some (s', err) \<Longrightarrow> vi_inv s'"
  using vi_inv_merge_entries(1) [of s E b now] by (auto simp: Merge_def split: option.splits sum.splits)

lemma loadSnapshot_err: "loadSnapshot E u visit b s = Some (s', Some e) \<Longrightarrow> s' = s"
  by (auto simp: loadSnapshot_def split: option.splits sum.splits prod.splits)

lemma vi_inv_step:
  assumes "store_step E u s s'" "vi_inv s"
  shows "vi_inv s'"
  using assms(1)
proof cases
  case (set_call now now1 now2 uid sil res)
  then show ?thesis using vi_inv_SetSilence(1) [OF assms(2), of E now now1 now2 uid sil] by simp
next
  case (expire_call i now err)
  then show ?thesis using vi_inv_expire(1) [OF assms(2), of E i now] by (simp add: Expire_def)
next
  case (merge_call visit b now err)
  then show ?thesis by (rule vi_inv_Merge [OF assms(2)])
next
  case (gc_call now n errs)
  then show ?thesis by (rule vi_inv_GC [OF assms(2)])
next
  case (load_call visit b err)
  show ?thesis
  proof (cases err)
    case None
    show ?thesis
      by (rule vi_inv_loadSnapshot [OF _ load_call(1) vi_invD(6) [OF assms(2)]]) (use load_call(2) None in simp)
  next
    case (Some e)
    then show ?thesis using loadSnapshot_err load_call(2) assms(2) by blast
  qed
qed

lemma vi_inv_reachable:
  assumes "store_reachable E u s s'" "vi_inv s" shows "vi_inv s'"
  using assms(1) unfolding store_reachable_def
  by (induction rule: rtranclp_induct) (auto intro: assms(2) vi_inv_step)



section \<open>Snapshots\<close>

text \<open>
  What the wire encoding is relied on: an encoded message is read back, whatever follows it, and an
  empty input is the end of the file.
\<close>

definition codec_ok :: "sil_env \<Rightarrow> unmarshaler \<Rightarrow> bool" where
  "codec_ok E u \<longleftrightarrow> u [] = EndOfFile \<and> (\<forall>e b rest. e_marshal E e = Some b \<longrightarrow>
     b \<noteq> [] \<and> u (b @ rest) = Message (Some (ms_silence e)) (ms_expiresAt e) rest)"

lemma post_prepare: "sil_matchers sil = [] \<Longrightarrow> postprocessUnmarshalledSilence (prepareSilenceForMarshalling sil) = sil"
  by (simp add: postprocessUnmarshalledSilence_def prepareSilenceForMarshalling_def Let_def split: list.splits)

lemma state_put_new: "sil_key e \<notin> sil_key ` set es \<Longrightarrow> state_put es e = es @ [e]"
  by (induction es) auto

lemma decode_marshalled:
  assumes "codec_ok E u"
  shows "marshal_entries E es = Some b \<Longrightarrow> \<forall>e \<in> set es. sil_matchers (ms_silence e) = [] \<Longrightarrow>
    distinct (map sil_key (st @ es)) \<Longrightarrow> length b < n \<Longrightarrow> decode_loop n u b st = Some (Inr (st @ es))"
proof (induction es arbitrary: b st n)
  case Nil
  then show ?case using assms by (cases n) (auto simp: codec_ok_def)
next
  case (Cons e es)
  obtain b1 b2 where b: "marshalMeshSilence E e = Some b1" "marshal_entries E es = Some b2" "b = b1 @ b2"
    using Cons.prems(1) by (auto split: option.splits)
  have u: "b1 \<noteq> []" "u (b1 @ b2) = Message (Some (prepareSilenceForMarshalling (ms_silence e))) (ms_expiresAt e) b2"
    using assms b(1) unfolding codec_ok_def marshalMeshSilence_def by fastforce+
  obtain n' where n: "n = Suc n'" "length b2 < n'" using Cons.prems(4) b(3) u(1) by (cases n; cases b1) auto
  have "postprocessUnmarshalledSilence (prepareSilenceForMarshalling (ms_silence e)) = ms_silence e"
    using Cons.prems(2) by (intro post_prepare) simp
  moreover have "state_put st \<lparr>ms_silence = ms_silence e, ms_expiresAt = ms_expiresAt e\<rparr> = st @ [e]"
    using state_put_new [of e st] Cons.prems(3) by (cases e) auto
  ultimately show ?case using Cons.IH [OF b(2) _ _ n(2), of "st @ [e]"] Cons.prems(2,3) u(2) by (simp add: n b(3))
qed

text \<open>
  C32: a snapshot gives the silences back: decoding what \<^verbatim>\<open>MarshalBinary\<close> wrote returns every entry of
  the state as it was, with the matchers moved out of and back into the deprecated field.
\<close>

theorem snapshot_roundtrip:
  assumes "codec_ok E u" "distinct (map sil_key es)" "\<forall>e \<in> set es. sil_matchers (ms_silence e) = []"
    and "MarshalBinary E es = Inr b"
  shows "decodeState u b = Some (Inr es)"
  using decode_marshalled [OF assms(1), of es b "[]" "Suc (length b)"] assms
  by (simp add: MarshalBinary_def decodeState_def split: option.splits)

definition demo_codec :: "sil_env" where
  "demo_codec = (demo_env demo_rx)\<lparr>e_marshal := (\<lambda>e. if e = \<lparr>ms_silence = prepareSilenceForMarshalling (ms_silence (demo_upd ''u'' 20 100)),
     ms_expiresAt = Some 105\<rparr> then Some ''m'' else None)\<rparr>"

fun demo_unmarshal :: unmarshaler where
  "demo_unmarshal [] = EndOfFile"
| "demo_unmarshal (c # rest) = (if c = CHR ''m'' then
     Message (Some (prepareSilenceForMarshalling (ms_silence (demo_upd ''u'' 20 100)))) (Some 105) rest else UnmarshalError)"

theorem snapshot_roundtrip_witness:
  "MarshalBinary demo_codec [demo_upd ''u'' 20 100] = Inr ''m''
   \<and> decodeState demo_unmarshal ''m'' = Some (Inr [demo_upd ''u'' 20 100])"
proof -
  have ok: "codec_ok demo_codec demo_unmarshal" by (simp add: codec_ok_def demo_codec_def)
  have m: "MarshalBinary demo_codec [demo_upd ''u'' 20 100] = Inr ''m''"
    by (simp add: MarshalBinary_def marshalMeshSilence_def demo_codec_def demo_upd_def)
  show ?thesis using m snapshot_roundtrip [OF ok _ _ m] by (simp add: demo_upd_def demo_sil_def)
qed

definition demo_snap :: silences where
  "demo_snap = fst (the (loadSnapshot (demo_env demo_rx)
     (\<lambda>b. if b = ''m'' then Message (Some (demo_sil ''v'' 40 demo_bad)) (Some 45) [] else EndOfFile)
     id ''m'' (new_silences 5 None None)))"

lemma demo_snap_eq: "demo_snap = (new_silences 5 None None)\<lparr>
    s_st := [''v'' \<mapsto> \<lparr>ms_silence = demo_sil ''v'' 40 demo_bad, ms_expiresAt = Some 45\<rparr>], s_version := 1\<rparr>"
  by (simp add: demo_snap_def loadSnapshot_def decodeState_def sil_eval demo_sil_def demo_bad_def demo_env_def demo_rx_def
      anchored_def state_of_def)

text \<open>
  An entry of a snapshot whose matchers do not compile stays in the state although it enters no
  index, and no garbage collection, at any time, removes it.
\<close>

theorem snapshot_leak:
  "s_st demo_snap ''v'' \<noteq> None \<and> vi_ids demo_snap = {} \<and> dom (s_mi demo_snap) = {}
    \<and> (\<forall>now. s_st (fst (GC now demo_snap)) ''v'' \<noteq> None)"
  by (simp add: demo_snap_eq vi_ids_def new_silences_def GC_def)

section \<open>Writes\<close>

text \<open>What a put leaves under the key of the entry and elsewhere.\<close>

lemma put_entry_key:
  "s_st (put_entry E now e s) (sil_key e) = fst (state_merge (s_st s) e now) (sil_key e)"
  by (cases rule: put_entry_cases [of E now e s]) (simp_all add: indexSilence_simps)

lemma setSilence_other: "i \<noteq> sil_key e \<Longrightarrow> s_st (fst (setSilence E e now s)) i = s_st s i"
  using put_entry_other [of i e E now s] by (auto simp: setSilence_put split: option.splits prod.splits)

lemma expire_other: "vi_inv s \<Longrightarrow> i \<noteq> j \<Longrightarrow> s_st (fst (expire E j now s)) i = s_st s i"
proof (cases "s_st s j")
  case None
  then show ?thesis by (simp add: expire_def getSilence_def)
next
  case (Some msil)
  assume "vi_inv s" "i \<noteq> j"
  then have "i \<noteq> sil_key (toMeshSilence s (expired_now now (ms_silence msil)))"
    using vi_invD(2) [OF _ Some] by (simp add: toMeshSilence_def)
  then show ?thesis using setSilence_other by (simp add: expire_eq [OF Some])
qed

text \<open>What a local write may do to a stored silence: keep its matchers; leave it alone if it has
  expired; keep its start if it has started.\<close>

definition keeps_history :: "time \<Rightarrow> sil_state \<Rightarrow> sil_state \<Rightarrow> string \<Rightarrow> bool" where
  "keeps_history now st st' i \<longleftrightarrow> (\<forall>m. st i = Some m \<longrightarrow> (\<exists>m'. st' i = Some m'
     \<and> sil_matcherSets (ms_silence m') = sil_matcherSets (ms_silence m)
     \<and> (getState (ms_silence m) now = SilenceStateExpired \<longrightarrow> m' = m)
     \<and> (getState (ms_silence m) now = SilenceStateActive \<longrightarrow>
          unix_seconds (as_time (sil_startsAt (ms_silence m'))) = unix_seconds (as_time (sil_startsAt (ms_silence m))))))"

lemma keeps_history_same: "st' i = st i \<Longrightarrow> keeps_history now st st' i"
  by (simp add: keeps_history_def)

lemma setSilence_st:
  "s_st (fst (setSilence E e now s)) = (if marshalMeshSilence E e = None then s_st s else s_st (put_entry E now e s))"
  by (auto simp: setSilence_put split: option.splits prod.splits)

lemma setSilence_key:
  "s_st (fst (setSilence E e now s)) (sil_key e) = s_st s (sil_key e) \<or>
   s_st (fst (setSilence E e now s)) (sil_key e) = Some (upgrade_comments e)"
  by (cases rule: put_entry_cases [of E now e s]) (simp_all add: setSilence_st indexSilence_simps)

lemma expire_keeps_history:
  assumes "vi_inv s" "now \<le> t"
  shows "keeps_history now (s_st s) (s_st (fst (expire E j t s))) i"
proof (cases "i = j \<and> s_st s j \<noteq> None")
  case False
  then show ?thesis using expire_other [OF assms(1), of i j E t]
    by (intro keeps_history_same) (auto simp: expire_def getSilence_def)
next
  case True
  then obtain m where m: "s_st s i = Some m" and ij: "i = j" by auto
  let ?e = "toMeshSilence s (expired_now t (ms_silence m))"
  have k: "sil_key ?e = i" using vi_invD(2) [OF assms(1) m] by (simp add: toMeshSilence_def)
  have late: "getState (ms_silence m) now = SilenceStateExpired \<Longrightarrow> getState (ms_silence m) t = SilenceStateExpired"
    using not_expired_earlier [of "ms_silence m" t now] assms(2) by auto
  have act: "sil_startsAt (expired_now t (ms_silence m)) = sil_startsAt (ms_silence m)"
    if "getState (ms_silence m) now = SilenceStateActive" "getState (ms_silence m) t \<noteq> SilenceStateExpired"
    using that assms(2) by (auto simp: expired_now_def getState_def split: if_splits)
  show ?thesis
    using setSilence_key [of E ?e t s]
  proof
    assume "s_st (fst (setSilence E ?e t s)) (sil_key ?e) = s_st s (sil_key ?e)"
    then show ?thesis using k m ij expire_eq [of s i m E t] by (intro keeps_history_same) auto
  next
    assume "s_st (fst (setSilence E ?e t s)) (sil_key ?e) = Some (upgrade_comments ?e)"
    then show ?thesis using k m ij late act expire_eq [of s i m E t]
      by (auto simp: keeps_history_def toMeshSilence_def)
  qed
qed

lemma set_create_keeps_history:
  assumes "vi_inv s" "now \<le> now2" "\<And>u. uid = Some u \<Longrightarrow> s_st s u = None"
  shows "keeps_history now (s_st s) (s_st (fst (set_create E now now1 now2 uid prev sil s))) i"
proof (cases "s_st s i = None \<or> uid = None")
  case True
  then show ?thesis by (auto simp: keeps_history_def set_create_def)
next
  case False
  then obtain u where u: "uid = Some u" "u \<noteq> i" using assms(3) by (metis option.exhaust)
  obtain s1 err where r: "expire_previous E now1 now2 prev s = (s1, err)"
    by (cases "expire_previous E now1 now2 prev s")
  have "keeps_history now (s_st s) (s_st (fst (expire_previous E now1 now2 prev s))) i"
    using expire_keeps_history [OF assms(1,2)] by (auto simp: expire_previous_def keeps_history_same split: option.splits)
  then have k: "keeps_history now (s_st s) (s_st s1) i" by (simp add: r)
  have "s_st (fst (setSilence E (toMeshSilence s (stamp_new now u sil)) now s1)) i = s_st s1 i"
    using u(2) by (intro setSilence_other) (simp add: toMeshSilence_def)
  then have "keeps_history now (s_st s) (s_st (fst (setSilence E (toMeshSilence s (stamp_new now u sil)) now s1))) i"
    using k by (simp add: keeps_history_def)
  then show ?thesis using k u(1) keeps_history_same
    by (simp add: set_create_def Let_def r fst_setSilence split: option.splits)
qed

lemma set_update_keeps_history:
  assumes "getSilence s (sil_id sil) = Some p" "canUpdate p sil now"
  shows "keeps_history now (s_st s) (s_st (fst (set_update E now sil s))) i"
proof -
  let ?e = "toMeshSilence s (sil\<lparr>sil_updatedAt := Some now\<rparr>)"
  obtain m where m: "s_st s (sil_id sil) = Some m" "p = ms_silence m"
    using assms(1) by (auto simp: getSilence_def split: option.splits)
  have up: "sil_matcherSets p = sil_matcherSets sil" "getState p now \<noteq> SilenceStateExpired"
    "getState p now = SilenceStateActive \<Longrightarrow> unix_seconds (as_time (sil_startsAt p)) = unix_seconds (as_time (sil_startsAt sil))"
    using assms(2) by (auto simp: canUpdate_def split: if_splits)
  have "keeps_history now (s_st s) (s_st (fst (setSilence E ?e now s))) i"
  proof (cases "i = sil_id sil")
    case False
    then show ?thesis by (intro keeps_history_same setSilence_other) (simp add: toMeshSilence_def)
  next
    case True
    then show ?thesis using setSilence_key [of E ?e now s] up m by (auto simp: keeps_history_def toMeshSilence_def)
  qed
  then show ?thesis using keeps_history_same
    by (simp add: set_update_def Let_def fst_setSilence split: option.splits)
qed



lemma state_merge_newer:
  "s_st s (sil_key e) = Some m \<Longrightarrow> sil_stamp m < sil_stamp e \<Longrightarrow> \<not> as_time (ms_expiresAt e) < now \<Longrightarrow>
     s_st (put_entry E now e s) (sil_key e) = Some (upgrade_comments e)"
  by (simp add: put_entry_key state_merge_def Let_def)

lemma put_entry_older:
  "s_st s (sil_key e) = Some m \<Longrightarrow> \<not> sil_stamp m < sil_stamp e \<Longrightarrow> put_entry E now e s = s"
  by (simp add: put_entry_def state_merge_def Let_def)

lemma snd_setSilence:
  assumes "\<And>e. marshalMeshSilence E e \<noteq> None"
  shows "snd (case setSilence E e now s of (s', Inl e) \<Rightarrow> (s', Some e) | (s', Inr _) \<Rightarrow> (s', None)) = None"
  using assms [of e] by (auto simp: setSilence_put split: prod.splits)

text \<open>
  \<^verbatim>\<open>Expire\<close> reports success for every stored silence, and if the silence was last updated before the
  clock's value, it is expired at every later time. If its time of update is not before the clock's
  value (a peer's clock is ahead), the call still reports success but changes nothing.
\<close>

theorem Expire_effect:
  assumes "vi_inv s" "s_st s i = Some m" "\<And>e. e_marshal E e \<noteq> None" "0 \<le> s_retention s"
  shows "snd (Expire E i now s) = None
    \<and> (sil_stamp m < now \<longrightarrow> (\<exists>m'. s_st (fst (Expire E i now s)) i = Some m' \<and> (\<forall>t > now. getState (ms_silence m') t = SilenceStateExpired)))
    \<and> (now \<le> sil_stamp m \<longrightarrow> s_st (fst (Expire E i now s)) = s_st s)"
proof -
  let ?e = "toMeshSilence s (expired_now now (ms_silence m))"
  have k: "sil_key ?e = i" using vi_invD(2) [OF assms(1,2)] by (simp add: toMeshSilence_def)
  have ok: "\<And>e. marshalMeshSilence E e \<noteq> None" using assms(3) by (simp add: marshalMeshSilence_def)
  have err: "snd (expire E i now s) = None"
    using assms(2) snd_setSilence [OF ok] by (simp add: expire_def getSilence_def Let_def split: silence_state.splits)
  show ?thesis
  proof (cases "getState (ms_silence m) now = SilenceStateExpired")
    case True
    then have "getState (ms_silence m) t = SilenceStateExpired" if "now < t" for t
      using that not_expired_earlier [of "ms_silence m" t now] by auto
    then show ?thesis using True err assms(2) by (simp add: Expire_def expire_eq [OF assms(2)])
  next
    case False
    have st: "s_st (fst (expire E i now s)) = s_st (put_entry E now ?e s)"
      using False ok [of ?e] by (auto simp: expire_eq [OF assms(2)] setSilence_st)
    have "s_st (put_entry E now ?e s) i = Some (upgrade_comments ?e)" if "sil_stamp m < now"
      using state_merge_newer [of s ?e m now E] that assms(2,4) k by (simp add: toMeshSilence_def)
    moreover have "getState (ms_silence (upgrade_comments ?e)) t = SilenceStateExpired" if "now < t" for t
    proof -
      have "as_time (sil_startsAt (expired_now now (ms_silence m))) \<le> now"
        using False by (auto simp: expired_now_def getState_def split: if_splits)
      then show ?thesis using that by (simp add: toMeshSilence_def getState_def)
    qed
    moreover have "put_entry E now ?e s = s" if "now \<le> sil_stamp m"
      using that assms(2) k by (intro put_entry_older [of s ?e m]) (simp_all add: toMeshSilence_def)
    ultimately show ?thesis using err st by (auto simp: Expire_def)
  qed
qed

theorem Expire_effect_witness:
  "\<exists>m'. s_st (fst (Expire (demo_env demo_rx) ''u'' 30 (demo_set demo_rx))) ''u'' = Some m'
     \<and> (\<forall>t > 30. getState (ms_silence m') t = SilenceStateExpired)"
proof -
  have inv: "vi_inv (demo_set demo_rx)" unfolding demo_set_def by (intro inv_intros vi_inv_new)
  show ?thesis
    using Expire_effect [OF inv, of "''u''" _ "demo_env demo_rx" 30] by (simp add: demo_set_eq demo_env_def)
qed


lemma set_create_card:
  assumes "vi_inv s" "s_maxSilences s = Some k" "0 < k" "int (card (dom (s_st s))) \<le> k"
  shows "int (card (dom (s_st (fst (set_create E now now1 now2 uid prev sil s))))) \<le> k"
proof (cases "over_limit s \<or> uid = None")
  case True
  then show ?thesis using assms(4) by (auto simp: set_create_def)
next
  case False
  then obtain u where u: "uid = Some u" and room: "int (card (dom (s_st s))) + 1 \<le> k"
    using assms(2,3) by (auto simp: over_limit_def)
  obtain s1 err where r: "expire_previous E now1 now2 prev s = (s1, err)"
    by (cases "expire_previous E now1 now2 prev s")
  have "dom (s_st (fst (expire_previous E now1 now2 prev s))) \<subseteq> dom (s_st s)"
    using expire_dom [OF assms(1)] by (auto simp: expire_previous_def split: option.splits)
  then have s1: "dom (s_st s1) \<subseteq> dom (s_st s)" by (simp add: r)
  then have c1: "int (card (dom (s_st s1))) \<le> k" using room card_mono [OF vi_invD(1) [OF assms(1)] s1] by linarith
  let ?s2 = "fst (setSilence E (toMeshSilence s (stamp_new now u sil)) now s1)"
  have "dom (s_st ?s2) \<subseteq> insert u (dom (s_st s))"
    using put_entry_dom [of E now "toMeshSilence s (stamp_new now u sil)" s1] s1 by (auto simp: setSilence_st toMeshSilence_def)
  then have "card (dom (s_st ?s2)) \<le> card (insert u (dom (s_st s)))"
    using vi_invD(1) [OF assms(1)] by (intro card_mono) auto
  then have "int (card (dom (s_st ?s2))) \<le> k" using room card_insert_le_m1 [of "Suc (card (dom (s_st s)))" "dom (s_st s)" u] by simp
  then show ?thesis using False u c1 assms(4)
    by (simp add: set_create_def Let_def r fst_setSilence split: option.splits)
qed

text \<open>
  \<^verbatim>\<open>Set\<close> never takes the number of stored silences over the configured limit.
\<close>

theorem SetSilence_limit:
  assumes "vi_inv s" "s_maxSilences s = Some k" "0 < k" "int (card (dom (s_st s))) \<le> k"
  shows "int (card (dom (s_st (fst (SetSilence E now now1 now2 uid sil s))))) \<le> k"
proof -
  note C = set_create_card [OF assms, where E = E and now = now and ?now1.0 = now1 and ?now2.0 = now2 and uid = uid]
  have U: "int (card (dom (s_st (fst (set_update E now sil' s))))) \<le> k" if "getSilence s (sil_id sil') = Some p" for sil' p
  proof -
    let ?e = "toMeshSilence s (sil'\<lparr>sil_updatedAt := Some now\<rparr>)"
    have "sil_id sil' \<in> dom (s_st s)" using that by (auto simp: getSilence_def split: option.splits)
    then have "dom (s_st (fst (setSilence E ?e now s))) \<subseteq> dom (s_st s)"
      using put_entry_dom [of E now ?e s] by (auto simp: setSilence_st toMeshSilence_def)
    then have "card (dom (s_st (fst (setSilence E ?e now s)))) \<le> card (dom (s_st s))"
      using vi_invD(1) [OF assms(1)] by (intro card_mono)
    then show ?thesis using assms(4) by (simp add: set_update_def Let_def fst_setSilence split: option.splits)
  qed
  show ?thesis using C U assms(4) by (auto simp: SetSilence_def Let_def split: option.splits sum.splits)
qed


theorem SetSilence_limit_witness:
  "int (card (dom (s_st (fst (SetSilence (demo_env demo_rx) 30 30 30 (Some ''v'') (demo_sil [] 40 demo_eq)
     ((demo_set demo_rx)\<lparr>s_maxSilences := Some 1\<rparr>)))))) \<le> 1"
proof (rule SetSilence_limit)
  have "vi_inv (demo_set demo_rx)" unfolding demo_set_def by (intro inv_intros vi_inv_new)
  then show "vi_inv ((demo_set demo_rx)\<lparr>s_maxSilences := Some 1\<rparr>)" by (simp add: vi_inv_def vi_ids_def)
qed (simp_all add: demo_set_eq)

section \<open>Garbage collection\<close>

text \<open>
  Garbage collection removes exactly the listed silences whose retention has passed (or that
  have no expiry), from the state and from both indices; it counts them and leaves every other
  silence untouched.
\<close>

theorem GC_exact:
  assumes "vi_inv s" "GC now s = (s', n, errs)"
  shows "s_st s' = (\<lambda>i. if i \<in> vi_ids s \<and> (\<exists>m. s_st s i = Some m \<and> gc_dead now m) then None else s_st s i)
    \<and> vi_ids s' = vi_ids s \<inter> dom (s_st s') \<and> dom (s_mi s') = dom (s_mi s) \<inter> dom (s_st s')
    \<and> n = card {i \<in> vi_ids s. \<exists>m. s_st s i = Some m \<and> gc_dead now m} \<and> (\<forall>i. GCMissing i \<notin> set errs)"
proof -
  note G = GC_state [OF assms] and d = vi_invD [OF assms(1)]
  have live: "gc_live now (s_st s) i \<longleftrightarrow> \<not> (\<exists>m. s_st s i = Some m \<and> gc_dead now m)" if "i \<in> vi_ids s" for i
    using that d(7) by (fastforce simp: gc_live_def)
  have st: "s_st s' = (\<lambda>i. if i \<in> vi_ids s \<and> (\<exists>m. s_st s i = Some m \<and> gc_dead now m) then None else s_st s i)"
    unfolding G(1) by (rule ext) (metis live)
  have "n = length (filter (\<lambda>i. \<not> gc_live now (s_st s) i) (map sv_id (s_vi s)))"
    unfolding G(5) by (simp add: filter_map comp_def)
  also have "\<dots> = card {i \<in> vi_ids s. \<not> gc_live now (s_st s) i}"
    using d(3) by (subst distinct_card [symmetric]) (auto simp: vi_ids_def intro!: arg_cong [where f = card])
  also have "\<dots> = card {i \<in> vi_ids s. \<exists>m. s_st s i = Some m \<and> gc_dead now m}"
    by (rule arg_cong [where f = card]) (use live in auto)
  finally have n: "n = card {i \<in> vi_ids s. \<exists>m. s_st s i = Some m \<and> gc_dead now m}" .
  have "vi_ids s' = vi_ids s \<inter> dom (s_st s')" unfolding GC_vi_ids [OF assms] GC_dom [OF assms] using d(7) by auto
  moreover have "dom (s_mi s') = dom (s_mi s) \<inter> dom (s_st s')" unfolding GC_dom [OF assms] using d(7,8) by auto
  ultimately show ?thesis using st n G(6) by blast
qed

theorem GC_exact_witness:
  "s_st (fst (GC 105 (demo_set demo_rx))) ''u'' = None \<and> s_st (fst (GC 104 (demo_set demo_rx))) ''u'' \<noteq> None"
proof -
  have inv: "vi_inv (demo_set demo_rx)" unfolding demo_set_def by (intro inv_intros vi_inv_new)
  have r: "GC now (demo_set demo_rx) = (fst (GC now (demo_set demo_rx)), fst (snd (GC now (demo_set demo_rx))), snd (snd (GC now (demo_set demo_rx))))"
    for now by simp
  show ?thesis
    by (subst (1 2) GC_exact [OF inv r, THEN conjunct1])
      (simp add: demo_set_eq vi_ids_def gc_dead_def is_nil_or_zero_def zero_time_def)
qed

section \<open>States of a silence\<close>

text \<open>
  The state of a silence in a query and the state shown to users agree at every time except at
  the very end of the silence: at that instant a query still takes it as active, while it is shown
  as expired.
\<close>

theorem getState_CurrentState:
  "getState sil t = CurrentState (as_time (sil_startsAt sil)) (as_time (sil_endsAt sil)) t \<longleftrightarrow>
     \<not> (as_time (sil_startsAt sil) \<le> t \<and> t = as_time (sil_endsAt sil))"
  by (auto simp: getState_def CurrentState_def)

text \<open>
  \<^verbatim>\<open>Set\<close> accepts a new silence that lies wholly in the past, moves its start to the present and
  stores a silence that starts after its end, which its own validation rejects.
\<close>

theorem SetSilence_past:
  "\<exists>sil. snd (SetSilence (demo_env demo_rx) 20 20 20 (Some ''u'') (demo_sil [] 15 demo_eq) (new_silences 5 None None)) = Inr sil
     \<and> s_st (fst (SetSilence (demo_env demo_rx) 20 20 20 (Some ''u'') (demo_sil [] 15 demo_eq) (new_silences 5 None None))) ''u'' =
         Some \<lparr>ms_silence = sil, ms_expiresAt = Some 20\<rparr>
     \<and> validateSilence (demo_env demo_rx) sil = Inl EndBeforeStart"
  by (simp add: demo_env_def demo_sil_def demo_eq_def sil_eval)

end
