(* ===== verification/Alert.thy ===== *)
theory Alert
  imports AM_Prelude "HOL-Library.List_Lexorder" "HOL-Library.Char_ord"
begin

text \<open>
  Alerts, \<^verbatim>\<open>alert/alert.go\<close>, \<^verbatim>\<open>alert/validate.go\<close> and \<^verbatim>\<open>alert/state.go\<close>. An alert embeds the alert of
  the package \<^verbatim>\<open>prometheus/common/model\<close>, which the repository only calls: its fingerprint, the test
  whether its activity ended by a given time, and the order of label sets are parameters, collected
  in \<open>alert_env\<close>. Each test of \<^verbatim>\<open>Resolved\<close> reads the clock; its value is an argument.
\<close>

section \<open>Alerts\<close>

type_synonym fingerprint = nat

record alert =
  al_labels :: labelset
  al_annotations :: labelset
  al_startsAt :: time
  al_endsAt :: time
  al_generatorURL :: string
  al_updatedAt :: time
  al_timeout :: bool

text \<open>What is used of the model package: the fingerprint of a label set, the alert's name, whether an alert with the
  given end has ended at a time, whether a label set sorts before another, and the validity of
  names and values.\<close>

record alert_env =
  ae_fp :: "labelset \<Rightarrow> fingerprint"
  ae_name :: "labelset \<Rightarrow> string"
  ae_resolvedAt :: "time \<Rightarrow> time \<Rightarrow> bool"
  ae_labelsBefore :: "labelset \<Rightarrow> labelset \<Rightarrow> bool"
  ae_validName :: "string \<Rightarrow> bool"
  ae_validValue :: "string \<Rightarrow> bool"

abbreviation Fingerprint :: "alert_env \<Rightarrow> alert \<Rightarrow> fingerprint" where
  "Fingerprint A a \<equiv> ae_fp A (al_labels a)"

abbreviation ResolvedAt :: "alert_env \<Rightarrow> alert \<Rightarrow> time \<Rightarrow> bool" where
  "ResolvedAt A a ts \<equiv> ae_resolvedAt A (al_endsAt a) ts"

text \<open>The documented behaviour of \<^verbatim>\<open>model.Alert.ResolvedAt\<close>: an alert without an end has not ended,
  any other has ended once its end is not in the future.\<close>

definition std_resolved :: "alert_env \<Rightarrow> bool" where
  "std_resolved A \<longleftrightarrow> (\<forall>e ts. ae_resolvedAt A e ts = (\<not> is_zero e \<and> e \<le> ts))"

section \<open>Merging two reports of an alert\<close>

text \<open>The case in which \<open>o\<close> is not the older report.\<close>

definition merge_into :: "alert_env \<Rightarrow> time \<Rightarrow> alert \<Rightarrow> alert \<Rightarrow> alert" where
  "merge_into A now a o' =
     (let res = o';
          res1 = (if before (al_startsAt a) (al_startsAt o') then res\<lparr>al_startsAt := al_startsAt a\<rparr> else res)
      in if ResolvedAt A o' now then
           (if ResolvedAt A a now \<and> after (al_endsAt a) (al_endsAt o') then res1\<lparr>al_endsAt := al_endsAt a\<rparr> else res1)
         else
           (if after (al_endsAt a) (al_endsAt o') \<and> \<not> al_timeout a then res1\<lparr>al_endsAt := al_endsAt a\<rparr> else res1))"

definition Merge_alert :: "alert_env \<Rightarrow> time \<Rightarrow> alert \<Rightarrow> alert \<Rightarrow> alert" where
  "Merge_alert A now a o' =
     (if before (al_updatedAt o') (al_updatedAt a) then merge_into A now o' a else merge_into A now a o')"

section \<open>Validation\<close>

datatype label_error = InvalidName string | InvalidValue string

datatype alert_error =
    StartMissing
  | StartAfterEnd
  | NoLabels
  | InvalidLabels label_error
  | InvalidAnnotations label_error

text \<open>The loop over a label set, whose pairs are visited in some order.\<close>

fun validateLs :: "alert_env \<Rightarrow> (string \<times> string) list \<Rightarrow> label_error option" where
  "validateLs A [] = None"
| "validateLs A ((ln, lv) # ls) =
     (if \<not> ae_validName A ln then Some (InvalidName ln)
      else if \<not> ae_validValue A lv then Some (InvalidValue lv)
      else validateLs A ls)"

definition Validate :: "alert_env \<Rightarrow> (labelset \<Rightarrow> (string \<times> string) list) \<Rightarrow> alert \<Rightarrow> alert_error option" where
  "Validate A pairs a =
     (if is_zero (al_startsAt a) then Some StartMissing
      else if \<not> is_zero (al_endsAt a) \<and> before (al_endsAt a) (al_startsAt a) then Some StartAfterEnd
      else if dom (al_labels a) = {} then Some NoLabels
      else (case validateLs A (pairs (al_labels a)) of
          Some e \<Rightarrow> Some (InvalidLabels e)
        | None \<Rightarrow> (case validateLs A (pairs (al_annotations a)) of
            Some e \<Rightarrow> Some (InvalidAnnotations e)
          | None \<Rightarrow> None)))"

section \<open>Sorting\<close>

text \<open>The comparison over the overriding keys: decided, or nothing where the keys do not decide.\<close>

fun less_by_keys :: "string list \<Rightarrow> labelset \<Rightarrow> labelset \<Rightarrow> bool option" where
  "less_by_keys [] li lj = None"
| "less_by_keys (k # ks) li lj = (case (li k, lj k) of
     (None, None) \<Rightarrow> less_by_keys ks li lj
   | (None, Some _) \<Rightarrow> Some False
   | (Some _, None) \<Rightarrow> Some True
   | (Some vi, Some vj) \<Rightarrow> if vi \<noteq> vj then Some (vi < vj) else less_by_keys ks li lj)"

definition AlertSlice_Less :: "alert_env \<Rightarrow> alert \<Rightarrow> alert \<Rightarrow> bool" where
  "AlertSlice_Less A a b = (case less_by_keys [''job'', ''instance''] (al_labels a) (al_labels b) of
     Some r \<Rightarrow> r
   | None \<Rightarrow> ae_labelsBefore A (al_labels a) (al_labels b))"

section \<open>Exposed alerts\<close>

text \<open>\<^verbatim>\<open>Alerts\<close>: an end that is not reached yet is not exposed. Each alert's test reads the clock.\<close>

definition expose_alert :: "alert_env \<Rightarrow> time \<Rightarrow> alert \<Rightarrow> alert" where
  "expose_alert A now a = (if \<not> ResolvedAt A a now then a\<lparr>al_endsAt := zero_time\<rparr> else a)"

definition Alerts :: "alert_env \<Rightarrow> (alert \<times> time) list \<Rightarrow> alert list" where
  "Alerts A as = map (\<lambda>(a, now). expose_alert A now a) as"

section \<open>States\<close>

datatype alert_state = AlertStateUnprocessed | AlertStateActive | AlertStateSuppressed

record alert_status =
  st_state :: alert_state
  st_silencedBy :: "string list"
  st_inhibitedBy :: "string list"

fun state_priority :: "alert_state \<Rightarrow> int" where
  "state_priority AlertStateSuppressed = 2"
| "state_priority AlertStateActive = 1"
| "state_priority AlertStateUnprocessed = 0"

definition Compare :: "alert_state \<Rightarrow> alert_state \<Rightarrow> int" where
  "Compare s other =
     (if state_priority s < state_priority other then -1
      else if state_priority s > state_priority other then 1 else 0)"

section \<open>Merging: the younger report decides\<close>

lemma merge_into_fields:
  "al_labels (merge_into A now a b) = al_labels b"
  "al_annotations (merge_into A now a b) = al_annotations b"
  "al_updatedAt (merge_into A now a b) = al_updatedAt b"
  "al_startsAt (merge_into A now a b) = min (al_startsAt a) (al_startsAt b)"
  by (simp_all add: merge_into_def Let_def min_def)

lemma merge_into_end:
  "al_endsAt (merge_into A now a b) =
     (if al_endsAt b < al_endsAt a \<and> (if ResolvedAt A b now then ResolvedAt A a now else \<not> al_timeout a)
      then al_endsAt a else al_endsAt b)"
  by (simp add: merge_into_def Let_def)

lemma merge_into_resolved:
  assumes "std_resolved A" "al_endsAt b \<noteq> zero_time"
  shows "ResolvedAt A (merge_into A now a b) now = ResolvedAt A b now"
  using assms by (auto simp: merge_into_end std_resolved_def)

text \<open>
  Merging two reports of one alert keeps the earlier start, the later time of update and the
  younger report's annotations, and the younger report alone decides whether the alert is resolved:
  an older report neither resolves an alert that still fires nor revives a resolved one. The younger
  report is taken to have an end, which the API gives to every alert it receives.
\<close>

theorem Merge_younger_decides:
  assumes "std_resolved A" "al_endsAt a \<noteq> zero_time" "al_endsAt b \<noteq> zero_time"
  shows "let r = Merge_alert A now a b; y = (if al_updatedAt b < al_updatedAt a then a else b)
    in al_startsAt r = min (al_startsAt a) (al_startsAt b) \<and> al_updatedAt r = max (al_updatedAt a) (al_updatedAt b)
       \<and> al_annotations r = al_annotations y \<and> ResolvedAt A r now = ResolvedAt A y now"
  using assms by (auto simp: Merge_alert_def merge_into_fields merge_into_resolved Let_def min_def max_def)

definition sample_alert :: "time \<Rightarrow> time \<Rightarrow> time \<Rightarrow> alert" where
  "sample_alert s e u = \<lparr>al_labels = [''alertname'' \<mapsto> ''x''], al_annotations = Map.empty, al_startsAt = s, al_endsAt = e,
     al_generatorURL = [], al_updatedAt = u, al_timeout = False\<rparr>"

definition sample_alert_env :: alert_env where
  "sample_alert_env = \<lparr>ae_fp = (\<lambda>l. length (label_get l ''instance'')), ae_name = (\<lambda>l. label_get l ''alertname''),
     ae_resolvedAt = (\<lambda>e ts. e \<noteq> zero_time \<and> e \<le> ts),
     ae_labelsBefore = (\<lambda>_ _. False), ae_validName = (\<lambda>_. True), ae_validValue = (\<lambda>_. True)\<rparr>"

theorem Merge_younger_decides_witness:
  "ResolvedAt sample_alert_env (Merge_alert sample_alert_env 50 (sample_alert 10 40 5) (sample_alert 20 60 6)) 50 = False
   \<and> al_startsAt (Merge_alert sample_alert_env 50 (sample_alert 10 40 5) (sample_alert 20 60 6)) = 10"
  using Merge_younger_decides [of sample_alert_env "sample_alert 10 40 5" "sample_alert 20 60 6" 50]
  by (simp add: std_resolved_def sample_alert_env_def sample_alert_def zero_time_def Let_def)

text \<open>The order in which two reports are merged does not matter unless they have the same time of
  update.\<close>

lemma Merge_commute:
  "al_updatedAt a \<noteq> al_updatedAt b \<Longrightarrow> Merge_alert A now a b = Merge_alert A now b a"
  by (auto simp: Merge_alert_def)

lemma Merge_idem: "Merge_alert A now a a = a"
  by (simp add: Merge_alert_def merge_into_def)

section \<open>Sorting: a strict order\<close>

lemma less_by_keys_cases:
  "less_by_keys ks l l = None"
  "less_by_keys ks a b = None \<Longrightarrow> less_by_keys ks b c = r \<Longrightarrow> less_by_keys ks a c = r"
  "less_by_keys ks a b = r \<Longrightarrow> less_by_keys ks b c = None \<Longrightarrow> less_by_keys ks a c = r"
  "less_by_keys ks a b = map_option Not (less_by_keys ks b a)"
  by (induction ks arbitrary: r) (auto split: option.splits if_splits)

lemma less_by_keys_trans:
  "less_by_keys ks a b = Some True \<Longrightarrow> less_by_keys ks b c = Some True \<Longrightarrow> less_by_keys ks a c = Some True"
proof (induction ks)
  case (Cons k ks)
  then show ?case
    by (cases "a k"; cases "b k"; cases "c k") (auto split: if_splits dest: less_trans)
qed simp

text \<open>
  The order of the alerts in a notification is a strict order, provided that the order of label
  sets is one: by job, then by instance, alerts without the label last, then by all labels.
\<close>

theorem AlertSlice_Less_order:
  assumes "\<And>l. \<not> ae_labelsBefore A l l"
    and "\<And>l m n. ae_labelsBefore A l m \<Longrightarrow> ae_labelsBefore A m n \<Longrightarrow> ae_labelsBefore A l n"
  shows "\<not> AlertSlice_Less A a a \<and> (AlertSlice_Less A a b \<and> AlertSlice_Less A b c \<longrightarrow> AlertSlice_Less A a c)"
proof (intro conjI impI)
  note less_by_keys.simps [simp del]
  let ?l = "\<lambda>x y. less_by_keys [''job'', ''instance''] (al_labels x) (al_labels y)"
  show "\<not> AlertSlice_Less A a a" using assms(1) by (simp add: AlertSlice_Less_def less_by_keys_cases(1))
  assume "AlertSlice_Less A a b \<and> AlertSlice_Less A b c"
  then have ab: "AlertSlice_Less A a b" and bc: "AlertSlice_Less A b c" by auto
  show "AlertSlice_Less A a c"
  proof (cases "?l a b")
    case None
    then have "?l a c = ?l b c" using less_by_keys_cases(2) by blast
    then show ?thesis using ab bc None assms(2) by (auto simp: AlertSlice_Less_def split: option.splits)
  next
    case (Some r)
    then have r: "?l a b = Some True" using ab by (simp add: AlertSlice_Less_def)
    show ?thesis
    proof (cases "?l b c")
      case None
      then have "?l a c = Some True" using less_by_keys_cases(3) r by blast
      then show ?thesis by (simp add: AlertSlice_Less_def)
    next
      case (Some q)
      then have q: "?l b c = Some True" using bc by (simp add: AlertSlice_Less_def)
      have "?l a c = Some True" by (rule less_by_keys_trans [OF r q])
      then show ?thesis by (simp add: AlertSlice_Less_def)
    qed
  qed
qed

theorem AlertSlice_Less_order_witness:
  "\<not> AlertSlice_Less sample_alert_env (sample_alert 1 2 3) (sample_alert 1 2 3)"
  using AlertSlice_Less_order [of sample_alert_env "sample_alert 1 2 3" "sample_alert 1 2 3" "sample_alert 1 2 3"]
  by (simp add: sample_alert_env_def)

end
