(* ===== verification/Limit_Bucket.thy ===== *)
theory Limit_Bucket
  imports AM_Prelude
begin

text \<open>
  The limiter of \<^verbatim>\<open>limit/bucket.go\<close>: at most a given number of values, each with the time until
  which it counts, in a binary heap by that time with an index from values to heap positions. The
  heap operations are those of Go's package \<^verbatim>\<open>container/heap\<close> over the bucket's \<^verbatim>\<open>Less\<close>, \<^verbatim>\<open>Swap\<close>,
  \<^verbatim>\<open>Push\<close> and \<^verbatim>\<open>Pop\<close>. An item is its value and its priority; the index field of the item that the
  bucket's index holds for a value is the position the index has here.

  The bucket is shown to implement a map from values to times.
\<close>

section \<open>The bucket and its heap\<close>

record 'v bucket =
  b_items :: "('v \<times> time) list"
  b_index :: "'v \<rightharpoonup> nat"
  b_capacity :: int

definition expired :: "'v \<times> time \<Rightarrow> time \<Rightarrow> bool" where
  "expired it at \<longleftrightarrow> before (snd it) at"

definition items_Less :: "nat \<Rightarrow> nat \<Rightarrow> 'v bucket \<Rightarrow> bool" where
  "items_Less i j b \<longleftrightarrow> before (snd (b_items b ! i)) (snd (b_items b ! j))"

definition items_Swap :: "nat \<Rightarrow> nat \<Rightarrow> 'v bucket \<Rightarrow> 'v bucket" where
  "items_Swap i j b =
     (let x = b_items b ! i; y = b_items b ! j
      in b\<lparr>b_items := (b_items b)[i := y, j := x], b_index := (b_index b)(fst y \<mapsto> i, fst x \<mapsto> j)\<rparr>)"

definition items_Push :: "'v \<times> time \<Rightarrow> 'v bucket \<Rightarrow> 'v bucket" where
  "items_Push x b = b\<lparr>b_items := b_items b @ [x], b_index := (b_index b)(fst x \<mapsto> length (b_items b))\<rparr>"

definition items_Pop :: "'v bucket \<Rightarrow> 'v bucket" where
  "items_Pop b = b\<lparr>b_items := butlast (b_items b)\<rparr>"

function heap_up :: "nat \<Rightarrow> 'v bucket \<Rightarrow> 'v bucket" where
  "heap_up j b =
     (let i = (j - 1) div 2
      in if i = j \<or> \<not> items_Less j i b then b else heap_up i (items_Swap i j b))"
  by pat_completeness auto
termination by (relation "measure fst") auto

definition small_kid :: "nat \<Rightarrow> nat \<Rightarrow> 'v bucket \<Rightarrow> nat" where
  "small_kid i n b = (if 2 * i + 2 < n \<and> items_Less (2 * i + 2) (2 * i + 1) b then 2 * i + 2 else 2 * i + 1)"

function heap_down :: "nat \<Rightarrow> nat \<Rightarrow> 'v bucket \<Rightarrow> 'v bucket \<times> nat" where
  "heap_down i n b =
     (if n \<le> 2 * i + 1 then (b, i)
      else (let j = small_kid i n b
            in if \<not> items_Less j i b then (b, i) else heap_down j n (items_Swap i j b)))"
  by pat_completeness auto
termination by (relation "measure (\<lambda>(i, n, b). n - i)") (auto simp: small_kid_def split: if_splits)

declare heap_up.simps [simp del] heap_down.simps [simp del]

definition heap_push :: "'v \<times> time \<Rightarrow> 'v bucket \<Rightarrow> 'v bucket" where
  "heap_push x b = (let b1 = items_Push x b in heap_up (length (b_items b1) - 1) b1)"

definition heap_pop :: "'v bucket \<Rightarrow> 'v bucket" where
  "heap_pop b =
     (let n = length (b_items b) - 1; b1 = items_Swap 0 n b; (b2, _) = heap_down 0 n b1
      in items_Pop b2)"

definition heap_fix :: "nat \<Rightarrow> 'v bucket \<Rightarrow> 'v bucket" where
  "heap_fix i b =
     (let (b1, i') = heap_down i (length (b_items b)) b
      in if i < i' then b1 else heap_up i b1)"

definition items_update :: "nat \<Rightarrow> time \<Rightarrow> 'v bucket \<Rightarrow> 'v bucket" where
  "items_update i priority b =
     heap_fix i (b\<lparr>b_items := (b_items b)[i := (fst (b_items b ! i), priority)]\<rparr>)"

definition NewBucket :: "int \<Rightarrow> 'v bucket" where
  "NewBucket capacity = \<lparr>b_items = [], b_index = Map.empty, b_capacity = capacity\<rparr>"

definition IsStale :: "time \<Rightarrow> 'v bucket \<Rightarrow> bool" where
  "IsStale now b =
     (if length (b_items b) = 0 then True
      else expired (b_items b ! (length (b_items b) - 1)) now)"

definition Upsert :: "time \<Rightarrow> 'v \<Rightarrow> time \<Rightarrow> 'v bucket \<Rightarrow> 'v bucket \<times> bool" where
  "Upsert now value priority b =
     (if b_capacity b < 1 then (b, False)
      else (case b_index b value of
          Some i \<Rightarrow> (items_update i priority b, True)
        | None \<Rightarrow>
            if int (length (b_items b)) < b_capacity b then (heap_push (value, priority) b, True)
            else (let oldest = b_items b ! 0
                  in if expired oldest now then
                       (let b1 = heap_pop b; b2 = b1\<lparr>b_index := (b_index b1)(fst oldest := None)\<rparr>
                        in (heap_push (value, priority) b2, True))
                     else (b, False))))"

section \<open>The heap order\<close>

definition par :: "nat \<Rightarrow> nat" where
  "par k = (k - 1) div 2"

definition pr :: "('v \<times> time) list \<Rightarrow> nat \<Rightarrow> time" where
  "pr xs k = snd (xs ! k)"

definition kids :: "nat \<Rightarrow> nat set" where
  "kids i = {k. 0 < k \<and> par k = i}"

text \<open>The order holds between a position and its parent, except at the positions in a set.\<close>

definition heap_ex :: "('v \<times> time) list \<Rightarrow> nat \<Rightarrow> nat set \<Rightarrow> bool" where
  "heap_ex xs n V \<longleftrightarrow> (\<forall>k. 0 < k \<longrightarrow> k < n \<longrightarrow> k \<notin> V \<longrightarrow> pr xs (par k) \<le> pr xs k)"

definition grand :: "('v \<times> time) list \<Rightarrow> nat \<Rightarrow> nat \<Rightarrow> bool" where
  "grand xs n i \<longleftrightarrow> (0 < i \<longrightarrow> (\<forall>k. k < n \<longrightarrow> k \<in> kids i \<longrightarrow> pr xs (par i) \<le> pr xs k))"

definition swapped :: "('v \<times> time) list \<Rightarrow> nat \<Rightarrow> nat \<Rightarrow> ('v \<times> time) list" where
  "swapped xs i j = xs[i := xs ! j, j := xs ! i]"

lemma par_less: "0 < k \<Longrightarrow> par k < k"
  by (auto simp: par_def)

lemma kids_eq: "kids i = {2 * i + 1, 2 * i + 2}"
  by (auto simp: kids_def par_def)

lemma length_swapped [simp]: "length (swapped xs i j) = length xs"
  by (simp add: swapped_def)

lemma pr_swapped: "i < length xs \<Longrightarrow> j < length xs \<Longrightarrow> pr (swapped xs i j) k = (if k = j then pr xs i else if k = i then pr xs j else pr xs k)"
  by (auto simp: pr_def swapped_def nth_list_update)

lemma up_step:
  assumes "heap_ex xs n {j}" "grand xs n j" "0 < j" "j < n" "n \<le> length xs" "pr xs j < pr xs (par j)"
  shows "heap_ex (swapped xs (par j) j) n {par j} \<and> grand (swapped xs (par j) j) n (par j)"
proof -
  let ?i = "par j"
  have i: "?i < j" using assms(3) by (rule par_less)
  have P: "pr (swapped xs ?i j) k = (if k = j then pr xs ?i else if k = ?i then pr xs j else pr xs k)" for k
    using i assms(4,5) by (intro pr_swapped) auto
  have H: "pr xs (par k) \<le> pr xs k" if "0 < k" "k < n" "k \<noteq> j" for k
    using that assms(1) by (simp add: heap_ex_def)
  have G: "pr xs ?i \<le> pr xs k" if "k < n" "0 < k" "par k = j" for k
    using that assms(2,3) by (simp add: grand_def kids_def)
  have "pr (swapped xs ?i j) (par k) \<le> pr (swapped xs ?i j) k" if k: "0 < k" "k < n" "k \<noteq> ?i" for k
  proof (cases "k = j")
    case False
    then show ?thesis unfolding P using k H [of k] G [of k] assms(6) par_less [of k] i by auto
  qed (use i assms(6) P in auto)
  then have "heap_ex (swapped xs ?i j) n {?i}" by (auto simp: heap_ex_def)
  moreover have "pr (swapped xs ?i j) (par ?i) \<le> pr (swapped xs ?i j) k" if k: "0 < ?i" "k < n" "0 < k" "par k = ?i" for k
  proof -
    have "pr xs (par ?i) \<le> pr xs ?i" using H [of ?i] k i assms(4) by auto
    then show ?thesis unfolding P using k H [of k] par_less [of ?i] par_less [of k] i by auto
  qed
  then have "grand (swapped xs ?i j) n ?i" by (auto simp: grand_def kids_def)
  ultimately show ?thesis ..
qed

lemma down_step:
  assumes "heap_ex xs n (insert i (kids i))" "grand xs n i" "j \<in> kids i" "j < n" "n \<le> length xs" "pr xs j < pr xs i"
    and "\<And>k. k \<in> kids i \<Longrightarrow> k < n \<Longrightarrow> pr xs j \<le> pr xs k"
  shows "heap_ex (swapped xs i j) n (kids j) \<and> grand (swapped xs i j) n j"
proof -
  have j: "par j = i" "0 < j" "i < j" using assms(3) par_less [of j] by (auto simp: kids_def)
  have P: "pr (swapped xs i j) k = (if k = j then pr xs i else if k = i then pr xs j else pr xs k)" for k
    using j assms(4,5) by (intro pr_swapped) auto
  have H: "pr xs (par k) \<le> pr xs k" if "0 < k" "k < n" "k \<noteq> i" "par k \<noteq> i" for k
    using that assms(1) by (simp add: heap_ex_def kids_def)
  have G: "pr xs (par i) \<le> pr xs j" if "0 < i" using that assms(2-4) by (simp add: grand_def)
  have M: "pr xs j \<le> pr xs k" if "0 < k" "par k = i" "k < n" for k using that assms(7) by (simp add: kids_def)
  have "pr (swapped xs i j) (par k) \<le> pr (swapped xs i j) k" if k: "0 < k" "k < n" "par k \<noteq> j" for k
  proof (cases "par k = i")
    case True
    then show ?thesis unfolding P using k M [of k] assms(6) par_less [of k] j by auto
  next
    case False
    then show ?thesis unfolding P using k H [of k] G par_less [of k] j by auto
  qed
  then have "heap_ex (swapped xs i j) n (kids j)" by (auto simp: heap_ex_def kids_def)
  moreover have "grand (swapped xs i j) n j"
    unfolding grand_def kids_def P using H j par_less by (auto simp: P)
  ultimately show ?thesis ..
qed

section \<open>The heap operations keep the order\<close>

lemma items_Swap_items [simp]: "b_items (items_Swap i j b) = swapped (b_items b) i j"
  by (simp add: items_Swap_def swapped_def Let_def)

lemma items_Swap_capacity [simp]: "b_capacity (items_Swap i j b) = b_capacity b"
  by (simp add: items_Swap_def Let_def)

lemma items_Less_pr: "items_Less i j b \<longleftrightarrow> pr (b_items b) i < pr (b_items b) j"
  by (simp add: items_Less_def pr_def)

text \<open>What holds under swaps holds under the loops.\<close>

lemma heap_up_preserves:
  assumes "\<And>i j b. P b \<Longrightarrow> i < length (b_items b) \<Longrightarrow> j < length (b_items b) \<Longrightarrow> P (items_Swap i j b)"
  shows "P b \<Longrightarrow> j < length (b_items b) \<Longrightarrow> P (heap_up j b)"
proof (induction j b rule: heap_up.induct)
  case (1 j b)
  let ?i = "(j - 1) div 2"
  show ?case
  proof (cases "?i = j \<or> \<not> items_Less j ?i b")
    case True
    then show ?thesis using "1.prems" by (subst heap_up.simps) (auto simp: Let_def)
  next
    case False
    have "?i < length (b_items b)" using "1.prems"(2) by linarith
    then have "P (heap_up ?i (items_Swap ?i j b))" using "1.IH" [OF refl False] assms "1.prems" by simp
    then show ?thesis using False by (subst heap_up.simps) (auto simp: Let_def)
  qed
qed

lemma small_kid:
  "2 * i + 1 < n \<Longrightarrow> small_kid i n b < n" "i < small_kid i n b" "small_kid i n b \<in> kids i"
  "2 * i + 1 < n \<Longrightarrow> k \<in> kids i \<Longrightarrow> k < n \<Longrightarrow> pr (b_items b) (small_kid i n b) \<le> pr (b_items b) k"
  by (auto simp: small_kid_def kids_eq items_Less_pr)

lemma heap_down_unfold:
  "heap_down i n b = (if n \<le> 2 * i + 1 \<or> \<not> items_Less (small_kid i n b) i b then (b, i)
     else heap_down (small_kid i n b) n (items_Swap i (small_kid i n b) b))"
  by (subst heap_down.simps) (simp add: Let_def)

lemma heap_down_induct [case_names stop step]:
  assumes "\<And>i b. n \<le> 2 * i + 1 \<or> \<not> items_Less (small_kid i n b) i b \<Longrightarrow> P i b"
    and "\<And>i b. 2 * i + 1 < n \<Longrightarrow> items_Less (small_kid i n b) i b \<Longrightarrow>
      P (small_kid i n b) (items_Swap i (small_kid i n b) b) \<Longrightarrow> P i b"
  shows "P i b"
proof (induction "n - i" arbitrary: i b rule: less_induct)
  case (less i b)
  show ?case
  proof (cases "n \<le> 2 * i + 1 \<or> \<not> items_Less (small_kid i n b) i b")
    case False
    then have "n - small_kid i n b < n - i" using small_kid(1,2) [of i n b] by auto
    then have "P (small_kid i n b) (items_Swap i (small_kid i n b) b)" by (rule less)
    then show ?thesis using False by (intro assms(2) [of i b]) auto
  qed (rule assms(1))
qed

lemma heap_down_preserves:
  assumes "\<And>i j b. P b \<Longrightarrow> i < n \<Longrightarrow> j < n \<Longrightarrow> n \<le> length (b_items b) \<Longrightarrow> P (items_Swap i j b)"
  shows "P b \<Longrightarrow> n \<le> length (b_items b) \<Longrightarrow> P (fst (heap_down i n b))"
proof (induction i b rule: heap_down_induct [where n = n])
  case (stop i b)
  then show ?case by (subst heap_down_unfold) simp
next
  case (step i b)
  then have "P (items_Swap i (small_kid i n b) b)" using small_kid(1) [of i n b] assms by auto
  then show ?case using step by (subst heap_down_unfold) simp
qed

lemma heap_down_ge: "i \<le> snd (heap_down i n b)"
proof (induction i b rule: heap_down_induct [where n = n])
  case (stop i b)
  then show ?case by (subst heap_down_unfold) simp
next
  case (step i b)
  then show ?case using small_kid(2) [of i n b] by (subst heap_down_unfold) simp
qed

lemma heap_up_heap:
  assumes "heap_ex (b_items b) n {j}" "grand (b_items b) n j" "j < n" "n \<le> length (b_items b)"
  shows "heap_ex (b_items (heap_up j b)) n {}"
  using assms
proof (induction j b rule: heap_up.induct)
  case (1 j b)
  let ?i = "(j - 1) div 2"
  have i: "par j = ?i" by (simp add: par_def)
  show ?case
  proof (cases "?i = j \<or> \<not> items_Less j ?i b")
    case True
    have "heap_ex (b_items b) n {}"
      unfolding heap_ex_def
    proof (intro allI impI)
      fix k assume k: "0 < k" "k < n"
      show "pr (b_items b) (par k) \<le> pr (b_items b) k"
      proof (cases "k = j")
        case True
        then show ?thesis using \<open>?i = j \<or> \<not> items_Less j ?i b\<close> k i par_less [of j] by (auto simp: items_Less_pr)
      qed (use k "1.prems"(1) in \<open>simp add: heap_ex_def\<close>)
    qed
    then show ?thesis using True by (subst heap_up.simps) (simp add: Let_def)
  next
    case False
    then have j: "0 < j" by (cases j) auto
    have "heap_ex (b_items (items_Swap ?i j b)) n {?i} \<and> grand (b_items (items_Swap ?i j b)) n ?i"
      using up_step [OF "1.prems"(1,2) j "1.prems"(3,4)] False i by (simp add: items_Less_pr)
    moreover have "?i < n" using "1.prems"(3) by linarith
    ultimately show ?thesis using "1.IH" [OF refl False] "1.prems"(4) False
      by (subst heap_up.simps) (simp add: Let_def)
  qed
qed

lemma heap_down_heap:
  assumes "heap_ex (b_items b) n (kids i)" "grand (b_items b) n i" "n \<le> length (b_items b)"
  shows "heap_ex (b_items (fst (heap_down i n b))) n {}"
  using assms
proof (induction i b rule: heap_down_induct [where n = n])
  case (stop i b)
  have "pr (b_items b) i \<le> pr (b_items b) k" if "k \<in> kids i" "k < n" for k
    using stop(1) small_kid(4) [where i = i and n = n and k = k and b = b] that by (auto simp: items_Less_pr kids_eq)
  then have "heap_ex (b_items b) n {}" using stop(2) by (auto simp: heap_ex_def kids_def)
  then show ?case using stop(1) by (subst heap_down_unfold) simp
next
  case (step i b)
  have "heap_ex (b_items b) n (insert i (kids i))" using step(4) by (auto simp: heap_ex_def)
  then have "heap_ex (b_items (items_Swap i (small_kid i n b) b)) n (kids (small_kid i n b))
     \<and> grand (b_items (items_Swap i (small_kid i n b) b)) n (small_kid i n b)"
    using down_step [of "b_items b" n i "small_kid i n b"] step small_kid(1,2,3) [of i n b] small_kid(4) [where i = i and n = n and b = b] by (simp add: items_Less_pr)
  then show ?case using step by (subst heap_down_unfold) simp
qed

text \<open>After the priority at a position changed, either the downward loop moves it and repairs the
  order, or it stays and at most the order to its parent is broken.\<close>

lemma heap_down_fix:
  assumes "heap_ex (b_items b) n (insert i (kids i))" "grand (b_items b) n i" "n \<le> length (b_items b)"
  shows "if i < snd (heap_down i n b) then heap_ex (b_items (fst (heap_down i n b))) n {}
    else fst (heap_down i n b) = b \<and> heap_ex (b_items b) n {i}"
proof (cases "n \<le> 2 * i + 1 \<or> \<not> items_Less (small_kid i n b) i b")
  case True
  have "pr (b_items b) i \<le> pr (b_items b) k" if "k \<in> kids i" "k < n" for k
    using True small_kid(4) [where i = i and n = n and k = k and b = b] that by (auto simp: items_Less_pr kids_eq)
  then have "heap_ex (b_items b) n {i}" using assms(1) by (auto simp: heap_ex_def kids_def)
  then show ?thesis using True by (subst (1 2 3) heap_down_unfold) simp
next
  case False
  let ?j = "small_kid i n b"
  have "heap_ex (b_items (items_Swap i ?j b)) n (kids ?j) \<and> grand (b_items (items_Swap i ?j b)) n ?j"
    using down_step [OF assms(1,2), of ?j] assms(3) False small_kid(1,2,3) [of i n b] small_kid(4) [where i = i and n = n and b = b] by (simp add: items_Less_pr)
  then have "heap_ex (b_items (fst (heap_down ?j n (items_Swap i ?j b)))) n {}"
    using assms(3) by (intro heap_down_heap) simp_all
  moreover have "i < snd (heap_down ?j n (items_Swap i ?j b))"
    using heap_down_ge [of ?j n "items_Swap i ?j b"] small_kid(2) [of i n b] by linarith
  ultimately show ?thesis using False by (subst (1 2 3) heap_down_unfold) simp
qed

section \<open>The invariant of a bucket\<close>

definition idx_ok :: "'v bucket \<Rightarrow> bool" where
  "idx_ok b \<longleftrightarrow> (\<forall>v k. b_index b v = Some k \<longleftrightarrow> k < length (b_items b) \<and> fst (b_items b ! k) = v)"

definition bucket_inv :: "'v bucket \<Rightarrow> bool" where
  "bucket_inv b \<longleftrightarrow> heap_ex (b_items b) (length (b_items b)) {} \<and> idx_ok b
     \<and> (length (b_items b) = 0 \<or> int (length (b_items b)) \<le> b_capacity b)"

text \<open>The map a bucket stands for.\<close>

definition b_map :: "'v bucket \<Rightarrow> ('v \<rightharpoonup> time)" where
  "b_map b = map_of (b_items b)"

lemma idx_ok_inj: "idx_ok b \<Longrightarrow> i < length (b_items b) \<Longrightarrow> j < length (b_items b) \<Longrightarrow>
  fst (b_items b ! i) = fst (b_items b ! j) \<Longrightarrow> i = j"
  unfolding idx_ok_def by (metis option.inject)

lemma idx_ok_distinct: "idx_ok b \<Longrightarrow> distinct (map fst (b_items b))"
  unfolding distinct_conv_nth using idx_ok_inj by (metis length_map nth_map)

lemma idx_ok_dom: "idx_ok b \<Longrightarrow> dom (b_index b) = fst ` set (b_items b)"
  by (force simp: idx_ok_def dom_def in_set_conv_nth)

lemma idx_ok_Swap:
  assumes "idx_ok b" "i < length (b_items b)" "j < length (b_items b)"
  shows "idx_ok (items_Swap i j b)"
  unfolding idx_ok_def
proof (intro allI)
  fix v k
  let ?xs = "b_items b" and ?b = "items_Swap i j b"
  have ix: "b_index ?b = (b_index b)(fst (?xs ! j) \<mapsto> i, fst (?xs ! i) \<mapsto> j)"
    by (simp add: items_Swap_def Let_def)
  have sw: "swapped ?xs i j ! m = (if m = j then ?xs ! i else if m = i then ?xs ! j else ?xs ! m)" if "m < length ?xs" for m
    using that assms by (auto simp: swapped_def nth_list_update)
  have inj: "fst (?xs ! a) = fst (?xs ! c) \<longleftrightarrow> a = c" if "a < length ?xs" "c < length ?xs" for a c
    using idx_ok_inj [OF assms(1) that] by blast
  show "b_index ?b v = Some k \<longleftrightarrow> k < length (b_items ?b) \<and> fst (b_items ?b ! k) = v"
  proof (cases "k < length ?xs")
    case k: True
    consider "v = fst (?xs ! i)" | "v = fst (?xs ! j)" "i \<noteq> j" | "v \<noteq> fst (?xs ! i)" "v \<noteq> fst (?xs ! j)" by blast
    then show ?thesis
    proof cases
      case 1
      then show ?thesis using k assms(2,3) by (auto simp: ix sw inj)
    next
      case 2
      then show ?thesis using k assms(2,3) by (auto simp: ix sw inj)
    next
      case 3
      have "b_index b v = Some k \<longleftrightarrow> fst (?xs ! k) = v" using assms(1) k by (simp add: idx_ok_def)
      then show ?thesis using 3 k by (auto simp: ix sw)
    qed
  next
    case False
    have "b_index b v \<noteq> Some k" using assms(1) False by (simp add: idx_ok_def)
    then show ?thesis using False assms(2,3) by (auto simp: ix)
  qed
qed

lemma mset_swapped: "i < length xs \<Longrightarrow> j < length xs \<Longrightarrow> mset (swapped xs i j) = mset xs"
  using mset_swap [of j xs i] by (simp add: swapped_def)

text \<open>Everything that swaps keep: the items as a multiset, the index, the capacity.\<close>

definition like :: "'v bucket \<Rightarrow> 'v bucket \<Rightarrow> bool" where
  "like b b' \<longleftrightarrow> mset (b_items b') = mset (b_items b) \<and> (idx_ok b \<longrightarrow> idx_ok b') \<and> b_capacity b' = b_capacity b"

lemma like_length: "like b b' \<Longrightarrow> length (b_items b') = length (b_items b)"
  unfolding like_def by (metis mset_eq_length)

lemma like_refl [simp]: "like b b"
  by (simp add: like_def)

lemma like_trans: "like a b \<Longrightarrow> like b c \<Longrightarrow> like a c"
  by (simp add: like_def)

lemma like_Swap: "i < length (b_items b) \<Longrightarrow> j < length (b_items b) \<Longrightarrow> like b (items_Swap i j b)"
  by (simp add: like_def mset_swapped idx_ok_Swap)

lemma like_heap_up: "j < length (b_items b) \<Longrightarrow> like b (heap_up j b)"
  by (rule heap_up_preserves [of "like b"]) (auto elim!: like_trans intro!: like_Swap)

lemma like_heap_down: "n \<le> length (b_items b) \<Longrightarrow> like b (fst (heap_down i n b))"
  by (rule heap_down_preserves [of "like b"]) (auto elim!: like_trans intro!: like_Swap)

lemma like_b_map: "like b b' \<Longrightarrow> idx_ok b \<Longrightarrow> b_map b' = b_map b"
  unfolding b_map_def like_def by (metis idx_ok_distinct map_of_inject_set set_mset_mset)

lemma b_map_dom: "idx_ok b \<Longrightarrow> dom (b_map b) = dom (b_index b)"
  by (simp add: b_map_def idx_ok_dom dom_map_of_conv_image_fst)

lemma b_map_Some: "idx_ok b \<Longrightarrow> b_map b v = Some p \<longleftrightarrow> (v, p) \<in> set (b_items b)"
  by (simp add: b_map_def idx_ok_distinct)

section \<open>Pushing, popping, fixing\<close>

lemma push_correct:
  assumes "idx_ok b" "heap_ex (b_items b) (length (b_items b)) {}" "b_index b v = None"
  shows "idx_ok (heap_push (v, p) b)" "heap_ex (b_items (heap_push (v, p) b)) (Suc (length (b_items b))) {}"
    "b_map (heap_push (v, p) b) = (b_map b)(v \<mapsto> p)" "length (b_items (heap_push (v, p) b)) = Suc (length (b_items b))"
    "b_capacity (heap_push (v, p) b) = b_capacity b"
proof -
  let ?n = "length (b_items b)" and ?b1 = "items_Push (v, p) b"
  have items: "b_items ?b1 = b_items b @ [(v, p)]" by (simp add: items_Push_def)
  have fresh: "v \<notin> fst ` set (b_items b)" using assms(1,3) idx_ok_dom by blast
  have ok1: "idx_ok ?b1"
    using assms(1) fresh by (auto simp: idx_ok_def items_Push_def nth_append less_Suc_eq image_iff)
  have push: "heap_push (v, p) b = heap_up ?n ?b1" by (simp add: heap_push_def items)
  have lk: "like ?b1 (heap_push (v, p) b)" unfolding push by (rule like_heap_up) (simp add: items)
  show "idx_ok (heap_push (v, p) b)" using lk ok1 by (simp add: like_def)
  have old: "pr (b_items b @ [(v, p)]) k = pr (b_items b) k" if "k < ?n" for k using that by (simp add: pr_def nth_append)
  have "heap_ex (b_items ?b1) (Suc ?n) {?n}"
    unfolding heap_ex_def items
  proof (intro allI impI)
    fix k assume k: "0 < k" "k < Suc ?n" "k \<notin> {?n}"
    then have "par k < ?n" "k < ?n" using par_less [of k] by auto
    then show "pr (b_items b @ [(v, p)]) (par k) \<le> pr (b_items b @ [(v, p)]) k"
      using old k(1) assms(2) by (simp add: heap_ex_def)
  qed
  moreover have "grand (b_items ?b1) (Suc ?n) ?n" by (auto simp: grand_def kids_eq)
  ultimately show "heap_ex (b_items (heap_push (v, p) b)) (Suc ?n) {}"
    unfolding push by (intro heap_up_heap) (simp_all add: items)
  have "b_map ?b1 = (b_map b)(v \<mapsto> p)"
  proof (rule ext)
    fix w
    have "map_of (b_items b) v = None" using fresh by (simp add: map_of_eq_None_iff)
    then show "b_map ?b1 w = ((b_map b)(v \<mapsto> p)) w" by (simp add: b_map_def items map_add_def split: option.splits)
  qed
  then show "b_map (heap_push (v, p) b) = (b_map b)(v \<mapsto> p)" using like_b_map [OF lk ok1] by simp
  show "length (b_items (heap_push (v, p) b)) = Suc ?n" using like_length [OF lk] by (simp add: items)
  show "b_capacity (heap_push (v, p) b) = b_capacity b" using lk by (simp add: like_def items_Push_def)
qed

lemma fix_correct:
  assumes "idx_ok b" "heap_ex (b_items b) n {}" "i < n" "n = length (b_items b)"
  shows "idx_ok (items_update i p b)" "heap_ex (b_items (items_update i p b)) n {}"
    "b_map (items_update i p b) = (b_map b)(fst (b_items b ! i) \<mapsto> p)" "length (b_items (items_update i p b)) = n"
    "b_capacity (items_update i p b) = b_capacity b"
proof -
  let ?v = "fst (b_items b ! i)" and ?b1 = "b\<lparr>b_items := (b_items b)[i := (fst (b_items b ! i), p)]\<rparr>"
  let ?xs = "b_items b" and ?ys = "(b_items b)[i := (fst (b_items b ! i), p)]"
  have ok1: "idx_ok ?b1" using assms by (auto simp: idx_ok_def nth_list_update)
  have P: "pr ?ys k = (if k = i then p else pr ?xs k)" for k
    using assms(3,4) by (simp add: pr_def nth_list_update)
  have H: "pr ?xs (par k) \<le> pr ?xs k" if "0 < k" "k < n" for k using that assms(2) by (simp add: heap_ex_def)
  have he: "heap_ex (b_items ?b1) n (insert i (kids i))"
    using H by (auto simp: heap_ex_def P kids_def)
  have gr: "grand (b_items ?b1) n i"
    unfolding grand_def
  proof (intro allI impI)
    fix k assume k: "0 < i" "k < n" "k \<in> kids i"
    then have "pr ?xs (par i) \<le> pr ?xs i" "pr ?xs i \<le> pr ?xs k" "par i \<noteq> i" "k \<noteq> i" using H [of i] H [of k] assms(3) par_less [of i] par_less [of k]
      by (auto simp: kids_def)
    then show "pr (b_items ?b1) (par i) \<le> pr (b_items ?b1) k" by (simp add: P)
  qed
  have up: "items_update i p b = (let (b1, i') = heap_down i n ?b1 in if i < i' then b1 else heap_up i b1)"
    using assms(4) by (simp add: items_update_def heap_fix_def)
  have n1: "n \<le> length (b_items ?b1)" using assms(4) by simp
  have fx: "if i < snd (heap_down i n ?b1) then heap_ex (b_items (fst (heap_down i n ?b1))) n {}
    else fst (heap_down i n ?b1) = ?b1 \<and> heap_ex (b_items ?b1) n {i}"
    by (rule heap_down_fix [OF he gr n1])
  have lk: "like ?b1 (items_update i p b)"
    unfolding up using fx like_heap_down [OF n1, of i] like_heap_up [of i ?b1] assms(3,4)
    by (auto simp: case_prod_beta split: if_splits)
  show "idx_ok (items_update i p b)" using lk ok1 by (simp add: like_def)
  show "heap_ex (b_items (items_update i p b)) n {}"
    unfolding up using fx heap_up_heap [OF _ gr assms(3) n1] by (auto simp: case_prod_beta split: if_splits)
  show "length (b_items (items_update i p b)) = n" using like_length [OF lk] assms(4) by simp
  show "b_capacity (items_update i p b) = b_capacity b" using lk by (simp add: like_def)
  have "b_map ?b1 = (b_map b)(?v \<mapsto> p)"
  proof (rule ext)
    fix v
    have i: "i < length ?xs" using assms by simp
    show "b_map ?b1 v = ((b_map b)(?v \<mapsto> p)) v"
    proof (cases "v = ?v")
      case True
      then show ?thesis using b_map_Some [OF ok1, of v p] i by (simp add: set_update_memI)
    next
      case False
      have "(v, q) \<in> set ?ys \<longleftrightarrow> (v, q) \<in> set ?xs" for q
        using False i by (metis (no_types, lifting) fst_conv in_set_conv_nth length_list_update nth_list_update_eq nth_list_update_neq)
      then have "b_map ?b1 v = Some q \<longleftrightarrow> b_map b v = Some q" for q
        using b_map_Some [OF ok1, of v q] b_map_Some [OF assms(1), of v q] by simp
      then show ?thesis using False by (metis fun_upd_other not_None_eq)
    qed
  qed
  then show "b_map (items_update i p b) = (b_map b)(?v \<mapsto> p)" using like_b_map [OF lk ok1] by simp
qed

lemma swap_last_heap:
  assumes "heap_ex xs (Suc m) {}" "length xs = Suc m"
  shows "heap_ex (swapped xs 0 m) m (kids 0)"
  unfolding heap_ex_def
proof (intro allI impI)
  fix k assume k: "0 < k" "k < m" "k \<notin> kids 0"
  then have "par k \<noteq> 0" "par k < k" using par_less by (auto simp: kids_def)
  moreover have "pr xs (par k) \<le> pr xs k" using k assms(1) by (simp add: heap_ex_def)
  ultimately show "pr (swapped xs 0 m) (par k) \<le> pr (swapped xs 0 m) k"
    using k assms(2) by (simp add: pr_swapped)
qed

lemma heap_down_beyond:
  assumes "m < length (b_items b)"
  shows "b_items (fst (heap_down i m b)) ! m = b_items b ! m"
  by (rule heap_down_preserves [of "\<lambda>b'. b_items b' ! m = b_items b ! m"])
    (use assms in \<open>auto simp: swapped_def\<close>)

lemma idx_ok_drop_last:
  assumes "idx_ok b" "b_items b = ys @ [x]"
  shows "idx_ok (b\<lparr>b_items := ys, b_index := (b_index b)(fst x := None)\<rparr>)"
    and "b_map (b\<lparr>b_items := ys, b_index := (b_index b)(fst x := None)\<rparr>) = (b_map b)(fst x := None)"
proof -
  have d: "distinct (map fst (ys @ [x]))" using idx_ok_distinct [OF assms(1)] assms(2) by simp
  have I: "b_index b v = Some k \<longleftrightarrow> k < Suc (length ys) \<and> fst ((ys @ [x]) ! k) = v" for v k
    using assms by (simp add: idx_ok_def)
  show "idx_ok (b\<lparr>b_items := ys, b_index := (b_index b)(fst x := None)\<rparr>)"
  proof -
    have "fst (ys ! k) \<noteq> fst x" if "k < length ys" for k
    proof -
      have "fst (ys ! k) \<in> fst ` set ys" "fst x \<notin> fst ` set ys" using that d by auto
      then show ?thesis by metis
    qed
    then show ?thesis unfolding idx_ok_def by (auto simp: I nth_append less_Suc_eq)
  qed
  have "map_of ys (fst x) = None" using d by (auto simp: map_of_eq_None_iff)
  then show "b_map (b\<lparr>b_items := ys, b_index := (b_index b)(fst x := None)\<rparr>) = (b_map b)(fst x := None)"
    using assms(2) by (cases x) (auto simp: b_map_def fun_eq_iff map_add_def split: option.splits)
qed

lemma pop_correct:
  assumes "idx_ok b" "heap_ex (b_items b) (length (b_items b)) {}" "b_items b \<noteq> []"
  defines "b' \<equiv> (heap_pop b)\<lparr>b_index := (b_index (heap_pop b))(fst (b_items b ! 0) := None)\<rparr>"
  shows "idx_ok b'" "heap_ex (b_items b') (length (b_items b')) {}" "Suc (length (b_items b')) = length (b_items b)"
    "b_map b' = (b_map b)(fst (b_items b ! 0) := None)" "b_capacity b' = b_capacity b"
proof -
  obtain m where m: "length (b_items b) = Suc m" using assms(3) by (cases "b_items b") auto
  let ?b1 = "items_Swap 0 m b" and ?b2 = "fst (heap_down 0 m (items_Swap 0 m b))"
  have lk1: "like b ?b1" using m by (intro like_Swap) auto
  have lk2: "like ?b1 ?b2" using m by (intro like_heap_down) simp
  have lk: "like b ?b2" by (rule like_trans [OF lk1 lk2])
  have h: "heap_ex (b_items ?b2) m {}"
    using swap_last_heap [OF assms(2) [unfolded m] m] m by (intro heap_down_heap) (auto simp: grand_def)
  have len: "length (b_items ?b2) = Suc m" using like_length [OF lk] m by simp
  have "b_items ?b2 ! m = b_items b ! 0"
    using heap_down_beyond [of m ?b1 0] m by (simp add: swapped_def nth_list_update)
  then have snoc: "b_items ?b2 = butlast (b_items ?b2) @ [b_items b ! 0]"
    using len by (metis append_butlast_last_id diff_Suc_1 last_conv_nth list.size(3) nat.distinct(1))
  have b': "b' = ?b2\<lparr>b_items := butlast (b_items ?b2), b_index := (b_index ?b2)(fst (b_items b ! 0) := None)\<rparr>"
    unfolding b'_def heap_pop_def items_Pop_def using m by (simp add: Let_def case_prod_beta)
  have ok2: "idx_ok ?b2" using lk assms(1) by (simp add: like_def)
  show "idx_ok b'" unfolding b' by (rule idx_ok_drop_last(1) [OF ok2 snoc])
  show "b_map b' = (b_map b)(fst (b_items b ! 0) := None)"
    unfolding b' using idx_ok_drop_last(2) [OF ok2 snoc] like_b_map [OF lk assms(1)] by simp
  show "Suc (length (b_items b')) = length (b_items b)" using len m by (simp add: b')
  show "b_capacity b' = b_capacity b" using lk by (simp add: b' like_def)
  show "heap_ex (b_items b') (length (b_items b')) {}"
    unfolding heap_ex_def
  proof (intro allI impI)
    fix k assume k: "0 < k" "k < length (b_items b')"
    then have "k < m" "par k < m" using len par_less [of k] by (auto simp: b')
    then show "pr (b_items b') (par k) \<le> pr (b_items b') k"
      using h k(1) len by (simp add: b' heap_ex_def pr_def nth_butlast)
  qed
qed

section \<open>The bucket implements a bounded map\<close>

lemma root_min:
  assumes "heap_ex xs n {}" "k < n"
  shows "pr xs 0 \<le> pr xs k"
  using assms(2)
proof (induction k rule: less_induct)
  case (less k)
  show ?case
  proof (cases "k = 0")
    case False
    then have "par k < k" using par_less by simp
    then show ?thesis using less False assms(1) unfolding heap_ex_def by (meson empty_iff gr0I less_trans order_trans)
  qed simp
qed

text \<open>The specification of \<^verbatim>\<open>Upsert\<close> over the map: which value is evicted is fixed up to equal times.\<close>

definition upsert_spec :: "int \<Rightarrow> time \<Rightarrow> 'v \<Rightarrow> time \<Rightarrow> ('v \<rightharpoonup> time) \<Rightarrow> ('v \<rightharpoonup> time) \<Rightarrow> bool \<Rightarrow> bool" where
  "upsert_spec cap now v p m m' ok \<longleftrightarrow>
     (if cap < 1 then \<not> ok \<and> m' = m
      else if v \<in> dom m \<or> int (card (dom m)) < cap then ok \<and> m' = m(v \<mapsto> p)
      else if \<exists>w q. m w = Some q \<and> q < now
      then ok \<and> (\<exists>w q. m w = Some q \<and> q < now \<and> (\<forall>w' q'. m w' = Some q' \<longrightarrow> q \<le> q') \<and> m' = (m(w := None))(v \<mapsto> p))
      else \<not> ok \<and> m' = m)"

lemma card_b_map: "idx_ok b \<Longrightarrow> card (dom (b_map b)) = length (b_items b)"
  using idx_ok_distinct [of b] by (simp add: b_map_def dom_map_of_conv_image_fst distinct_card [symmetric] del: set_map) (metis distinct_card length_map set_map)


lemma b_map_nth: "idx_ok b \<Longrightarrow> b_map b w = Some q \<longleftrightarrow> (\<exists>k < length (b_items b). b_items b ! k = (w, q))"
  by (auto simp: b_map_Some in_set_conv_nth)

lemma oldest_min:
  assumes "idx_ok b" "heap_ex (b_items b) (length (b_items b)) {}" "b_map b w = Some q"
  shows "snd (b_items b ! 0) \<le> q"
proof -
  obtain k where k: "k < length (b_items b)" "b_items b ! k = (w, q)" 
    using assms(3) b_map_nth [OF assms(1), of w q] by auto
  show ?thesis using root_min [OF assms(2) k(1)] k(2) by (simp add: pr_def)
qed

lemma Upsert_evict:
  assumes inv: "bucket_inv b" and "1 \<le> b_capacity b" "b_index b v = None" "b_capacity b \<le> int (length (b_items b))"
    and "expired (b_items b ! 0) now"
  shows "\<exists>b'. Upsert now v p b = (b', True) \<and> bucket_inv b'
    \<and> (\<exists>w q. b_map b w = Some q \<and> q < now \<and> (\<forall>w' q'. b_map b w' = Some q' \<longrightarrow> q \<le> q') \<and> b_map b' = ((b_map b)(w := None))(v \<mapsto> p))"
proof -
  have ok: "idx_ok b" and h: "heap_ex (b_items b) (length (b_items b)) {}" and len: "int (length (b_items b)) \<le> b_capacity b"
    using inv assms(2,4) by (auto simp: bucket_inv_def)
  have ne: "b_items b \<noteq> []" using assms(2,4) by auto
  let ?w = "fst (b_items b ! 0)" and ?q = "snd (b_items b ! 0)"
  let ?b1 = "(heap_pop b)\<lparr>b_index := (b_index (heap_pop b))(?w := None)\<rparr>"
  note P = pop_correct [OF ok h ne]
  have wq: "b_map b ?w = Some ?q" using b_map_nth [OF ok, of ?w ?q] ne by (auto intro!: exI [of _ 0])
  have "b_index ?b1 v = None" using b_map_dom [OF ok] b_map_dom [OF P(1)] P(4) assms(3) by (metis domIff fun_upd_apply)
  note Q = push_correct [OF P(1,2) this, where p = p]
  have "Upsert now v p b = (heap_push (v, p) ?b1, True)"
    using assms(2-5) by (simp add: Upsert_def Let_def)
  moreover have "bucket_inv (heap_push (v, p) ?b1)"
    using Q(1,2,4,5) P(3,5) len by (auto simp: bucket_inv_def)
  moreover have "b_map (heap_push (v, p) ?b1) = ((b_map b)(?w := None))(v \<mapsto> p)" using Q(3) P(4) by simp
  ultimately show ?thesis using wq oldest_min [OF ok h] assms(5) by (intro exI [of _ "heap_push (v, p) ?b1"]) (auto simp: expired_def)
qed

lemma Upsert_correct:
  assumes "bucket_inv b" "Upsert now v p b = (b', ok)"
  shows "bucket_inv b' \<and> upsert_spec (b_capacity b) now v p (b_map b) (b_map b') ok"
proof -
  have I: "idx_ok b" and h: "heap_ex (b_items b) (length (b_items b)) {}" using assms(1) by (auto simp: bucket_inv_def)
  note card = card_b_map [OF I] and dm = b_map_dom [OF I]
  show ?thesis
  proof (cases "b_capacity b < 1")
    case True
    then show ?thesis using assms by (simp add: Upsert_def upsert_spec_def)
  next
    case cap: False
    show ?thesis
    proof (cases "b_index b v")
      case (Some i)
      have i: "i < length (b_items b)" "fst (b_items b ! i) = v" using I Some by (auto simp: idx_ok_def)
      note F = fix_correct [OF I h i(1) refl, where p = p]
      have "b' = items_update i p b" "ok" using assms(2) cap Some by (auto simp: Upsert_def)
      moreover have "v \<in> dom (b_map b)" using Some dm by auto
      ultimately show ?thesis using F i(2) assms(1) cap by (auto simp: bucket_inv_def upsert_spec_def)
    next
      case None
      have nd: "v \<notin> dom (b_map b)" using None dm by auto
      show ?thesis
      proof (cases "int (length (b_items b)) < b_capacity b")
        case True
        note P = push_correct [OF I h None, where p = p]
        have "b' = heap_push (v, p) b" "ok" using assms(2) cap None True by (auto simp: Upsert_def)
        then show ?thesis using P cap True card by (auto simp: bucket_inv_def upsert_spec_def)
      next
        case full: False
        show ?thesis
        proof (cases "expired (b_items b ! 0) now")
          case True
          then show ?thesis using Upsert_evict [OF assms(1) _ None _ True, where p = p] assms(2) cap full card nd
            by (fastforce simp: upsert_spec_def)
        next
          case False
          have "\<not> (\<exists>w q. b_map b w = Some q \<and> q < now)" using oldest_min [OF I h] False by (fastforce simp: expired_def)
          then show ?thesis using False assms cap full None card nd by (auto simp: Upsert_def upsert_spec_def Let_def)
        qed
      qed
    qed
  qed
qed

lemma Upsert_capacity:
  assumes "bucket_inv b" shows "b_capacity (fst (Upsert now v p b)) = b_capacity b"
proof -
  have I: "idx_ok b" and h: "heap_ex (b_items b) (length (b_items b)) {}" using assms by (auto simp: bucket_inv_def)
  have up: "b_capacity (items_update i p b) = b_capacity b" if "b_index b v = Some i" for i
    using that I by (intro fix_correct(5) [OF I h _ refl]) (simp add: idx_ok_def)
  have push: "b_capacity (heap_push x c) = b_capacity c" for x and c :: "'a bucket"
  proof -
    have "like (items_Push x c) (heap_push x c)"
      unfolding heap_push_def Let_def by (rule like_heap_up) (simp add: items_Push_def)
    then show ?thesis by (simp add: like_def items_Push_def)
  qed
  have pop: "b_capacity (heap_pop b) = b_capacity b" if "b_items b \<noteq> []"
    using pop_correct(5) [OF I h that] by simp
  show ?thesis using up push pop by (cases "b_items b = []") (auto simp: Upsert_def Let_def split: option.splits)
qed

text \<open>
  C19: the bucket of the limiter implements a bounded map from values to times: a known value gets its
  new time; a new one is added while there is room; when the bucket is full, a value with the
  earliest time makes place for it if that time has passed, and otherwise the new value is refused.
  The heap order, the index and the bound are kept.
\<close>

theorem Upsert_refines:
  assumes "bucket_inv b" "Upsert now v p b = (b', ok)"
  shows "bucket_inv b' \<and> upsert_spec (b_capacity b) now v p (b_map b) (b_map b') ok"
  by (rule Upsert_correct [OF assms])

lemma bucket_inv_new: "bucket_inv (NewBucket c)"
  by (simp add: bucket_inv_def NewBucket_def heap_ex_def idx_ok_def)

definition sample_bucket :: "char bucket" where
  "sample_bucket = fst (Upsert 0 CHR ''c'' 4 (fst (Upsert 0 CHR ''b'' 10 (fst (Upsert 0 CHR ''a'' 1 (NewBucket 3))))))"

lemma sample_bucket_eq: "sample_bucket = \<lparr>b_items = [(CHR ''a'', 1), (CHR ''b'', 10), (CHR ''c'', 4)],
    b_index = [CHR ''a'' \<mapsto> 0, CHR ''b'' \<mapsto> 1, CHR ''c'' \<mapsto> 2], b_capacity = 3\<rparr>"
  by (simp add: sample_bucket_def Upsert_def NewBucket_def heap_push_def items_Push_def heap_up.simps items_Less_def numeral_2_eq_2)

lemma sample_bucket_inv: "bucket_inv sample_bucket"
  unfolding sample_bucket_def
  by (rule Upsert_correct [THEN conjunct1, OF _ surjective_pairing] bucket_inv_new)+

theorem Upsert_refines_witness:
  "upsert_spec 3 5 CHR ''d'' 20 [CHR ''a'' \<mapsto> 1, CHR ''b'' \<mapsto> 10, CHR ''c'' \<mapsto> 4] [CHR ''b'' \<mapsto> 10, CHR ''c'' \<mapsto> 4, CHR ''d'' \<mapsto> 20] True"
proof -
  let ?r = "Upsert 5 CHR ''d'' 20 sample_bucket"
  have "b_map sample_bucket = [CHR ''a'' \<mapsto> 1, CHR ''b'' \<mapsto> 10, CHR ''c'' \<mapsto> 4]" by (auto simp: b_map_def sample_bucket_eq fun_eq_iff)
  moreover have "b_map (fst ?r) = [CHR ''b'' \<mapsto> 10, CHR ''c'' \<mapsto> 4, CHR ''d'' \<mapsto> 20]" "snd ?r"
    by (auto simp: sample_bucket_eq b_map_def Upsert_def expired_def heap_pop_def items_Swap_def heap_down.simps heap_up.simps small_kid_def
        items_Less_def items_Pop_def heap_push_def items_Push_def Let_def fun_eq_iff numeral_2_eq_2)
  moreover have "b_capacity sample_bucket = 3" by (simp add: sample_bucket_eq)
  ultimately show ?thesis using Upsert_refines [OF sample_bucket_inv, of 5 "CHR ''d''" 20 "fst ?r" True]
    by (simp add: prod_eq_iff)
qed

text \<open>
  A bucket can be declared stale while it holds a value that has not expired: the test looks at
  the last position of the heap, which need not hold the latest time.
\<close>

theorem IsStale_premature:
  "bucket_inv sample_bucket \<and> IsStale 5 sample_bucket \<and> b_map sample_bucket (CHR ''b'') = Some 10"
  using sample_bucket_inv by (simp add: sample_bucket_eq IsStale_def expired_def b_map_def)

end
