(* ===== verification/Store.thy ===== *)
theory Store
  imports Alert Limit_Bucket
begin

text \<open>
  The in-memory store of alerts, \<^verbatim>\<open>store/store.go\<close>, keyed by fingerprint, with a limiter bucket for
  each alert name. A range over a map visits its keys in some order, which is an argument, as is
  each reading of the clock. The callback of a garbage collection is applied by the caller, to
  the alerts the collection returns.
\<close>

section \<open>The store and its operations\<close>

datatype store_error = ErrLimited | ErrNotFoundAlert | ErrDestroyed

record alert_store =
  as_alerts :: "fingerprint \<rightharpoonup> alert"
  as_limits :: "string \<rightharpoonup> fingerprint bucket"
  as_perAlertLimit :: int
  as_destroyed :: bool

definition NewAlerts :: alert_store where
  "NewAlerts = \<lparr>as_alerts = Map.empty, as_limits = Map.empty, as_perAlertLimit = 0, as_destroyed = False\<rparr>"

definition WithPerAlertLimit :: "int \<Rightarrow> alert_store \<Rightarrow> alert_store" where
  "WithPerAlertLimit lim s = s\<lparr>as_limits := Map.empty, as_perAlertLimit := lim\<rparr>"

definition Get_alert :: "fingerprint \<Rightarrow> alert_store \<Rightarrow> store_error + alert" where
  "Get_alert fp s = (case as_alerts s fp of None \<Rightarrow> Inl ErrNotFoundAlert | Some a \<Rightarrow> Inr a)"

definition Set_alert :: "alert_env \<Rightarrow> time \<Rightarrow> alert \<Rightarrow> alert_store \<Rightarrow> alert_store \<times> store_error option" where
  "Set_alert A now a s =
     (if as_destroyed s then (s, Some ErrDestroyed)
      else (let fp = Fingerprint A a; name = ae_name A (al_labels a) in
        if 0 < as_perAlertLimit s then
          (let bucket = (case as_limits s name of Some b \<Rightarrow> b | None \<Rightarrow> NewBucket (as_perAlertLimit s));
               (bucket', ok) = Upsert now fp (al_endsAt a) bucket;
               s1 = s\<lparr>as_limits := (as_limits s)(name \<mapsto> bucket')\<rparr>
           in if \<not> ok then (s1, Some ErrLimited)
              else (s1\<lparr>as_alerts := (as_alerts s1)(fp \<mapsto> a)\<rparr>, None))
        else (s\<lparr>as_alerts := (as_alerts s)(fp \<mapsto> a)\<rparr>, None)))"

text \<open>The loops of a garbage collection, over the keys in the order of the visit.\<close>

fun gc_alerts_loop :: "alert_env \<Rightarrow> (fingerprint \<Rightarrow> time) \<Rightarrow> fingerprint list \<Rightarrow> (fingerprint \<rightharpoonup> alert) \<Rightarrow> (fingerprint \<rightharpoonup> alert) \<times> alert list" where
  "gc_alerts_loop A clk [] m = (m, [])"
| "gc_alerts_loop A clk (fp # fps) m = (case m fp of
     None \<Rightarrow> gc_alerts_loop A clk fps m
   | Some a \<Rightarrow>
       if ResolvedAt A a (clk fp) then
         (let (m', deleted) = gc_alerts_loop A clk fps (m(fp := None)) in (m', a # deleted))
       else gc_alerts_loop A clk fps m)"

definition gcAlerts :: "alert_env \<Rightarrow> (fingerprint \<Rightarrow> time) \<Rightarrow> fingerprint list \<Rightarrow> alert_store \<Rightarrow> alert_store \<times> alert list" where
  "gcAlerts A clk visit s =
     (let (m, deleted) = gc_alerts_loop A clk visit (as_alerts s) in (s\<lparr>as_alerts := m\<rparr>, deleted))"

definition gcLimitBuckets :: "(string \<Rightarrow> time) \<Rightarrow> alert_store \<Rightarrow> alert_store" where
  "gcLimitBuckets clk s = s\<lparr>as_limits := (\<lambda>n. case as_limits s n of
     None \<Rightarrow> None
   | Some b \<Rightarrow> if IsStale (clk n) b then None else Some b)\<rparr>"

definition GC_store ::
  "alert_env \<Rightarrow> (string \<Rightarrow> time) \<Rightarrow> (fingerprint \<Rightarrow> time) \<Rightarrow> fingerprint list \<Rightarrow> alert_store \<Rightarrow> alert_store \<times> alert list" where
  "GC_store A lclk clk visit s = gcAlerts A clk visit (gcLimitBuckets lclk s)"

definition delete_if_same :: "alert_env \<Rightarrow> alert \<Rightarrow> (fingerprint \<rightharpoonup> alert) \<Rightarrow> (fingerprint \<rightharpoonup> alert)" where
  "delete_if_same A a m = (case m (Fingerprint A a) of
     Some other \<Rightarrow> if al_updatedAt a = al_updatedAt other then m(Fingerprint A a := None) else m
   | None \<Rightarrow> m)"

definition DeleteIfNotModified :: "alert_env \<Rightarrow> alert list \<Rightarrow> bool \<Rightarrow> alert_store \<Rightarrow> alert_store" where
  "DeleteIfNotModified A as destroyIfEmpty s =
     (let s1 = s\<lparr>as_alerts := fold (delete_if_same A) as (as_alerts s)\<rparr>
      in if dom (as_alerts s1) = {} \<and> destroyIfEmpty then s1\<lparr>as_destroyed := True\<rparr> else s1)"

definition List_alerts :: "fingerprint list \<Rightarrow> alert_store \<Rightarrow> alert list" where
  "List_alerts visit s = List.map_filter (as_alerts s) visit"

definition Empty_store :: "alert_store \<Rightarrow> bool" where
  "Empty_store s \<longleftrightarrow> dom (as_alerts s) = {}"

definition Destroyed :: "alert_store \<Rightarrow> bool" where
  "Destroyed s = as_destroyed s"

definition Len_store :: "alert_store \<Rightarrow> nat" where
  "Len_store s = card (dom (as_alerts s))"

section \<open>Garbage collection\<close>

lemma gc_alerts_loop_spec:
  "distinct fps \<Longrightarrow> gc_alerts_loop A clk fps m = (m', deleted) \<Longrightarrow>
     m' = (\<lambda>fp. if fp \<in> set fps \<and> (\<exists>a. m fp = Some a \<and> ResolvedAt A a (clk fp)) then None else m fp)
     \<and> set deleted = {a. \<exists>fp \<in> set fps. m fp = Some a \<and> ResolvedAt A a (clk fp)}"
proof (induction fps arbitrary: m m' deleted)
  case (Cons fp fps)
  show ?case
  proof (cases "\<exists>a. m fp = Some a \<and> ResolvedAt A a (clk fp)")
    case False
    then have "gc_alerts_loop A clk fps m = (m', deleted)" using Cons.prems(2) by (auto split: option.splits)
    from Cons.IH [OF _ this] Cons.prems(1) False show ?thesis by (auto simp: fun_eq_iff)
  next
    case True
    then obtain a where a: "m fp = Some a" "ResolvedAt A a (clk fp)" by blast
    obtain d where d: "gc_alerts_loop A clk fps (m(fp := None)) = (m', d)" "deleted = a # d"
      using Cons.prems(2) a by (auto split: prod.splits)
    from Cons.IH [OF _ d(1)] Cons.prems(1) a d(2) show ?thesis by (auto simp: fun_eq_iff)
  qed
qed auto

text \<open>
  A garbage collection of the store removes exactly the alerts that are resolved when they are
  looked at, and returns exactly these to the callback.
\<close>

theorem gcAlerts_exact:
  assumes "distinct visit" "set visit = dom (as_alerts s)" "gcAlerts A clk visit s = (s', deleted)"
  shows "as_alerts s' = (\<lambda>fp. case as_alerts s fp of None \<Rightarrow> None | Some a \<Rightarrow> if ResolvedAt A a (clk fp) then None else Some a)
    \<and> set deleted = {a. \<exists>fp. as_alerts s fp = Some a \<and> ResolvedAt A a (clk fp)}"
proof -
  obtain m where m: "gc_alerts_loop A clk visit (as_alerts s) = (m, deleted)" "as_alerts s' = m"
    using assms(3) by (auto simp: gcAlerts_def split: prod.splits)
  show ?thesis using gc_alerts_loop_spec [OF assms(1) m(1)] m(2) assms(2)
    by (auto simp: fun_eq_iff split: option.splits)
qed

section \<open>Deleting what was flushed\<close>

text \<open>The alerts of one flush have different fingerprints.\<close>

lemma delete_fold:
  "distinct (map (Fingerprint A) as) \<Longrightarrow> fold (delete_if_same A) as m fp =
     (if \<exists>a \<in> set as. Fingerprint A a = fp \<and> (\<exists>o'. m fp = Some o' \<and> al_updatedAt a = al_updatedAt o') then None else m fp)"
proof (induction as arbitrary: m)
  case (Cons a as)
  have "delete_if_same A a m fp = (if Fingerprint A a = fp \<and> (\<exists>o'. m fp = Some o' \<and> al_updatedAt a = al_updatedAt o') then None else m fp)"
    by (auto simp: delete_if_same_def split: option.splits)
  moreover have "fp \<notin> Fingerprint A ` set as" if "Fingerprint A a = fp" using Cons.prems that by auto
  ultimately show ?case using Cons.IH [of "delete_if_same A a m"] Cons.prems by (auto simp: image_iff)
qed simp

text \<open>
  After a flush the store deletes an alert only if it is still the version that was flushed; an
  alert that was updated in the meantime stays. The store is destroyed only when it is empty, and a
  destroyed store accepts no alert any more.
\<close>

theorem DeleteIfNotModified_safe:
  assumes "distinct (map (Fingerprint A) as)" "s' = DeleteIfNotModified A as flag s"
  shows "(\<forall>fp. as_alerts s' fp = (if \<exists>a \<in> set as. Fingerprint A a = fp \<and> (\<exists>o'. as_alerts s fp = Some o' \<and> al_updatedAt a = al_updatedAt o')
            then None else as_alerts s fp))
    \<and> (as_destroyed s' \<longleftrightarrow> as_destroyed s \<or> Empty_store s' \<and> flag)
    \<and> (as_destroyed s' \<longrightarrow> (\<forall>now a. Set_alert A now a s' = (s', Some ErrDestroyed)))"
proof -
  have st: "as_alerts s' = fold (delete_if_same A) as (as_alerts s)"
    by (simp add: assms(2) DeleteIfNotModified_def Let_def)
  have "as_destroyed s' \<longleftrightarrow> as_destroyed s \<or> Empty_store s' \<and> flag"
    by (auto simp: assms(2) DeleteIfNotModified_def Let_def Empty_store_def)
  then show ?thesis unfolding st delete_fold [OF assms(1)] by (simp add: Set_alert_def)
qed

theorem DeleteIfNotModified_safe_witness:
  "as_alerts (DeleteIfNotModified sample_alert_env [sample_alert 1 2 3] True (NewAlerts\<lparr>as_alerts := [0 \<mapsto> sample_alert 1 5 4]\<rparr>)) 0 =
     Some (sample_alert 1 5 4)
   \<and> as_destroyed (DeleteIfNotModified sample_alert_env [sample_alert 1 2 4] True (NewAlerts\<lparr>as_alerts := [0 \<mapsto> sample_alert 1 5 4]\<rparr>))"
  using DeleteIfNotModified_safe [of sample_alert_env "[sample_alert 1 2 3]" _ True "NewAlerts\<lparr>as_alerts := [0 \<mapsto> sample_alert 1 5 4]\<rparr>", OF _ refl]
    DeleteIfNotModified_safe [of sample_alert_env "[sample_alert 1 2 4]" _ True "NewAlerts\<lparr>as_alerts := [0 \<mapsto> sample_alert 1 5 4]\<rparr>", OF _ refl]
  by (auto simp: sample_alert_env_def sample_alert_def NewAlerts_def label_get_def Empty_store_def DeleteIfNotModified_def delete_if_same_def Let_def)

theorem gcAlerts_exact_witness:
  "as_alerts (fst (gcAlerts sample_alert_env (\<lambda>_. 50) [0] (NewAlerts\<lparr>as_alerts := [0 \<mapsto> sample_alert 1 5 4]\<rparr>))) 0 = None"
proof -
  let ?s = "NewAlerts\<lparr>as_alerts := [0 \<mapsto> sample_alert 1 5 4]\<rparr>"
  have "gcAlerts sample_alert_env (\<lambda>_. 50) [0] ?s = (fst (gcAlerts sample_alert_env (\<lambda>_. 50) [0] ?s), snd (gcAlerts sample_alert_env (\<lambda>_. 50) [0] ?s))"
    by simp
  from gcAlerts_exact [OF _ _ this] show ?thesis
    by (simp add: sample_alert_env_def sample_alert_def zero_time_def)
qed

section \<open>The limit on alerts of one name\<close>

definition live_named :: "alert_env \<Rightarrow> time \<Rightarrow> alert_store \<Rightarrow> string \<Rightarrow> fingerprint set" where
  "live_named A now s n = {fp. \<exists>a. as_alerts s fp = Some a \<and> ae_name A (al_labels a) = n \<and> now \<le> al_endsAt a}"

text \<open>Every stored alert whose end has not passed counts in the bucket of its name.\<close>

definition limit_inv :: "alert_env \<Rightarrow> int \<Rightarrow> time \<Rightarrow> alert_store \<Rightarrow> bool" where
  "limit_inv A k now s \<longleftrightarrow> 0 < k \<and> as_perAlertLimit s = k
     \<and> (\<forall>n b. as_limits s n = Some b \<longrightarrow> bucket_inv b \<and> b_capacity b = k)
     \<and> (\<forall>fp a. as_alerts s fp = Some a \<longrightarrow> now \<le> al_endsAt a \<longrightarrow>
          (\<exists>b. as_limits s (ae_name A (al_labels a)) = Some b \<and> b_map b fp = Some (al_endsAt a)))"

lemma limit_inv_new: "0 < k \<Longrightarrow> limit_inv A k now (WithPerAlertLimit k NewAlerts)"
  by (simp add: limit_inv_def WithPerAlertLimit_def NewAlerts_def)

lemma limit_inv_later: "limit_inv A k now s \<Longrightarrow> now \<le> now' \<Longrightarrow> limit_inv A k now' s"
  unfolding limit_inv_def by (meson order_trans)

lemma limit_inv_card:
  assumes "limit_inv A k now s"
  shows "int (card (live_named A now s n)) \<le> k"
proof (cases "as_limits s n")
  case None
  then have "live_named A now s n = {}" using assms by (fastforce simp: live_named_def limit_inv_def)
  then show ?thesis using assms by (simp add: limit_inv_def)
next
  case (Some b)
  have b: "bucket_inv b" "b_capacity b = k" using assms Some by (auto simp: limit_inv_def)
  have "live_named A now s n \<subseteq> dom (b_map b)" using assms Some by (fastforce simp: live_named_def limit_inv_def)
  moreover have "finite (dom (b_map b))" by (simp add: b_map_def finite_dom_map_of)
  ultimately have "card (live_named A now s n) \<le> card (dom (b_map b))" by (rule card_mono [rotated])
  also have "\<dots> = length (b_items b)" using b(1) by (intro card_b_map) (simp add: bucket_inv_def)
  finally show ?thesis using b assms by (auto simp: bucket_inv_def limit_inv_def)
qed

lemma upsert_spec_keeps:
  "upsert_spec cap now v p m m' ok \<Longrightarrow> m w = Some q \<Longrightarrow> now \<le> q \<Longrightarrow> w \<noteq> v \<Longrightarrow> m' w = Some q"
  by (auto simp: upsert_spec_def split: if_splits)

lemma upsert_spec_cases:
  "upsert_spec cap now v p m m' ok \<Longrightarrow> (if ok then m' v = Some p else m' = m)"
  by (auto simp: upsert_spec_def split: if_splits)

lemma Set_alert_limit:
  assumes inv: "limit_inv A k now s" and tm: "now \<le> now'"
  shows "limit_inv A k now' (fst (Set_alert A now' a s))"
proof (cases "as_destroyed s")
  case True
  then show ?thesis using limit_inv_later [OF inv tm] by (simp add: Set_alert_def)
next
  case False
  note I = limit_inv_later [OF inv tm]
  have k: "0 < k" "as_perAlertLimit s = k" using inv by (auto simp: limit_inv_def)
  let ?n = "ae_name A (al_labels a)" and ?fp = "Fingerprint A a"
  let ?b = "case as_limits s ?n of Some b \<Rightarrow> b | None \<Rightarrow> NewBucket (as_perAlertLimit s)"
  obtain b' ok where u: "Upsert now' ?fp (al_endsAt a) ?b = (b', ok)" by (metis surj_pair)
  have b: "bucket_inv ?b" "b_capacity ?b = k"
    using inv by (auto simp: limit_inv_def bucket_inv_new NewBucket_def split: option.splits) (simp add: bucket_inv_new [unfolded NewBucket_def])
  have b': "bucket_inv b'" "upsert_spec k now' ?fp (al_endsAt a) (b_map ?b) (b_map b') ok" "b_capacity b' = k"
    using Upsert_correct [OF b(1) u] Upsert_capacity [OF b(1), of now' ?fp "al_endsAt a"] b(2) u by auto
  have old: "\<exists>b. ((as_limits s)(?n \<mapsto> b')) (ae_name A (al_labels x)) = Some b \<and> b_map b fp = Some (al_endsAt x)"
    if x: "as_alerts s fp = Some x" "now' \<le> al_endsAt x" "fp \<noteq> ?fp \<or> \<not> ok" for fp x
  proof -
    obtain c where c: "as_limits s (ae_name A (al_labels x)) = Some c" "b_map c fp = Some (al_endsAt x)"
      using I x(1,2) unfolding limit_inv_def by blast
    show ?thesis
    proof (cases "ae_name A (al_labels x) = ?n")
      case True
      then have "b_map ?b fp = Some (al_endsAt x)" using c by simp
      then have "b_map b' fp = Some (al_endsAt x)"
        using upsert_spec_keeps [OF b'(2) _ x(2)] upsert_spec_cases [OF b'(2)] x(3) by (auto split: if_splits)
      then show ?thesis using True by simp
    qed (use c in simp)
  qed
  have lim: "bucket_inv c \<and> b_capacity c = k" if "((as_limits s)(?n \<mapsto> b')) n = Some c" for n c
    using that b' inv by (auto simp: limit_inv_def split: if_splits)
  show ?thesis
  proof (cases ok)
    case True
    have r: "fst (Set_alert A now' a s) = s\<lparr>as_limits := (as_limits s)(?n \<mapsto> b'), as_alerts := (as_alerts s)(?fp \<mapsto> a)\<rparr>"
      using False k u True by (simp add: Set_alert_def Let_def)
    have "b_map b' ?fp = Some (al_endsAt a)" using upsert_spec_cases [OF b'(2)] True by simp
    then show ?thesis unfolding r limit_inv_def using k lim old by auto
  next
    case not_ok: False
    have r: "fst (Set_alert A now' a s) = s\<lparr>as_limits := (as_limits s)(?n \<mapsto> b')\<rparr>"
      using False k u not_ok by (simp add: Set_alert_def Let_def)
    then show ?thesis unfolding r limit_inv_def using k lim old not_ok by auto
  qed
qed

text \<open>
  C35: as long as no bucket is collected, the store never holds more alerts of one name whose end has
  not passed than the limit allows, whatever alerts it is given as time goes on.
\<close>

theorem Set_alert_respects_limit:
  assumes "limit_inv A k now s" "now \<le> now'"
  shows "limit_inv A k now' (fst (Set_alert A now' a s)) \<and> int (card (live_named A now' (fst (Set_alert A now' a s)) n)) \<le> k"
  using Set_alert_limit [OF assms] limit_inv_card by blast

theorem Set_alert_respects_limit_witness:
  "int (card (live_named sample_alert_env 5 (fst (Set_alert sample_alert_env 5 (sample_alert 1 20 4) (WithPerAlertLimit 2 NewAlerts))) ''x'')) \<le> 2"
  using Set_alert_respects_limit [OF limit_inv_new, of 2 5 5 sample_alert_env "sample_alert 1 20 4" "''x''"] by simp

text \<open>A run in which a bucket is collected too early: three alerts with the ends 1, 10 and 4, a
  collection at 5, and three more alerts.\<close>

definition inst_alert :: "nat \<Rightarrow> time \<Rightarrow> alert" where
  "inst_alert n e = (sample_alert 0 e 0)\<lparr>al_labels := [''alertname'' \<mapsto> ''x'', ''instance'' \<mapsto> replicate n (CHR ''i'')]\<rparr>"

definition set_all :: "time \<Rightarrow> (nat \<times> time) list \<Rightarrow> alert_store \<Rightarrow> alert_store" where
  "set_all now nes s = fold (\<lambda>(n, e) s. fst (Set_alert sample_alert_env now (inst_alert n e) s)) nes s"

definition early_run :: alert_store where
  "early_run = set_all 6 [(4, 20), (5, 20), (6, 20)]
     (fst (GC_store sample_alert_env (\<lambda>_. 5) (\<lambda>_. 5) [7, 8, 9] (set_all 0 [(7, 1), (8, 10), (9, 4)] (WithPerAlertLimit 3 NewAlerts))))"

lemmas bucket_eval = Upsert_def NewBucket_def heap_push_def items_Push_def heap_up.simps items_Less_def numeral_2_eq_2
  IsStale_def expired_def

lemma inst_alert_simps:
  "Fingerprint sample_alert_env (inst_alert n e) = n" "ae_name sample_alert_env (al_labels (inst_alert n e)) = ''x''"
  "al_endsAt (inst_alert n e) = e" "ae_resolvedAt sample_alert_env e t = (e \<noteq> zero_time \<and> e \<le> t)"
  by (simp_all add: inst_alert_def sample_alert_env_def label_get_def sample_alert_def)

lemma early_run_first: "set_all 0 [(7, 1), (8, 10), (9, 4)] (WithPerAlertLimit 3 NewAlerts) =
  \<lparr>as_alerts = [7 \<mapsto> inst_alert 7 1, 8 \<mapsto> inst_alert 8 10, 9 \<mapsto> inst_alert 9 4],
   as_limits = [''x'' \<mapsto> \<lparr>b_items = [(7, 1), (8, 10), (9, 4)], b_index = [7 \<mapsto> 0, 8 \<mapsto> 1, 9 \<mapsto> 2], b_capacity = 3\<rparr>],
   as_perAlertLimit = 3, as_destroyed = False\<rparr>"
  by (simp add: set_all_def Set_alert_def WithPerAlertLimit_def NewAlerts_def inst_alert_simps bucket_eval)

lemma early_run_gc: "fst (GC_store sample_alert_env (\<lambda>_. 5) (\<lambda>_. 5) [7, 8, 9] (set_all 0 [(7, 1), (8, 10), (9, 4)] (WithPerAlertLimit 3 NewAlerts))) =
  \<lparr>as_alerts = [8 \<mapsto> inst_alert 8 10], as_limits = Map.empty, as_perAlertLimit = 3, as_destroyed = False\<rparr>"
  unfolding early_run_first by (simp add: GC_store_def gcAlerts_def gcLimitBuckets_def inst_alert_simps zero_time_def bucket_eval fun_eq_iff)

text \<open>
  C40: a garbage collection can drop the bucket of a name while alerts of that name have not ended;
  afterwards the store takes in more of them than the limit allows: four, where the limit is three.
\<close>

theorem limit_exceeded_after_gc:
  "as_perAlertLimit early_run = 3 \<and> card (live_named sample_alert_env 6 early_run ''x'') = 4"
proof -
  have e: "as_alerts early_run = [8 \<mapsto> inst_alert 8 10, 4 \<mapsto> inst_alert 4 20, 5 \<mapsto> inst_alert 5 20, 6 \<mapsto> inst_alert 6 20]"
    "as_perAlertLimit early_run = 3"
    unfolding early_run_def early_run_gc by (simp_all add: set_all_def Set_alert_def inst_alert_simps bucket_eval)
  have "live_named sample_alert_env 6 early_run ''x'' = {8, 4, 5, 6}"
    by (auto simp: live_named_def e inst_alert_simps)
  then show ?thesis using e by simp
qed

end
