(* ===== verification/Inhibit.thy ===== *)
theory Inhibit
  imports Labels Store
begin

text \<open>
  Inhibition, \<^verbatim>\<open>inhibit/inhibit.go\<close> and \<^verbatim>\<open>inhibit/index.go\<close>: an alert is muted while another alert, the
  source of a rule, fires and agrees with it on the rule's labels. Each rule caches its source
  alerts in a store and indexes them by the fingerprint of their labels that must agree; the index
  holds one source for each such fingerprint.
\<close>

section \<open>Rules\<close>

record inhibit_rule_config =
  icr_name :: string
  icr_sourceMatch :: "(string \<times> string) list"
  icr_sourceMatchRE :: "(string \<times> string) list"
  icr_sourceMatchers :: matchers
  icr_targetMatch :: "(string \<times> string) list"
  icr_targetMatchRE :: "(string \<times> string) list"
  icr_targetMatchers :: matchers
  icr_equal :: "string list"

record inhibit_rule =
  ir_name :: string
  ir_source :: matchers
  ir_target :: matchers
  ir_equal :: "string set"
  ir_scache :: alert_store
  ir_sindex :: "fingerprint \<rightharpoonup> fingerprint"

text \<open>The matchers of one map of the configuration, in the order of the visit; a matcher that does
  not compile is a panic.\<close>

fun config_matchers :: "regexp_engine \<Rightarrow> match_type \<Rightarrow> (string \<times> string) list \<Rightarrow> matchers option" where
  "config_matchers rx t [] = Some []"
| "config_matchers rx t ((ln, lv) # ps) = (case NewMatcher rx t ln lv of
     None \<Rightarrow> None
   | Some m \<Rightarrow> (case config_matchers rx t ps of None \<Rightarrow> None | Some ms \<Rightarrow> Some (m # ms)))"

definition side_matchers :: "regexp_engine \<Rightarrow> (string \<times> string) list \<Rightarrow> (string \<times> string) list \<Rightarrow> matchers \<Rightarrow> matchers option" where
  "side_matchers rx eqs res ms = (case (config_matchers rx MatchEqual eqs, config_matchers rx MatchRegexp res) of
     (Some a, Some b) \<Rightarrow> Some (a @ b @ ms)
   | _ \<Rightarrow> None)"

definition NewInhibitRule :: "regexp_engine \<Rightarrow> inhibit_rule_config \<Rightarrow> inhibit_rule option" where
  "NewInhibitRule rx cr =
     (case (side_matchers rx (icr_sourceMatch cr) (icr_sourceMatchRE cr) (icr_sourceMatchers cr),
            side_matchers rx (icr_targetMatch cr) (icr_targetMatchRE cr) (icr_targetMatchers cr)) of
        (Some sourcem, Some targetm) \<Rightarrow>
          Some \<lparr>ir_name = icr_name cr, ir_source = sourcem, ir_target = targetm, ir_equal = set (icr_equal cr),
                ir_scache = NewAlerts, ir_sindex = Map.empty\<rparr>
      | _ \<Rightarrow> None)"

definition NewInhibitor :: "regexp_engine \<Rightarrow> inhibit_rule_config list \<Rightarrow> inhibit_rule list option" where
  "NewInhibitor rx crs = those (map (NewInhibitRule rx) crs)"

section \<open>The index of sources\<close>

definition equal_set :: "inhibit_rule \<Rightarrow> labelset \<Rightarrow> labelset" where
  "equal_set r lset = (\<lambda>n. if n \<in> ir_equal r then Some (label_get lset n) else None)"

definition fingerprintEquals :: "alert_env \<Rightarrow> inhibit_rule \<Rightarrow> labelset \<Rightarrow> fingerprint" where
  "fingerprintEquals A r lset = ae_fp A (equal_set r lset)"

definition index_Set :: "fingerprint \<Rightarrow> fingerprint \<Rightarrow> inhibit_rule \<Rightarrow> inhibit_rule" where
  "index_Set key value r = r\<lparr>ir_sindex := (ir_sindex r)(key \<mapsto> value)\<rparr>"

definition index_Delete :: "fingerprint \<Rightarrow> inhibit_rule \<Rightarrow> inhibit_rule" where
  "index_Delete key r = r\<lparr>ir_sindex := (ir_sindex r)(key := None)\<rparr>"

definition updateIndex :: "alert_env \<Rightarrow> alert \<Rightarrow> inhibit_rule \<Rightarrow> inhibit_rule" where
  "updateIndex A a r =
     (let fp = Fingerprint A a; eq = fingerprintEquals A r (al_labels a) in
      case ir_sindex r eq of
        None \<Rightarrow> index_Set eq fp r
      | Some indexed \<Rightarrow>
          if indexed = fp then r
          else (case Get_alert indexed (ir_scache r) of
              Inl _ \<Rightarrow> index_Set eq fp r
            | Inr existing \<Rightarrow> if ResolvedAt A existing (al_endsAt a) then index_Set eq fp r else r))"

definition findEqualSourceAlert :: "alert_env \<Rightarrow> labelset \<Rightarrow> time \<Rightarrow> inhibit_rule \<Rightarrow> alert option" where
  "findEqualSourceAlert A lset now r = (case ir_sindex r (fingerprintEquals A r lset) of
     None \<Rightarrow> None
   | Some sourceFP \<Rightarrow> (case Get_alert sourceFP (ir_scache r) of
       Inl _ \<Rightarrow> None
     | Inr a \<Rightarrow> if ResolvedAt A a now then None else Some a))"

definition gcCallback :: "alert_env \<Rightarrow> alert list \<Rightarrow> inhibit_rule \<Rightarrow> inhibit_rule" where
  "gcCallback A as r = fold (\<lambda>a r. index_Delete (fingerprintEquals A r (al_labels a)) r) as r"

definition hasEqual :: "alert_env \<Rightarrow> labelset \<Rightarrow> bool \<Rightarrow> time \<Rightarrow> inhibit_rule \<Rightarrow> fingerprint option" where
  "hasEqual A lset excludeTwoSidedMatch now r = (case findEqualSourceAlert A lset now r of
     Some equal \<Rightarrow>
       if excludeTwoSidedMatch \<and> matchers_matches (ir_target r) (al_labels equal) then None
       else Some (Fingerprint A equal)
   | None \<Rightarrow> None)"

section \<open>The inhibitor\<close>

text \<open>One rule's part of \<^verbatim>\<open>processAlert\<close>: an alert the cache refuses is not indexed.\<close>

definition process_rule :: "alert_env \<Rightarrow> time \<Rightarrow> alert \<Rightarrow> inhibit_rule \<Rightarrow> inhibit_rule" where
  "process_rule A now a r =
     (if matchers_matches (ir_source r) (al_labels a) then
        (case Set_alert A now a (ir_scache r) of
           (sc, Some _) \<Rightarrow> r\<lparr>ir_scache := sc\<rparr>
         | (sc, None) \<Rightarrow> updateIndex A a (r\<lparr>ir_scache := sc\<rparr>))
      else r)"

definition processAlert :: "alert_env \<Rightarrow> time \<Rightarrow> alert \<Rightarrow> inhibit_rule list \<Rightarrow> inhibit_rule list" where
  "processAlert A now a rules = map (process_rule A now a) rules"

text \<open>A garbage collection of a rule's cache, with its callback.\<close>

definition rule_GC :: "alert_env \<Rightarrow> (string \<Rightarrow> time) \<Rightarrow> (fingerprint \<Rightarrow> time) \<Rightarrow> fingerprint list \<Rightarrow> inhibit_rule \<Rightarrow> inhibit_rule" where
  "rule_GC A lclk clk visit r =
     (let (sc, deleted) = GC_store A lclk clk visit (ir_scache r); r1 = r\<lparr>ir_scache := sc\<rparr>
      in if length deleted > 0 then gcCallback A deleted r1 else r1)"

text \<open>\<^verbatim>\<open>Mutes\<close>: whether the label set is inhibited, and by which alert the marker is set.\<close>

fun Mutes_inhibit :: "alert_env \<Rightarrow> time \<Rightarrow> labelset \<Rightarrow> inhibit_rule list \<Rightarrow> bool \<times> fingerprint list" where
  "Mutes_inhibit A now lset [] = (False, [])"
| "Mutes_inhibit A now lset (r # rs) =
     (if \<not> matchers_matches (ir_target r) lset then Mutes_inhibit A now lset rs
      else (case hasEqual A lset (matchers_matches (ir_source r) lset) now r of
          Some inhibitedByFP \<Rightarrow> (True, [inhibitedByFP])
        | None \<Rightarrow> Mutes_inhibit A now lset rs))"

section \<open>What inhibition means\<close>

declare matchers_matches_iff [simp del]

text \<open>\<open>cur\<close> is the last report of every alert that was received. An alert of \<open>cur\<close> inhibits a label set
  under a rule if it is a source that has not ended, agrees with the label set on the labels of the
  rule, and the two do not both match both sides of the rule.\<close>

definition inhibits :: "alert_env \<Rightarrow> (fingerprint \<rightharpoonup> alert) \<Rightarrow> time \<Rightarrow> labelset \<Rightarrow> inhibit_rule \<Rightarrow> alert \<Rightarrow> bool" where
  "inhibits A cur now lset r a \<longleftrightarrow> matchers_matches (ir_target r) lset
     \<and> cur (Fingerprint A a) = Some a \<and> matchers_matches (ir_source r) (al_labels a) \<and> \<not> ResolvedAt A a now
     \<and> (\<forall>n \<in> ir_equal r. label_get (al_labels a) n = label_get lset n)
     \<and> \<not> (matchers_matches (ir_source r) lset \<and> matchers_matches (ir_target r) (al_labels a))"

lemma equal_set_eq_iff: "equal_set r l = equal_set r l' \<longleftrightarrow> (\<forall>n \<in> ir_equal r. label_get l n = label_get l' n)"
  by (auto simp: equal_set_def fun_eq_iff)

text \<open>Fingerprints do not collide on the label sets \<open>L\<close>, neither whole nor restricted to the rule's labels.\<close>

definition fp_faithful :: "alert_env \<Rightarrow> labelset set \<Rightarrow> inhibit_rule \<Rightarrow> bool" where
  "fp_faithful A L r \<longleftrightarrow> (\<forall>l \<in> L. \<forall>l' \<in> L.
     (ae_fp A l = ae_fp A l' \<longrightarrow> l = l') \<and> (fingerprintEquals A r l = fingerprintEquals A r l' \<longrightarrow> equal_set r l = equal_set r l'))"

text \<open>At most one source of the rule for each choice of the labels that must agree.\<close>

definition unique_sources :: "labelset set \<Rightarrow> inhibit_rule \<Rightarrow> bool" where
  "unique_sources L r \<longleftrightarrow> (\<forall>l \<in> L. \<forall>l' \<in> L. matchers_matches (ir_source r) l \<and> matchers_matches (ir_source r) l'
     \<and> equal_set r l = equal_set r l' \<longrightarrow> l = l')"

section \<open>The running inhibitor\<close>

text \<open>The state: the time, the last report of every alert received, and the rules. Alerts have labels
  from \<open>L\<close>; a garbage collection reads the clock at times that have come.\<close>

inductive inhibitor_run ::
  "alert_env \<Rightarrow> regexp_engine \<Rightarrow> inhibit_rule_config list \<Rightarrow> labelset set \<Rightarrow> time \<Rightarrow> (fingerprint \<rightharpoonup> alert) \<Rightarrow> inhibit_rule list \<Rightarrow> bool"
  for A rx crs L where
  start: "NewInhibitor rx crs = Some rules \<Longrightarrow> inhibitor_run A rx crs L t Map.empty rules"
| tick: "inhibitor_run A rx crs L t cur rules \<Longrightarrow> t \<le> t' \<Longrightarrow> inhibitor_run A rx crs L t' cur rules"
| receive: "inhibitor_run A rx crs L t cur rules \<Longrightarrow> al_labels a \<in> L \<Longrightarrow>
    inhibitor_run A rx crs L t (cur(Fingerprint A a \<mapsto> a)) (processAlert A now a rules)"
| collect: "inhibitor_run A rx crs L t cur rules \<Longrightarrow> i < length rules \<Longrightarrow> distinct visit \<Longrightarrow> (\<And>f. clk f \<le> t) \<Longrightarrow>
    inhibitor_run A rx crs L t cur (rules[i := rule_GC A lclk clk visit (rules ! i)])"

text \<open>The invariant of a rule: its cache holds the last report of every source that has not ended, and
  only last reports of sources; the index leads to cached alerts, and to every cached alert if
  sources are unique.\<close>

definition cache_inv :: "alert_env \<Rightarrow> labelset set \<Rightarrow> time \<Rightarrow> (fingerprint \<rightharpoonup> alert) \<Rightarrow> inhibit_rule \<Rightarrow> bool" where
  "cache_inv A L t cur r \<longleftrightarrow> as_perAlertLimit (ir_scache r) = 0 \<and> \<not> as_destroyed (ir_scache r)
     \<and> (\<forall>f a. as_alerts (ir_scache r) f = Some a \<longrightarrow> cur f = Some a \<and> matchers_matches (ir_source r) (al_labels a))
     \<and> (\<forall>f a. cur f = Some a \<and> matchers_matches (ir_source r) (al_labels a) \<and> \<not> ResolvedAt A a t
          \<longrightarrow> as_alerts (ir_scache r) f = Some a)"

definition index_inv :: "alert_env \<Rightarrow> labelset set \<Rightarrow> inhibit_rule \<Rightarrow> bool" where
  "index_inv A L r \<longleftrightarrow>
     (\<forall>e f. ir_sindex r e = Some f \<longrightarrow> (\<exists>a. as_alerts (ir_scache r) f = Some a \<and> fingerprintEquals A r (al_labels a) = e))
     \<and> (unique_sources L r \<longrightarrow>
          (\<forall>f a. as_alerts (ir_scache r) f = Some a \<longrightarrow> ir_sindex r (fingerprintEquals A r (al_labels a)) = Some f))"

definition cur_inv :: "alert_env \<Rightarrow> labelset set \<Rightarrow> (fingerprint \<rightharpoonup> alert) \<Rightarrow> bool" where
  "cur_inv A L cur \<longleftrightarrow> (\<forall>f a. cur f = Some a \<longrightarrow> Fingerprint A a = f \<and> al_labels a \<in> L)"

definition rule_inv :: "alert_env \<Rightarrow> labelset set \<Rightarrow> time \<Rightarrow> (fingerprint \<rightharpoonup> alert) \<Rightarrow> inhibit_rule \<Rightarrow> bool" where
  "rule_inv A L t cur r \<longleftrightarrow> (fp_faithful A L r \<longrightarrow> cache_inv A L t cur r \<and> index_inv A L r)"

text \<open>The cache and the index of a rule change, the rule does not.\<close>

lemma rule_upd [simp]:
  "fingerprintEquals A (r\<lparr>ir_scache := x\<rparr>) = fingerprintEquals A r"
  "fingerprintEquals A (r\<lparr>ir_sindex := y\<rparr>) = fingerprintEquals A r"
  "fp_faithful A L (r\<lparr>ir_scache := x\<rparr>) = fp_faithful A L r"
  "fp_faithful A L (r\<lparr>ir_sindex := y\<rparr>) = fp_faithful A L r"
  "unique_sources L (r\<lparr>ir_scache := x\<rparr>) = unique_sources L r"
  "unique_sources L (r\<lparr>ir_sindex := y\<rparr>) = unique_sources L r"
  by (simp_all add: fingerprintEquals_def equal_set_def fp_faithful_def unique_sources_def fun_eq_iff)

lemma updateIndex_sindex:
  "updateIndex A a r = r \<or> updateIndex A a r = r\<lparr>ir_sindex := (ir_sindex r)(fingerprintEquals A r (al_labels a) \<mapsto> Fingerprint A a)\<rparr>"
  by (auto simp: updateIndex_def index_Set_def Let_def split: option.splits sum.splits)

lemma updateIndex_lookup:
  "ir_sindex (updateIndex A a r) e = Some f \<Longrightarrow>
     ir_sindex r e = Some f \<or> e = fingerprintEquals A r (al_labels a) \<and> f = Fingerprint A a"
  by (auto simp: updateIndex_def index_Set_def Let_def split: option.splits sum.splits if_splits)

lemma gcCallback_eq:
  "gcCallback A as r = r\<lparr>ir_sindex := (\<lambda>e. if e \<in> (\<lambda>a. fingerprintEquals A r (al_labels a)) ` set as then None else ir_sindex r e)\<rparr>"
  unfolding gcCallback_def
proof (induction as arbitrary: r)
  case (Cons a as)
  show ?case unfolding fold_simps o_apply Cons.IH by (auto simp: index_Delete_def fun_eq_iff)
qed simp

lemma process_rule_source:
  assumes "cache_inv A L t cur r" "matchers_matches (ir_source r) (al_labels a)"
  shows "process_rule A now a r = updateIndex A a (r\<lparr>ir_scache := (ir_scache r)\<lparr>as_alerts := (as_alerts (ir_scache r))(Fingerprint A a \<mapsto> a)\<rparr>\<rparr>)"
proof -
  have "as_perAlertLimit (ir_scache r) = 0" "\<not> as_destroyed (ir_scache r)" using assms(1) unfolding cache_inv_def by blast+
  then show ?thesis using assms(2) by (simp add: process_rule_def Set_alert_def Let_def)
qed

lemma cache_inv_cur: "cache_inv A L t cur r \<Longrightarrow> as_alerts (ir_scache r) f = Some a \<Longrightarrow> cur f = Some a \<and> matchers_matches (ir_source r) (al_labels a)"
  unfolding cache_inv_def by blast

lemma fp_faithful_eq:
  "fp_faithful A L r \<Longrightarrow> l \<in> L \<Longrightarrow> l' \<in> L \<Longrightarrow> ae_fp A l = ae_fp A l' \<Longrightarrow> l = l'"
  "fp_faithful A L r \<Longrightarrow> l \<in> L \<Longrightarrow> l' \<in> L \<Longrightarrow> fingerprintEquals A r l = fingerprintEquals A r l' \<Longrightarrow> equal_set r l = equal_set r l'"
  unfolding fp_faithful_def by blast+

lemma unique_sources_eq:
  "unique_sources L r \<Longrightarrow> l \<in> L \<Longrightarrow> l' \<in> L \<Longrightarrow> matchers_matches (ir_source r) l \<Longrightarrow> matchers_matches (ir_source r) l' \<Longrightarrow>
     equal_set r l = equal_set r l' \<Longrightarrow> l = l'"
  unfolding unique_sources_def by blast

lemma cache_inv_sindex: "cache_inv A L t cur (r\<lparr>ir_sindex := y\<rparr>) = cache_inv A L t cur r"
  by (simp add: cache_inv_def)

lemma cache_inv_live:
  "cache_inv A L t cur r \<Longrightarrow> cur f = Some a \<Longrightarrow> matchers_matches (ir_source r) (al_labels a) \<Longrightarrow> \<not> ResolvedAt A a t \<Longrightarrow>
     as_alerts (ir_scache r) f = Some a"
  unfolding cache_inv_def by blast

lemma cache_inv_flags: "cache_inv A L t cur r \<Longrightarrow> as_perAlertLimit (ir_scache r) = 0 \<and> \<not> as_destroyed (ir_scache r)"
  unfolding cache_inv_def by blast

lemma cache_inv_skip:
  assumes "as_alerts (ir_scache r) f = None" "cache_inv A L t cur r" "\<not> matchers_matches (ir_source r) (al_labels a)"
  shows "cache_inv A L t (cur(f \<mapsto> a)) r"
  unfolding cache_inv_def
proof (intro conjI allI impI, goal_cases)
  case (3 h b) then show ?case using cache_inv_cur [OF assms(2), of h b] assms(1) by auto
next
  case (4 h b) then show ?case using cache_inv_cur [OF assms(2)] by blast
next
  case (5 h b) then show ?case using cache_inv_live [OF assms(2), of h b] assms(3) by (auto split: if_splits)
qed (use cache_inv_flags [OF assms(2)] in simp_all)

lemma cache_inv_put:
  assumes "cache_inv A L t cur r" "matchers_matches (ir_source r) (al_labels a)"
  shows "cache_inv A L t (cur(f \<mapsto> a)) (r\<lparr>ir_scache := (ir_scache r)\<lparr>as_alerts := (as_alerts (ir_scache r))(f \<mapsto> a)\<rparr>\<rparr>)"
  unfolding cache_inv_def
proof (intro conjI allI impI, goal_cases)
  case (3 h b) then show ?case using cache_inv_cur [OF assms(1), of h b] by (auto split: if_splits)
next
  case (4 h b) then show ?case using cache_inv_cur [OF assms(1), of h b] assms(2) by (auto split: if_splits)
next
  case (5 h b) then show ?case using cache_inv_live [OF assms(1), of h b] by (auto split: if_splits)
qed (use cache_inv_flags [OF assms(1)] in simp_all)

text \<open>A new report of a known alert has the labels of the old one.\<close>

lemma same_labels:
  "fp_faithful A L r \<Longrightarrow> cur_inv A L cur \<Longrightarrow> al_labels a \<in> L \<Longrightarrow> cur (Fingerprint A a) = Some b \<Longrightarrow> al_labels b = al_labels a"
  by (meson fp_faithful_eq(1) cur_inv_def)

lemma index_inv_update:
  assumes "fp_faithful A L r" "cache_inv A L t cur r" "index_inv A L r" "cur_inv A L cur" "al_labels a \<in> L"
    and src: "matchers_matches (ir_source r) (al_labels a)"
  shows "index_inv A L (updateIndex A a (r\<lparr>ir_scache := (ir_scache r)\<lparr>as_alerts := (as_alerts (ir_scache r))(Fingerprint A a \<mapsto> a)\<rparr>\<rparr>))"
    (is "index_inv A L (updateIndex A a ?r)")
proof -
  let ?fe = "fingerprintEquals A r"
  have same: "al_labels b = al_labels a" if "as_alerts (ir_scache r) (Fingerprint A a) = Some b" for b
    using same_labels [OF assms(1,4,5)] cache_inv_cur [OF assms(2) that] by blast
  have lead: "\<exists>b. as_alerts (ir_scache ?r) f = Some b \<and> ?fe (al_labels b) = e" if "ir_sindex r e = Some f" for e f
  proof -
    obtain b where "as_alerts (ir_scache r) f = Some b" "?fe (al_labels b) = e" using assms(3) \<open>ir_sindex r e = Some f\<close> by (auto simp: index_inv_def)
    moreover from this have "al_labels b = al_labels a" if "f = Fingerprint A a" using same that by blast
    ultimately show ?thesis by (cases "f = Fingerprint A a") auto
  qed
  have uniq: "f = Fingerprint A a" if "unique_sources L r" "as_alerts (ir_scache r) f = Some b" "?fe (al_labels b) = ?fe (al_labels a)" for f b
  proof -
    have b: "Fingerprint A b = f" "al_labels b \<in> L" "matchers_matches (ir_source r) (al_labels b)"
      using cache_inv_cur [OF assms(2) that(2)] assms(4) by (auto simp: cur_inv_def)
    have "al_labels b = al_labels a"
      by (rule unique_sources_eq [OF that(1) b(2) assms(5) b(3) src fp_faithful_eq(2) [OF assms(1) b(2) assms(5) that(3)]])
    then show ?thesis using b(1) by simp
  qed
  have new: "ir_sindex (updateIndex A a ?r) (?fe (al_labels a)) = Some (Fingerprint A a)" if "unique_sources L r"
  proof (cases "ir_sindex r (?fe (al_labels a))")
    case None
    then show ?thesis by (simp add: updateIndex_def index_Set_def)
  next
    case (Some f)
    obtain b where "as_alerts (ir_scache ?r) f = Some b" "?fe (al_labels b) = ?fe (al_labels a)" using lead [OF Some] by blast
    then have "f = Fingerprint A a" using uniq [OF that, of f b] by (auto split: if_splits)
    then show ?thesis using Some by (simp add: updateIndex_def)
  qed
  have rest: "ir_sindex (updateIndex A a ?r) e = ir_sindex r e" if "e \<noteq> ?fe (al_labels a)" for e
    using updateIndex_sindex [of A a ?r] that by auto
  have sc: "ir_scache (updateIndex A a ?r) = ir_scache ?r" "fingerprintEquals A (updateIndex A a ?r) = ?fe"
      "unique_sources L (updateIndex A a ?r) = unique_sources L r"
    using updateIndex_sindex [of A a ?r] by auto
  show ?thesis unfolding index_inv_def sc
  proof (intro conjI allI impI)
    fix e f assume e: "ir_sindex (updateIndex A a ?r) e = Some f"
    have "ir_sindex r e = Some f \<or> e = ?fe (al_labels a) \<and> f = Fingerprint A a"
      using updateIndex_lookup [OF e] by simp
    then show "\<exists>b. as_alerts (ir_scache ?r) f = Some b \<and> ?fe (al_labels b) = e"
    proof
      assume "ir_sindex r e = Some f"
      then show ?thesis by (rule lead)
    qed simp
  next
    fix f b assume u: "unique_sources L r" and b: "as_alerts (ir_scache ?r) f = Some b"
    show "ir_sindex (updateIndex A a ?r) (?fe (al_labels b)) = Some f"
    proof (cases "f = Fingerprint A a")
      case True
      then show ?thesis using b new [OF u] by simp
    next
      case False
      then have "as_alerts (ir_scache r) f = Some b" using b by simp
      moreover from this have "?fe (al_labels b) \<noteq> ?fe (al_labels a)" using uniq [OF u] False by blast
      ultimately show ?thesis using rest assms(3) u by (simp add: index_inv_def)
    qed
  qed
qed

lemma rule_inv_process:
  assumes "rule_inv A L t cur r" "cur_inv A L cur" "al_labels a \<in> L"
  shows "rule_inv A L t (cur(Fingerprint A a \<mapsto> a)) (process_rule A now a r)"
proof (cases "fp_faithful A L r")
  case True
  then have c: "cache_inv A L t cur r" and i: "index_inv A L r" using assms(1) by (auto simp: rule_inv_def)
  note same = same_labels [OF True assms(2,3)]
  show ?thesis
  proof (cases "matchers_matches (ir_source r) (al_labels a)")
    case False
    then have id: "process_rule A now a r = r" by (simp add: process_rule_def)
    have "as_alerts (ir_scache r) (Fingerprint A a) = None"
    proof (rule ccontr)
      assume "as_alerts (ir_scache r) (Fingerprint A a) \<noteq> None"
      then obtain b where b: "as_alerts (ir_scache r) (Fingerprint A a) = Some b" by blast
      show False using cache_inv_cur [OF c b] same [of b] False by simp
    qed
    then have "cache_inv A L t (cur(Fingerprint A a \<mapsto> a)) r" using c False by (rule cache_inv_skip)
    then show ?thesis using i id by (simp add: rule_inv_def)
  next
    case src: True
    let ?r = "r\<lparr>ir_scache := (ir_scache r)\<lparr>as_alerts := (as_alerts (ir_scache r))(Fingerprint A a \<mapsto> a)\<rparr>\<rparr>"
    have ic: "index_inv A L (updateIndex A a ?r)" using index_inv_update [OF True c i assms(2,3) src] .
    have "cache_inv A L t (cur(Fingerprint A a \<mapsto> a)) ?r" using c src by (rule cache_inv_put)
    then have "cache_inv A L t (cur(Fingerprint A a \<mapsto> a)) (updateIndex A a ?r)"
      using updateIndex_sindex [of A a ?r] cache_inv_sindex by metis
    then show ?thesis using ic by (simp add: process_rule_source [OF c src] rule_inv_def)
  qed
next
  case False
  moreover have "fp_faithful A L (process_rule A now a r) = fp_faithful A L r"
    using updateIndex_sindex [of A a] by (auto simp: process_rule_def split: prod.splits option.splits) (metis rule_upd(3,4))+
  ultimately show ?thesis by (simp add: rule_inv_def)
qed

lemma rule_inv_GC:
  assumes "rule_inv A L t cur r" "cur_inv A L cur" "std_resolved A" "distinct visit" "\<And>f. clk f \<le> t"
  shows "rule_inv A L t cur (rule_GC A lclk clk visit r)"
proof -
  let ?dead = "\<lambda>f. f \<in> set visit \<and> (\<exists>a. as_alerts (ir_scache r) f = Some a \<and> ResolvedAt A a (clk f))"
  let ?fe = "fingerprintEquals A r"
  obtain sc d where sc: "GC_store A lclk clk visit (ir_scache r) = (sc, d)" by force
  then obtain m where m: "gc_alerts_loop A clk visit (as_alerts (ir_scache r)) = (m, d)"
      and sc': "as_alerts sc = m" "as_perAlertLimit sc = as_perAlertLimit (ir_scache r)" "as_destroyed sc = as_destroyed (ir_scache r)"
    by (auto simp: GC_store_def gcAlerts_def gcLimitBuckets_def Let_def split: prod.splits)
  have mf: "m f = (if ?dead f then None else as_alerts (ir_scache r) f)" for f
    using gc_alerts_loop_spec [OF assms(4) m] by simp
  have dset: "set d = {a. \<exists>f. ?dead f \<and> as_alerts (ir_scache r) f = Some a}"
    using gc_alerts_loop_spec [OF assms(4) m] by auto
  have g: "rule_GC A lclk clk visit r =
      r\<lparr>ir_scache := sc, ir_sindex := (\<lambda>e. if e \<in> (\<lambda>a. ?fe (al_labels a)) ` set d then None else ir_sindex r e)\<rparr>"
    by (cases "d = []") (simp_all add: rule_GC_def sc gcCallback_eq Let_def cong: if_cong)
  show ?thesis unfolding rule_inv_def
  proof
    assume "fp_faithful A L (rule_GC A lclk clk visit r)"
    then have fa: "fp_faithful A L r" by (simp add: g)
    then have c: "cache_inv A L t cur r" and i: "index_inv A L r" using assms(1) by (auto simp: rule_inv_def)
    have old: "m f = Some a \<Longrightarrow> as_alerts (ir_scache r) f = Some a" for f a by (simp add: mf split: if_splits)
    have dead_t: "ResolvedAt A a t" if "?dead f" "as_alerts (ir_scache r) f = Some a" for f a
      using that assms(3) assms(5) [of f] by (auto simp: std_resolved_def intro: order_trans)
    have ci: "cache_inv A L t cur (rule_GC A lclk clk visit r)" unfolding cache_inv_def g
    proof (intro conjI allI impI, goal_cases)
      case (3 f a) then show ?case using cache_inv_cur [OF c old, of f a] sc'(1) by simp
    next
      case (4 f a) then show ?case using cache_inv_cur [OF c old, of f a] sc'(1) by simp
    next
      case (5 f a)
      then have "as_alerts (ir_scache r) f = Some a" using cache_inv_live [OF c] by simp
      then show ?case using 5 dead_t [of f a] sc'(1) mf [of f] by auto
    qed (use cache_inv_flags [OF c] sc' in simp_all)
    have lead: "\<exists>a. m f = Some a \<and> ?fe (al_labels a) = e" if e: "ir_sindex r e = Some f" "e \<notin> (\<lambda>a. ?fe (al_labels a)) ` set d" for e f
    proof -
      obtain a where a: "as_alerts (ir_scache r) f = Some a" "?fe (al_labels a) = e" using i e(1) by (auto simp: index_inv_def)
      then have "\<not> ?dead f" using e(2) dset by (auto simp: image_iff)
      then have "m f = Some a" using mf [of f] a(1) by (simp only: if_False)
      then show ?thesis using a(2) by blast
    qed
    have uniq: "?fe (al_labels a) \<notin> (\<lambda>a. ?fe (al_labels a)) ` set d" if u: "unique_sources L r" and a: "m f = Some a" for f a
    proof
      assume "?fe (al_labels a) \<in> (\<lambda>a. ?fe (al_labels a)) ` set d"
      then obtain b h where b: "?dead h" "as_alerts (ir_scache r) h = Some b" "?fe (al_labels a) = ?fe (al_labels b)" using dset by blast
      have "ir_sindex r (?fe (al_labels a)) = Some f" "ir_sindex r (?fe (al_labels b)) = Some h"
        using i u old [OF a] b(2) by (simp_all add: index_inv_def)
      then have "f = h" using b(3) by simp
      then show False using a b(1) mf [of f] by simp
    qed
    have "index_inv A L (rule_GC A lclk clk visit r)" unfolding index_inv_def g
      using lead uniq i old by (auto simp: sc'(1) index_inv_def split: if_splits)
    with ci show "cache_inv A L t cur (rule_GC A lclk clk visit r) \<and> index_inv A L (rule_GC A lclk clk visit r)" by blast
  qed
qed

lemma those_elem: "those xs = Some ys \<Longrightarrow> y \<in> set ys \<Longrightarrow> Some y \<in> set xs"
  by (induction xs arbitrary: ys) (auto split: option.splits)

lemma inhibitor_run_inv:
  assumes "inhibitor_run A rx crs L t cur rules" "std_resolved A"
  shows "cur_inv A L cur \<and> (\<forall>r \<in> set rules. rule_inv A L t cur r)"
  using assms
proof (induction rule: inhibitor_run.induct)
  case (start rules t)
  have "rule_inv A L t Map.empty r" if "r \<in> set rules" for r
    using those_elem [OF start(1) [unfolded NewInhibitor_def] that]
    by (auto simp: NewInhibitRule_def rule_inv_def cache_inv_def index_inv_def NewAlerts_def split: option.splits)
  then show ?case by (simp add: cur_inv_def)
next
  case (tick t cur rules t')
  have "rule_inv A L t' cur r" if "rule_inv A L t cur r" for r
  proof -
    have "ResolvedAt A a t \<Longrightarrow> ResolvedAt A a t'" for a
      using tick.prems tick.hyps(2) by (auto simp: std_resolved_def)
    then have "cache_inv A L t' cur r" if "cache_inv A L t cur r" using that unfolding cache_inv_def by blast
    then show ?thesis using that by (auto simp: rule_inv_def)
  qed
  then show ?case using tick by blast
next
  case (receive t cur rules a now)
  then have inv: "cur_inv A L cur" "\<And>r. r \<in> set rules \<Longrightarrow> rule_inv A L t cur r" by auto
  have "cur_inv A L (cur(Fingerprint A a \<mapsto> a))" using inv(1) receive.hyps(2) by (simp add: cur_inv_def)
  then show ?case using rule_inv_process [OF inv(2) inv(1) receive.hyps(2)] by (simp add: processAlert_def del: fun_upd_apply)
next
  case (collect t cur rules i visit clk lclk)
  then have inv: "cur_inv A L cur" "\<And>r. r \<in> set rules \<Longrightarrow> rule_inv A L t cur r" by auto
  have "rule_inv A L t cur (rule_GC A lclk clk visit (rules ! i))"
    using rule_inv_GC [OF inv(2) inv(1)] collect.hyps collect.prems by simp
  then show ?case using inv set_update_subset_insert [of rules i] by fastforce
qed

text \<open>What one rule finds in its index.\<close>

lemma hasEqual_sound:
  assumes "cache_inv A L t cur r" "index_inv A L r" "fp_faithful A L r" "cur_inv A L cur" "lset \<in> L"
    and "matchers_matches (ir_target r) lset" "hasEqual A lset (matchers_matches (ir_source r) lset) now r = Some f"
  obtains a where "inhibits A cur now lset r a" "f = Fingerprint A a"
proof -
  obtain g a where g: "ir_sindex r (fingerprintEquals A r lset) = Some g" "as_alerts (ir_scache r) g = Some a" "\<not> ResolvedAt A a now"
      "\<not> (matchers_matches (ir_source r) lset \<and> matchers_matches (ir_target r) (al_labels a))" "f = Fingerprint A a"
    using assms(7) by (auto simp: hasEqual_def findEqualSourceAlert_def Get_alert_def split: option.splits sum.splits if_splits)
  obtain b where b: "as_alerts (ir_scache r) g = Some b" "fingerprintEquals A r (al_labels b) = fingerprintEquals A r lset"
    using assms(2) g(1) unfolding index_inv_def by blast
  have a: "cur g = Some a" "matchers_matches (ir_source r) (al_labels a)" using cache_inv_cur [OF assms(1) g(2)] by auto
  then have fa: "Fingerprint A a = g" "al_labels a \<in> L" using assms(4) by (auto simp: cur_inv_def)
  have "equal_set r (al_labels a) = equal_set r lset"
    using fp_faithful_eq(2) [OF assms(3) fa(2) assms(5)] b g(2) by simp
  then show ?thesis using that [of a] g a fa(1) assms(6) by (simp add: inhibits_def equal_set_eq_iff)
qed

lemma hasEqual_complete:
  assumes "cache_inv A L t cur r" "index_inv A L r" "unique_sources L r" "t \<le> now" "std_resolved A" "inhibits A cur now lset r a"
  shows "hasEqual A lset (matchers_matches (ir_source r) lset) now r = Some (Fingerprint A a)"
proof -
  have "\<not> ResolvedAt A a t" using assms(4,5,6) by (auto simp: inhibits_def std_resolved_def)
  then have "as_alerts (ir_scache r) (Fingerprint A a) = Some a"
    using cache_inv_live [OF assms(1)] assms(6) by (simp add: inhibits_def)
  moreover from this have "ir_sindex r (fingerprintEquals A r (al_labels a)) = Some (Fingerprint A a)"
    using assms(2,3) unfolding index_inv_def by blast
  moreover have "fingerprintEquals A r (al_labels a) = fingerprintEquals A r lset"
    using assms(6) equal_set_eq_iff [of r "al_labels a" lset] by (simp add: inhibits_def fingerprintEquals_def)
  ultimately show ?thesis
    using assms(6) by (auto simp: hasEqual_def findEqualSourceAlert_def Get_alert_def inhibits_def)
qed

lemma hasEqual_iff:
  assumes "cache_inv A L t cur r" "index_inv A L r" "fp_faithful A L r" "unique_sources L r" "cur_inv A L cur" "lset \<in> L" "t \<le> now" "std_resolved A"
  shows "(matchers_matches (ir_target r) lset \<and> hasEqual A lset (matchers_matches (ir_source r) lset) now r \<noteq> None)
    \<longleftrightarrow> (\<exists>a. inhibits A cur now lset r a)"
proof
  assume "matchers_matches (ir_target r) lset \<and> hasEqual A lset (matchers_matches (ir_source r) lset) now r \<noteq> None"
  then show "\<exists>a. inhibits A cur now lset r a" using hasEqual_sound [OF assms(1,2,3,5,6)] by blast
next
  assume "\<exists>a. inhibits A cur now lset r a"
  then obtain a where a: "inhibits A cur now lset r a" by blast
  then show "matchers_matches (ir_target r) lset \<and> hasEqual A lset (matchers_matches (ir_source r) lset) now r \<noteq> None"
    using hasEqual_complete [OF assms(1,2,4,7,8) a] by (simp add: inhibits_def)
qed

lemma Mutes_inhibit_iff:
  "fst (Mutes_inhibit A now lset rules) \<longleftrightarrow>
     (\<exists>r \<in> set rules. matchers_matches (ir_target r) lset \<and> hasEqual A lset (matchers_matches (ir_source r) lset) now r \<noteq> None)"
  by (induction rules) (auto split: option.splits)

lemma Mutes_inhibit_marks:
  "Mutes_inhibit A now lset rules = (True, fs) \<Longrightarrow>
     \<exists>r \<in> set rules. matchers_matches (ir_target r) lset \<and> (\<exists>f. hasEqual A lset (matchers_matches (ir_source r) lset) now r = Some f \<and> fs = [f])"
  by (induction rules) (auto split: option.splits if_splits)

text \<open>
  An inhibition is always justified. Whatever alerts a running inhibitor has received and
  collected, if it mutes a label set, the alert it names is the last report of a source of one of the
  rules that has not ended, agrees with the label set on the labels of the rule and is not excluded as
  a match of both sides, provided that fingerprints do not collide.
\<close>

theorem inhibition_sound:
  assumes "inhibitor_run A rx crs L t cur rules" "std_resolved A" "\<forall>r \<in> set rules. fp_faithful A L r" "lset \<in> L"
    and "Mutes_inhibit A now lset rules = (True, fs)"
  shows "\<exists>r \<in> set rules. \<exists>a. inhibits A cur now lset r a \<and> fs = [Fingerprint A a]"
proof -
  obtain r f where r: "r \<in> set rules" "matchers_matches (ir_target r) lset" "fs = [f]"
      "hasEqual A lset (matchers_matches (ir_source r) lset) now r = Some f"
    using Mutes_inhibit_marks [OF assms(5)] by blast
  have "cur_inv A L cur" "cache_inv A L t cur r" "index_inv A L r"
    using inhibitor_run_inv [OF assms(1,2)] assms(3) r(1) by (auto simp: rule_inv_def)
  then show ?thesis using hasEqual_sound [of A L t cur r lset now f] assms(3,4) r by metis
qed


section \<open>An example, and what the index loses\<close>

text \<open>One rule: critical alerts inhibit warnings of the same data centre.\<close>

definition inh_env :: alert_env where
  "inh_env = sample_alert_env\<lparr>ae_fp := (\<lambda>l. length (label_get l ''dc'') + 10 * length (label_get l ''sev'') + 100 * length (label_get l ''i''))\<rparr>"

definition inh_conf :: inhibit_rule_config where
  "inh_conf = \<lparr>icr_name = ''r'', icr_sourceMatch = [(''sev'', ''crit'')], icr_sourceMatchRE = [], icr_sourceMatchers = [],
     icr_targetMatch = [(''sev'', ''warning'')], icr_targetMatchRE = [], icr_targetMatchers = [], icr_equal = [''dc'']\<rparr>"

definition inh_rule :: "(fingerprint \<rightharpoonup> alert) \<Rightarrow> (fingerprint \<rightharpoonup> fingerprint) \<Rightarrow> inhibit_rule" where
  "inh_rule m ix = \<lparr>ir_name = ''r'', ir_source = [\<lparr>m_type = MatchEqual, m_name = ''sev'', m_value = ''crit'', m_re = (\<lambda>_. False)\<rparr>],
     ir_target = [\<lparr>m_type = MatchEqual, m_name = ''sev'', m_value = ''warning'', m_re = (\<lambda>_. False)\<rparr>], ir_equal = {''dc''},
     ir_scache = NewAlerts\<lparr>as_alerts := m\<rparr>, ir_sindex = ix\<rparr>"

definition crit :: "nat \<Rightarrow> time \<Rightarrow> alert" where
  "crit n e = (sample_alert 0 e 0)\<lparr>al_labels := [''sev'' \<mapsto> ''crit'', ''dc'' \<mapsto> ''ab'', ''i'' \<mapsto> replicate n (CHR ''i'')]\<rparr>"

definition warning :: labelset where
  "warning = [''sev'' \<mapsto> ''warning'', ''dc'' \<mapsto> ''ab'']"

lemma inh_simps [simp]:
  "ae_fp inh_env (al_labels (crit n e)) = 42 + 100 * n" "ae_fp inh_env warning = 72" "al_endsAt (crit n e) = e"
  "fingerprintEquals inh_env (inh_rule m ix) (al_labels (crit n e)) = 2" "fingerprintEquals inh_env (inh_rule m ix) warning = 2"
  "matchers_matches (ir_source (inh_rule m ix)) (al_labels (crit n e))" "\<not> matchers_matches (ir_target (inh_rule m ix)) (al_labels (crit n e))"
  "\<not> matchers_matches (ir_source (inh_rule m ix)) warning" "matchers_matches (ir_target (inh_rule m ix)) warning"
  "equal_set (inh_rule m ix) (al_labels (crit n e)) = equal_set (inh_rule m ix) warning"
  "ae_resolvedAt inh_env e t = (e \<noteq> zero_time \<and> e \<le> t)" "label_get (al_labels (crit n e)) ''dc'' = label_get warning ''dc''"
  by (auto simp: inh_env_def sample_alert_env_def sample_alert_def crit_def warning_def label_get_def inh_rule_def fingerprintEquals_def equal_set_def
    matchers_matches_iff matcher_matches_def fun_eq_iff)

lemma inh_parts [simp]:
  "ir_scache (inh_rule m ix) = NewAlerts\<lparr>as_alerts := m\<rparr>" "ir_sindex (inh_rule m ix) = ix" "ir_equal (inh_rule m ix) = {''dc''}"
  "(inh_rule m ix)\<lparr>ir_sindex := ix'\<rparr> = inh_rule m ix'" "(inh_rule m ix)\<lparr>ir_scache := NewAlerts\<lparr>as_alerts := m'\<rparr>\<rparr> = inh_rule m' ix"
  by (simp_all add: inh_rule_def)

lemma inh_new: "NewInhibitor rx [inh_conf] = Some [inh_rule Map.empty Map.empty]"
  by (simp add: NewInhibitor_def NewInhibitRule_def side_matchers_def inh_conf_def NewMatcher_def inh_rule_def NewAlerts_def)

lemma inh_process: "process_rule inh_env now (crit n e) (inh_rule m ix) =
  (let m' = m(42 + 100 * n \<mapsto> crit n e) in case ix 2 of
     None \<Rightarrow> inh_rule m' (ix(2 \<mapsto> 42 + 100 * n))
   | Some f \<Rightarrow> if f = 42 + 100 * n then inh_rule m' ix
       else (case m f of
           None \<Rightarrow> inh_rule m' (ix(2 \<mapsto> 42 + 100 * n))
         | Some b \<Rightarrow> if ResolvedAt inh_env b e then inh_rule m' (ix(2 \<mapsto> 42 + 100 * n)) else inh_rule m' ix))"
proof -
  have "Set_alert inh_env now (crit n e) (NewAlerts\<lparr>as_alerts := m\<rparr>) = (NewAlerts\<lparr>as_alerts := m(42 + 100 * n \<mapsto> crit n e)\<rparr>, None)"
    by (simp add: Set_alert_def NewAlerts_def)
  then show ?thesis
    by (auto simp: process_rule_def updateIndex_def Let_def index_Set_def Get_alert_def split: option.splits)
qed

lemma inh_std: "std_resolved inh_env" by (simp add: std_resolved_def)

lemma inh_Mutes: "Mutes_inhibit inh_env now warning [inh_rule m ix] =
  (case ix 2 of None \<Rightarrow> (False, []) | Some f \<Rightarrow> (case m f of None \<Rightarrow> (False, [])
     | Some a \<Rightarrow> if ResolvedAt inh_env a now then (False, []) else (True, [Fingerprint inh_env a])))"
  by (auto simp: hasEqual_def findEqualSourceAlert_def Get_alert_def NewAlerts_def split: option.splits)

lemma run_one:
  assumes "al_labels (crit 3 e) \<in> L"
  shows "inhibitor_run inh_env (\<lambda>_. None) [inh_conf] L t [342 \<mapsto> crit 3 e] [inh_rule [342 \<mapsto> crit 3 e] [2 \<mapsto> 342]]"
  using receive [OF start [OF inh_new] assms, where A = inh_env and rx = "\<lambda>_. None" and t = t and now = 0] by (simp add: processAlert_def inh_process)

theorem inhibition_sound_witness:
  "\<exists>r \<in> set [inh_rule [342 \<mapsto> crit 3 100] [2 \<mapsto> 342]]. \<exists>a. inhibits inh_env [342 \<mapsto> crit 3 100] 30 warning r a \<and> [342] = [Fingerprint inh_env a]"
  by (rule inhibition_sound [OF run_one [where L = "{al_labels (crit 3 100), warning}" and t = 0] inh_std])
    (simp_all add: fp_faithful_def inh_Mutes zero_time_def del: Mutes_inhibit.simps)


lemma run_two:
  "ResolvedAt inh_env (crit 3 d) e \<Longrightarrow>
   inhibitor_run inh_env (\<lambda>_. None) [inh_conf] UNIV t [342 \<mapsto> crit 3 d, 442 \<mapsto> crit 4 e] [inh_rule [342 \<mapsto> crit 3 d, 442 \<mapsto> crit 4 e] [2 \<mapsto> 442]]"
  "\<not> ResolvedAt inh_env (crit 3 d) e \<Longrightarrow>
   inhibitor_run inh_env (\<lambda>_. None) [inh_conf] UNIV t [342 \<mapsto> crit 3 d, 442 \<mapsto> crit 4 e] [inh_rule [342 \<mapsto> crit 3 d, 442 \<mapsto> crit 4 e] [2 \<mapsto> 342]]"
  using receive [OF run_one [where e = d and L = UNIV and t = t], where now = 0 and a = "crit 4 e"] by (simp_all add: processAlert_def inh_process Let_def split: if_splits)


text \<open>
  When the source in the index is reported as resolved before its announced end, another source that
  still fires and agrees on the same labels is not found: the index is not changed by the report.
\<close>

theorem inhibition_lost_after_resolve:
  "\<exists>cur rules. inhibitor_run inh_env (\<lambda>_. None) [inh_conf] UNIV 20 cur rules
     \<and> (\<exists>r \<in> set rules. inhibits inh_env cur 30 warning r (crit 4 50)) \<and> \<not> fst (Mutes_inhibit inh_env 30 warning rules)"
  using receive [OF run_two(2) [of 100 50 20], where a = "crit 3 20" and now = 20]
  by (intro exI [of _ "[342 \<mapsto> crit 3 20, 442 \<mapsto> crit 4 50]"] exI [of _ "[inh_rule [342 \<mapsto> crit 3 20, 442 \<mapsto> crit 4 50] [2 \<mapsto> 342]]"])
    (auto simp: zero_time_def inhibits_def inh_Mutes processAlert_def inh_process fun_upd_twist simp del: Mutes_inhibit.simps)

end
