(* ===== verification/Nflog.thy ===== *)
theory Nflog
  imports Go_Strings LWW_Merge Gossip "HOL-Library.Word"
begin

text \<open>
  The notification log, \<^verbatim>\<open>nflog/nflog.go\<close>: for every alert group and receiver the last notification that
  was sent, replicated between the peers of a cluster. Messages are those of
  \<^verbatim>\<open>nflog/nflogpb/nflog.pb.go\<close>. The state is a map from a text made of the group key and the receiver;
  where the code ranges over the map, the order of the visit is an argument. Every reading of the
  clock is an argument. The messages the log hands to the cluster are appended to \<open>nl_sent\<close>.
\<close>

section \<open>Messages\<close>

text \<open>A floating point number is only stored, so it is kept as its 64 bits.\<close>

datatype data_value = StrVal string | IntVal "64 word" | DoubleVal "64 word"

type_synonym receiver_data = "string \<rightharpoonup> data_value"

record receiver =
  rc_groupName :: string
  rc_integration :: string
  rc_idx :: nat

text \<open>An entry without its receiver, and with it: the code checks that a decoded entry has one.\<close>

record nf_body =
  ne_groupKey :: bytes
  ne_groupHash :: bytes
  ne_wasResolved :: bool
  ne_timestamp :: timestamp
  ne_firing :: "nat list"
  ne_resolved :: "nat list"
  ne_data :: receiver_data

record nf_entry = nf_body +
  ne_receiver :: receiver

record mesh_entry =
  me_entry :: nf_entry
  me_expiresAt :: timestamp

section \<open>The store of a receiver's data\<close>

definition NewStore :: "nf_entry option \<Rightarrow> receiver_data" where
  "NewStore entry = (case entry of None \<Rightarrow> Map.empty | Some e \<Rightarrow> ne_data e)"

definition GetInt :: "string \<Rightarrow> receiver_data \<Rightarrow> 64 word option" where
  "GetInt key s = (case s key of Some (IntVal v) \<Rightarrow> Some v | _ \<Rightarrow> None)"

definition GetFloat :: "string \<Rightarrow> receiver_data \<Rightarrow> 64 word option" where
  "GetFloat key s = (case s key of Some (DoubleVal v) \<Rightarrow> Some v | _ \<Rightarrow> None)"

definition GetStr :: "string \<Rightarrow> receiver_data \<Rightarrow> string option" where
  "GetStr key s = (case s key of Some (StrVal v) \<Rightarrow> Some v | _ \<Rightarrow> None)"

definition SetInt :: "string \<Rightarrow> 64 word \<Rightarrow> receiver_data \<Rightarrow> receiver_data" where
  "SetInt key v s = s(key \<mapsto> IntVal v)"

definition SetFloat :: "string \<Rightarrow> 64 word \<Rightarrow> receiver_data \<Rightarrow> receiver_data" where
  "SetFloat key v s = s(key \<mapsto> DoubleVal v)"

definition SetStr :: "string \<Rightarrow> string \<Rightarrow> receiver_data \<Rightarrow> receiver_data" where
  "SetStr key v s = s(key \<mapsto> StrVal v)"

definition Delete_data :: "string \<Rightarrow> receiver_data \<Rightarrow> receiver_data" where
  "Delete_data key s = s(key := None)"

section \<open>Keys and merging\<close>

definition receiverKey :: "receiver \<Rightarrow> string" where
  "receiverKey r = rc_groupName r @ ''/'' @ rc_integration r @ ''/'' @ itoa (rc_idx r)"

definition stateKey :: "string \<Rightarrow> receiver \<Rightarrow> string" where
  "stateKey k r = k @ '':'' @ receiverKey r"

definition entry_key :: "mesh_entry \<Rightarrow> string" where
  "entry_key e = stateKey (ne_groupKey (me_entry e)) (ne_receiver (me_entry e))"

type_synonym nf_state = "string \<rightharpoonup> mesh_entry"

definition nf_merge :: "mesh_entry \<Rightarrow> time \<Rightarrow> nf_state \<Rightarrow> nf_state \<times> bool" where
  "nf_merge e now s =
     (if before (as_time (me_expiresAt e)) now then (s, False)
      else (let k = entry_key e in
        case s k of
          None \<Rightarrow> (s(k \<mapsto> e), True)
        | Some prev \<Rightarrow>
            if before (as_time (ne_timestamp (me_entry prev))) (as_time (ne_timestamp (me_entry e)))
            then (s(k \<mapsto> e), True) else (s, False)))"

section \<open>The wire format\<close>

datatype nf_error = NfNotFound | NfInvalidState | NfDecodeFailed | NfMarshalFailed | NfZeroExpiry | NfNoParameters

text \<open>One step of \<^verbatim>\<open>protodelim.UnmarshalFrom\<close>: a message, whose entry may be missing, whose receiver may
  be missing, with its expiry and the rest of the input; the end of the input; or an error.\<close>

datatype nf_frame =
    NfMessage "(receiver option \<times> nf_body) option" timestamp bytes
  | NfEOF
  | NfFail

type_synonym nf_decoder = "bytes \<Rightarrow> nf_frame"
type_synonym nf_encoder = "mesh_entry \<Rightarrow> bytes option"

text \<open>The decoded map as the list of its entries; a later message replaces an earlier one with the
  same key. Each message takes at least one byte, so the length of the input bounds the rounds.\<close>

fun nf_put :: "mesh_entry list \<Rightarrow> mesh_entry \<Rightarrow> mesh_entry list" where
  "nf_put [] e = [e]"
| "nf_put (x # xs) e = (if entry_key x = entry_key e then e # xs else x # nf_put xs e)"

definition nf_mesh :: "receiver \<Rightarrow> nf_body \<Rightarrow> timestamp \<Rightarrow> mesh_entry" where
  "nf_mesh r b ex = \<lparr>me_entry = nf_body.extend b (nf_entry.fields r), me_expiresAt = ex\<rparr>"

fun nf_decode_loop :: "nat \<Rightarrow> nf_decoder \<Rightarrow> bytes \<Rightarrow> mesh_entry list \<Rightarrow> (nf_error + mesh_entry list) option" where
  "nf_decode_loop 0 u b st = None"
| "nf_decode_loop (Suc fuel) u b st = (case u b of
     NfMessage (Some (Some r, body)) ex rest \<Rightarrow> nf_decode_loop fuel u rest (nf_put st (nf_mesh r body ex))
   | NfMessage _ _ _ \<Rightarrow> Some (Inl NfInvalidState)
   | NfEOF \<Rightarrow> Some (Inr st)
   | NfFail \<Rightarrow> Some (Inl NfDecodeFailed))"

definition nf_decodeState :: "nf_decoder \<Rightarrow> bytes \<Rightarrow> (nf_error + mesh_entry list) option" where
  "nf_decodeState u b = nf_decode_loop (Suc (length b)) u b []"

fun nf_marshal_entries :: "nf_encoder \<Rightarrow> mesh_entry list \<Rightarrow> nf_error + bytes" where
  "nf_marshal_entries enc [] = Inr []"
| "nf_marshal_entries enc (e # es) = (case enc e of
     None \<Rightarrow> Inl NfMarshalFailed
   | Some b \<Rightarrow> (case nf_marshal_entries enc es of Inl err \<Rightarrow> Inl err | Inr bs \<Rightarrow> Inr (b @ bs)))"

definition nf_state_of :: "mesh_entry list \<Rightarrow> nf_state" where
  "nf_state_of es = map_of (map (\<lambda>e. (entry_key e, e)) es)"

section \<open>The log\<close>

record nflog =
  nl_retention :: duration
  nl_st :: nf_state
  nl_sent :: "bytes list"

definition new_nflog :: "duration \<Rightarrow> nflog" where
  "new_nflog retention = \<lparr>nl_retention = retention, nl_st = Map.empty, nl_sent = []\<rparr>"

text \<open>The entry that \<^verbatim>\<open>Log\<close> writes.\<close>

definition log_entry ::
  "duration \<Rightarrow> time \<Rightarrow> receiver \<Rightarrow> string \<Rightarrow> nat list \<Rightarrow> nat list \<Rightarrow> receiver_data option \<Rightarrow> duration \<Rightarrow> mesh_entry" where
  "log_entry retention now r gkey firingAlerts resolvedAlerts sto expiry =
     (let expiresAt = (if 0 < expiry \<and> expiry < retention then now + expiry else now + retention)
      in \<lparr>me_entry = \<lparr>ne_groupKey = gkey, ne_groupHash = [], ne_wasResolved = False, ne_timestamp = Some now, ne_firing = firingAlerts, ne_resolved = resolvedAlerts,
            ne_data = (case sto of None \<Rightarrow> Map.empty | Some d \<Rightarrow> d), ne_receiver = r\<rparr>,
          me_expiresAt = Some expiresAt\<rparr>)"

text \<open>\<^verbatim>\<open>Log\<close>; \<open>now\<close> is the clock at its start and \<open>now'\<close> at the merge.\<close>

definition Log ::
  "nf_encoder \<Rightarrow> time \<Rightarrow> time \<Rightarrow> receiver \<Rightarrow> string \<Rightarrow> nat list \<Rightarrow> nat list \<Rightarrow> receiver_data option \<Rightarrow> duration \<Rightarrow> nflog \<Rightarrow>
     nflog \<times> nf_error option" where
  "Log enc now now' r gkey firingAlerts resolvedAlerts sto expiry l =
     (let key = stateKey gkey r in
      if (case nl_st l key of None \<Rightarrow> False | Some prevle \<Rightarrow> after (as_time (ne_timestamp (me_entry prevle))) now) then (l, None)
      else (let e = log_entry (nl_retention l) now r gkey firingAlerts resolvedAlerts sto expiry in
        case enc e of
          None \<Rightarrow> (l, Some NfMarshalFailed)
        | Some b \<Rightarrow> (l\<lparr>nl_st := fst (nf_merge e now' (nl_st l)), nl_sent := nl_sent l @ [b]\<rparr>, None)))"

fun nf_gc_loop :: "time \<Rightarrow> string list \<Rightarrow> nf_state \<Rightarrow> nat \<Rightarrow> nf_state \<times> nat \<times> nf_error option" where
  "nf_gc_loop now [] st n = (st, n, None)"
| "nf_gc_loop now (k # ks) st n = (case st k of
     None \<Rightarrow> nf_gc_loop now ks st n
   | Some le \<Rightarrow>
       if is_zero (as_time (me_expiresAt le)) then (st, n, Some NfZeroExpiry)
       else if \<not> after (as_time (me_expiresAt le)) now then nf_gc_loop now ks (st(k := None)) (n + 1)
       else nf_gc_loop now ks st n)"

definition nf_GC :: "time \<Rightarrow> string list \<Rightarrow> nflog \<Rightarrow> nflog \<times> nat \<times> nf_error option" where
  "nf_GC now visit l = (let (st, n, err) = nf_gc_loop now visit (nl_st l) 0 in (l\<lparr>nl_st := st\<rparr>, n, err))"

datatype nf_query_param = QReceiver "receiver option" | QGroupKey string

record nf_query =
  nq_recv :: "receiver option"
  nq_groupKey :: string

fun nf_apply :: "nf_query_param \<Rightarrow> nf_query \<Rightarrow> nf_query" where
  "nf_apply (QReceiver r) q = q\<lparr>nq_recv := r\<rparr>"
| "nf_apply (QGroupKey gk) q = q\<lparr>nq_groupKey := gk\<rparr>"

definition nf_Query :: "nf_query_param list \<Rightarrow> nflog \<Rightarrow> nf_error + nf_entry list" where
  "nf_Query params l =
     (let q = fold nf_apply params \<lparr>nq_recv = None, nq_groupKey = ''''\<rparr> in
      case nq_recv q of
        None \<Rightarrow> Inl NfNoParameters
      | Some r \<Rightarrow>
          if nq_groupKey q = '''' then Inl NfNoParameters
          else (case nl_st l (stateKey (nq_groupKey q) r) of
              Some le \<Rightarrow> Inr [me_entry le]
            | None \<Rightarrow> Inl NfNotFound))"

definition nf_loadSnapshot :: "nf_decoder \<Rightarrow> bytes \<Rightarrow> nflog \<Rightarrow> (nflog \<times> nf_error option) option" where
  "nf_loadSnapshot u b l = (case nf_decodeState u b of
     None \<Rightarrow> None
   | Some (Inl err) \<Rightarrow> Some (l, Some err)
   | Some (Inr es) \<Rightarrow> Some (l\<lparr>nl_st := nf_state_of es\<rparr>, None))"

text \<open>\<^verbatim>\<open>MarshalBinary\<close> and \<^verbatim>\<open>Snapshot\<close>, over the entries in the order of the visit.\<close>

definition nf_MarshalBinary :: "nf_encoder \<Rightarrow> string list \<Rightarrow> nflog \<Rightarrow> nf_error + bytes" where
  "nf_MarshalBinary enc visit l = nf_marshal_entries enc (List.map_filter (nl_st l) visit)"

definition nf_merge_entry :: "bytes \<Rightarrow> time \<Rightarrow> mesh_entry \<Rightarrow> nflog \<Rightarrow> nflog" where
  "nf_merge_entry b now e l =
     (let (st, merged) = nf_merge e now (nl_st l); l1 = l\<lparr>nl_st := st\<rparr>
      in if merged \<and> \<not> OversizedMessage b then l1\<lparr>nl_sent := nl_sent l1 @ [b]\<rparr> else l1)"

definition nf_Merge :: "nf_decoder \<Rightarrow> (mesh_entry list \<Rightarrow> mesh_entry list) \<Rightarrow> bytes \<Rightarrow> time \<Rightarrow> nflog \<Rightarrow> (nflog \<times> nf_error option) option" where
  "nf_Merge u visit b now l = (case nf_decodeState u b of
     None \<Rightarrow> None
   | Some (Inl err) \<Rightarrow> Some (l, Some err)
   | Some (Inr es) \<Rightarrow> Some (fold (nf_merge_entry b now) (visit es) l, None))"

text \<open>The maintenance: a collection, then a snapshot if there is a file for it (its bytes are
  returned); a failed collection takes no snapshot.\<close>

definition doMaintenance ::
  "nf_encoder \<Rightarrow> time \<Rightarrow> string list \<Rightarrow> string list \<Rightarrow> string \<Rightarrow> nflog \<Rightarrow> nflog \<times> (nf_error + bytes option)" where
  "doMaintenance enc now visit visit' snapf l =
     (let (l1, n, err) = nf_GC now visit l in
      case err of
        Some e \<Rightarrow> (l1, Inl e)
      | None \<Rightarrow>
          if snapf = '''' then (l1, Inr None)
          else (case nf_MarshalBinary enc visit' l1 of Inl e \<Rightarrow> (l1, Inl e) | Inr b \<Rightarrow> (l1, Inr (Some b))))"

section \<open>Replication\<close>

definition entry_stamp :: "mesh_entry \<Rightarrow> time" where
  "entry_stamp e = as_time (ne_timestamp (me_entry e))"

interpretation nf_lww: lww_merge entry_key entry_stamp "\<lambda>e. as_time (me_expiresAt e) < now" id
  "\<lambda>e st. fst (nf_merge e now st)" for now
  by unfold_locales (simp_all add: nf_merge_def Let_def entry_stamp_def)

lemma nf_merge_entries_st:
  "nl_st (fold (nf_merge_entry b now) es l) = fold (\<lambda>e st. fst (nf_merge e now st)) es (nl_st l)"
  by (induction es arbitrary: l) (simp_all add: nf_merge_entry_def Let_def split: prod.splits)

text \<open>
  C21: two notification logs that hold the same entries and receive the same entries, in whatever order
  and however often and in whatever messages, hold the same entries again, provided that two entries
  for one group and receiver with the same time stamp are the same entry.
\<close>

theorem nflog_merge_convergence:
  assumes "nl_st l = nl_st l'" "set es = set es'" "coherent entry_key entry_stamp id (set es)"
  shows "nl_st (fold (nf_merge_entry b now) es l) = nl_st (fold (nf_merge_entry b' now) es' l')"
  unfolding nf_merge_entries_st assms(1) by (rule nf_lww.merge_convergence [OF assms(2,3)])

definition sample_recv :: receiver where
  "sample_recv = \<lparr>rc_groupName = ''team'', rc_integration = ''email'', rc_idx = 0\<rparr>"

definition sample_logged :: "time \<Rightarrow> nat list \<Rightarrow> mesh_entry" where
  "sample_logged t firing = log_entry 100 t sample_recv ''g'' firing [] None 0"

theorem nflog_merge_convergence_witness:
  "nl_st (fold (nf_merge_entry ''x'' 20) [sample_logged 5 [1], sample_logged 9 [1, 2]] (new_nflog 100)) =
   nl_st (fold (nf_merge_entry ''y'' 20) [sample_logged 9 [1, 2], sample_logged 5 [1], sample_logged 9 [1, 2]] (new_nflog 100))"
  by (rule nflog_merge_convergence)
    (auto simp: coherent_def sample_logged_def log_entry_def Let_def entry_stamp_def)

section \<open>Keys do not collide\<close>

definition plain_receiver :: "receiver \<Rightarrow> bool" where
  "plain_receiver r \<longleftrightarrow> CHR '':'' \<notin> set (rc_groupName r) \<and> CHR ''/'' \<notin> set (rc_integration r)"

lemma itoa_no_slash: "CHR ''/'' \<notin> set (itoa n)"
proof -
  have "digit d \<noteq> CHR ''/''" if "d < 10" for d
  proof
    assume "digit d = CHR ''/''"
    then have "48 + d = (47 :: nat)" using digit_byte [OF that] by simp
    then show False by simp
  qed
  then show ?thesis using itoa_digits by metis
qed

lemma stateKey_inj:
  assumes "stateKey k r = stateKey k' r'" "plain_receiver r" "plain_receiver r'"
  shows "k = k' \<and> r = r'"
proof -
  have "(k @ '':'' @ rc_groupName r @ ''/'' @ rc_integration r) @ CHR ''/'' # itoa (rc_idx r) =
        (k' @ '':'' @ rc_groupName r' @ ''/'' @ rc_integration r') @ CHR ''/'' # itoa (rc_idx r')"
    using assms(1) by (simp add: stateKey_def receiverKey_def)
  note 1 = last_sep_inj [OF this itoa_no_slash itoa_no_slash]
  have "(k @ '':'' @ rc_groupName r) @ CHR ''/'' # rc_integration r = (k' @ '':'' @ rc_groupName r') @ CHR ''/'' # rc_integration r'"
    using 1 by simp
  note 2 = last_sep_inj [OF this]
  have 3: "rc_integration r = rc_integration r'" "k @ CHR '':'' # rc_groupName r = k' @ CHR '':'' # rc_groupName r'"
    using 2 assms(2,3) by (simp_all add: plain_receiver_def)
  have "k = k'" "rc_groupName r = rc_groupName r'" using last_sep_inj [OF 3(2)] assms(2,3) by (simp_all add: plain_receiver_def)
  moreover have "rc_idx r = rc_idx r'" using 1 itoa_inj by blast
  ultimately show ?thesis using 3(1) by (cases r; cases r') simp
qed

text \<open>Without the condition they can: the group \<open>g\<close> with the receiver \<open>a:b\<close> and the group \<open>g:a\<close>
  with the receiver \<open>b\<close> share a key.\<close>

lemma stateKey_collision: "stateKey ''g'' (sample_recv\<lparr>rc_groupName := ''a:b''\<rparr>) = stateKey ''g:a'' (sample_recv\<lparr>rc_groupName := ''b''\<rparr>)"
  by (simp add: stateKey_def receiverKey_def sample_recv_def)

section \<open>Logging and asking\<close>

lemma nf_Query_eq: "gk \<noteq> '''' \<Longrightarrow> nf_Query [QReceiver (Some r), QGroupKey gk] l =
  (case nl_st l (stateKey gk r) of Some le \<Rightarrow> Inr [me_entry le] | None \<Rightarrow> Inl NfNotFound)"
  by (simp add: nf_Query_def)

lemma log_entry_simps [simp]:
  "entry_key (log_entry ret now r gk fs rs sto ex) = stateKey gk r"
  "ne_timestamp (me_entry (log_entry ret now r gk fs rs sto ex)) = Some now"
  "ne_firing (me_entry (log_entry ret now r gk fs rs sto ex)) = fs"
  "ne_resolved (me_entry (log_entry ret now r gk fs rs sto ex)) = rs"
  "as_time (me_expiresAt (log_entry ret now r gk fs rs sto ex)) = now + (if 0 < ex \<and> ex < ret then ex else ret)"
  by (simp_all add: log_entry_def Let_def entry_key_def)

lemma Log_st:
  assumes "\<And>le. nl_st l (stateKey gk r) = Some le \<Longrightarrow> entry_stamp le < now"
    and "now' \<le> now + nl_retention l" "0 < ex \<longrightarrow> now' \<le> now + ex"
    and "enc (log_entry (nl_retention l) now r gk fs rs sto ex) = Some b"
  shows "Log enc now now' r gk fs rs sto ex l =
    (l\<lparr>nl_st := (nl_st l)(stateKey gk r \<mapsto> log_entry (nl_retention l) now r gk fs rs sto ex), nl_sent := nl_sent l @ [b]\<rparr>, None)"
proof -
  let ?e = "log_entry (nl_retention l) now r gk fs rs sto ex"
  have "\<not> as_time (me_expiresAt ?e) < now'" using assms(2,3) by auto
  then have "fst (nf_merge ?e now' (nl_st l)) = (nl_st l)(stateKey gk r \<mapsto> ?e)"
    using assms(1) by (auto simp: nf_merge_def entry_stamp_def Let_def split: option.splits)
  moreover have "\<not> (case nl_st l (stateKey gk r) of None \<Rightarrow> False | Some p \<Rightarrow> after (as_time (ne_timestamp (me_entry p))) now)"
    using assms(1) by (force simp: entry_stamp_def split: option.splits)
  ultimately show ?thesis using assms(4) by (simp add: Log_def Let_def)
qed

text \<open>
  C20: what was logged is what is found. After \<^verbatim>\<open>Log\<close>, a query for the group and the receiver returns the
  notification with its time, its firing and its resolved alerts, and the answers for every other
  group and receiver are as before, provided that the log held no entry of the same or a later time
  for the key, the entry has not expired when it is merged, and the names of the receivers do not
  contain the separators of the key.
\<close>

theorem Log_then_Query:
  assumes "\<And>le. nl_st l (stateKey gk r) = Some le \<Longrightarrow> entry_stamp le < now"
    and "now' \<le> now + nl_retention l" "0 < ex \<longrightarrow> now' \<le> now + ex"
    and "enc (log_entry (nl_retention l) now r gk fs rs sto ex) = Some b" "gk \<noteq> ''''" "plain_receiver r"
    and "Log enc now now' r gk fs rs sto ex l = (l', err)"
  shows "err = None
    \<and> (\<exists>e. nf_Query [QReceiver (Some r), QGroupKey gk] l' = Inr [e] \<and> ne_timestamp e = Some now \<and> ne_firing e = fs \<and> ne_resolved e = rs)
    \<and> (\<forall>r' gk'. gk' \<noteq> '''' \<and> plain_receiver r' \<and> (r', gk') \<noteq> (r, gk) \<longrightarrow>
         nf_Query [QReceiver (Some r'), QGroupKey gk'] l' = nf_Query [QReceiver (Some r'), QGroupKey gk'] l)"
proof -
  have l': "l' = l\<lparr>nl_st := (nl_st l)(stateKey gk r \<mapsto> log_entry (nl_retention l) now r gk fs rs sto ex), nl_sent := nl_sent l @ [b]\<rparr>" "err = None"
    using Log_st [where enc = enc and l = l and gk = gk and r = r and now = now and fs = fs and rs = rs and sto = sto and ex = ex, OF assms(1) assms(2-4)] assms(7) by simp_all
  have "stateKey gk' r' \<noteq> stateKey gk r" if "plain_receiver r'" "(r', gk') \<noteq> (r, gk)" for r' gk'
    using stateKey_inj [OF _ that(1) assms(6)] that(2) by blast
  then show ?thesis using assms(5) by (auto simp: l' nf_Query_eq)
qed

theorem Log_then_Query_witness:
  "\<exists>l' e. Log (\<lambda>_. Some ''b'') 10 11 sample_recv ''g'' [1] [2] None 30 (new_nflog 100) = (l', None)
     \<and> nf_Query [QReceiver (Some sample_recv), QGroupKey ''g''] l' = Inr [e] \<and> ne_firing e = [1]"
proof -
  obtain l' err where l: "Log (\<lambda>_. Some ''b'') 10 11 sample_recv ''g'' [1] [2] None 30 (new_nflog 100) = (l', err)" by force
  show ?thesis using Log_then_Query [OF _ _ _ _ _ _ l] l by (fastforce simp: new_nflog_def plain_receiver_def sample_recv_def)
qed

section \<open>Garbage collection\<close>

lemma nf_gc_loop_spec:
  "distinct ks \<Longrightarrow> \<forall>k \<in> set ks. \<forall>e. st k = Some e \<longrightarrow> \<not> is_zero (as_time (me_expiresAt e)) \<Longrightarrow>
     nf_gc_loop now ks st n =
       (\<lambda>k. if k \<in> set ks \<and> (\<exists>e. st k = Some e \<and> as_time (me_expiresAt e) \<le> now) then None else st k,
        n + length (filter (\<lambda>k. \<exists>e. st k = Some e \<and> as_time (me_expiresAt e) \<le> now) ks), None)"
proof (induction ks arbitrary: st n)
  case (Cons k ks)
  show ?case
  proof (cases "\<exists>e. st k = Some e \<and> as_time (me_expiresAt e) \<le> now")
    case True
    then obtain e where e: "st k = Some e" "as_time (me_expiresAt e) \<le> now" by blast
    have f: "filter (\<lambda>j. \<exists>e. (st(k := None)) j = Some e \<and> as_time (me_expiresAt e) \<le> now) ks
        = filter (\<lambda>j. \<exists>e. st j = Some e \<and> as_time (me_expiresAt e) \<le> now) ks"
      using Cons.prems(1) by (intro filter_cong) auto
    have "nf_gc_loop now ks (st(k := None)) (n + 1) =
       (\<lambda>j. if j \<in> set ks \<and> (\<exists>e. (st(k := None)) j = Some e \<and> as_time (me_expiresAt e) \<le> now) then None else (st(k := None)) j,
        n + 1 + length (filter (\<lambda>j. \<exists>e. (st(k := None)) j = Some e \<and> as_time (me_expiresAt e) \<le> now) ks), None)"
      using Cons.prems by (intro Cons.IH) auto
    then show ?thesis using e Cons.prems unfolding f by (auto simp: fun_eq_iff)
  next
    case False
    have "nf_gc_loop now (k # ks) st n = nf_gc_loop now ks st n"
      using False Cons.prems(2) by (auto split: option.splits)
    then show ?thesis using False Cons.IH [of st n] Cons.prems by (auto simp: fun_eq_iff)
  qed
qed simp

lemma nf_gc_loop_zero:
  "distinct ks \<Longrightarrow> \<exists>k \<in> set ks. \<exists>e. st k = Some e \<and> is_zero (as_time (me_expiresAt e)) \<Longrightarrow> snd (snd (nf_gc_loop now ks st n)) = Some NfZeroExpiry"
proof (induction ks arbitrary: st n)
  case (Cons k ks)
  show ?case
  proof (cases "\<exists>e. st k = Some e \<and> is_zero (as_time (me_expiresAt e))")
    case False
    then obtain j e where "j \<in> set ks" "st j = Some e" "is_zero (as_time (me_expiresAt e))" "j \<noteq> k" using Cons.prems by auto
    then have "\<exists>j \<in> set ks. \<exists>e. (st(k := None)) j = Some e \<and> is_zero (as_time (me_expiresAt e))"
      "\<exists>j \<in> set ks. \<exists>e. st j = Some e \<and> is_zero (as_time (me_expiresAt e))" by auto
    then show ?thesis using Cons.IH Cons.prems(1) False by (auto split: option.splits)
  qed auto
qed simp

text \<open>
  A collection removes exactly the entries whose expiry is not in the future and counts them, unless
  some entry has the zero time as its expiry: then it reports an error.
\<close>

theorem nf_GC_exact:
  assumes "distinct visit" "set visit = dom (nl_st l)" "nf_GC now visit l = (l', n, err)"
  shows "if \<exists>e \<in> ran (nl_st l). is_zero (as_time (me_expiresAt e)) then err = Some NfZeroExpiry
    else err = None \<and> nl_st l' = (\<lambda>k. case nl_st l k of None \<Rightarrow> None | Some e \<Rightarrow> if as_time (me_expiresAt e) \<le> now then None else Some e)
      \<and> n = card {k. \<exists>e. nl_st l k = Some e \<and> as_time (me_expiresAt e) \<le> now}"
proof (cases "\<exists>e \<in> ran (nl_st l). is_zero (as_time (me_expiresAt e))")
  case True
  then have "\<exists>k \<in> set visit. \<exists>e. nl_st l k = Some e \<and> is_zero (as_time (me_expiresAt e))" using assms(2) by (auto simp: ran_def)
  then have "snd (snd (nf_gc_loop now visit (nl_st l) 0)) = Some NfZeroExpiry" by (intro nf_gc_loop_zero [OF assms(1)])
  then show ?thesis using True assms(3) by (auto simp: nf_GC_def split: prod.splits)
next
  case False
  let ?dead = "\<lambda>k. \<exists>e. nl_st l k = Some e \<and> as_time (me_expiresAt e) \<le> now"
  have loop: "nf_gc_loop now visit (nl_st l) 0 =
     (\<lambda>k. if k \<in> set visit \<and> ?dead k then None else nl_st l k, 0 + length (filter ?dead visit), None)"
    using False by (intro nf_gc_loop_spec [OF assms(1)]) (auto simp: ran_def)
  have "length (filter ?dead visit) = card (set (filter ?dead visit))" using distinct_card [OF distinct_filter [OF assms(1)]] by (rule sym)
  also have "set (filter ?dead visit) = {k. ?dead k}" using assms(2) by auto
  finally have n: "length (filter ?dead visit) = card {k. ?dead k}" .
  have st: "(if k \<in> set visit \<and> ?dead k then None else nl_st l k) =
      (case nl_st l k of None \<Rightarrow> None | Some e \<Rightarrow> if as_time (me_expiresAt e) \<le> now then None else Some e)" for k
    using assms(2) by (auto split: option.splits)
  have "nl_st l' = (\<lambda>k. if k \<in> set visit \<and> ?dead k then None else nl_st l k)" "n = length (filter ?dead visit)" "err = None"
    using assms(3) unfolding nf_GC_def loop by auto
  then show ?thesis unfolding st n using False by simp
qed

theorem nf_GC_exact_witness:
  "\<exists>l'. nf_GC 200 [stateKey ''g'' sample_recv] ((new_nflog 100)\<lparr>nl_st := [stateKey ''g'' sample_recv \<mapsto> sample_logged 5 [1]]\<rparr>) = (l', 1, None)
     \<and> nl_st l' = Map.empty"
proof -
  let ?l = "(new_nflog 100)\<lparr>nl_st := [stateKey ''g'' sample_recv \<mapsto> sample_logged 5 [1]]\<rparr>"
  obtain l' n err where g: "nf_GC 200 [stateKey ''g'' sample_recv] ?l = (l', n, err)" by (metis prod_cases3)
  have "as_time (me_expiresAt (sample_logged 5 [1])) = 105" by (simp add: sample_logged_def)
  then show ?thesis using nf_GC_exact [OF _ _ g] g by (auto simp: zero_time_def fun_eq_iff split: if_splits)
qed

section \<open>Snapshots\<close>

definition nf_codec_ok :: "nf_encoder \<Rightarrow> nf_decoder \<Rightarrow> bool" where
  "nf_codec_ok enc u \<longleftrightarrow> u [] = NfEOF \<and> (\<forall>e b rest. enc e = Some b \<longrightarrow>
     b \<noteq> [] \<and> u (b @ rest) = NfMessage (Some (Some (ne_receiver (me_entry e)), nf_body.truncate (me_entry e))) (me_expiresAt e) rest)"

definition nf_consumes :: "nf_decoder \<Rightarrow> bool" where
  "nf_consumes u \<longleftrightarrow> (\<forall>b m ex rest. u b = NfMessage m ex rest \<longrightarrow> length rest < length b)"

lemma nf_decode_loop_returns: "nf_consumes u \<Longrightarrow> length b < n \<Longrightarrow> nf_decode_loop n u b st \<noteq> None"
proof (induction n u b st rule: nf_decode_loop.induct)
  case (2 fuel u b st)
  have "length rest < fuel" if "u b = NfMessage m ex rest" for m ex rest
  proof -
    have "length rest < length b" using "2.prems"(1) that unfolding nf_consumes_def by blast
    then show ?thesis using "2.prems"(2) by simp
  qed
  then show ?case using "2.IH" "2.prems"(1) by (auto split: nf_frame.splits option.splits)
qed simp

text \<open>Decoding ends: every message takes at least one byte.\<close>

lemma nf_decodeState_returns: "nf_consumes u \<Longrightarrow> nf_decodeState u b \<noteq> None"
  unfolding nf_decodeState_def by (rule nf_decode_loop_returns) simp_all

lemma nf_put_new: "entry_key e \<notin> entry_key ` set es \<Longrightarrow> nf_put es e = es @ [e]"
  by (induction es) auto

lemma nf_mesh_truncate: "nf_mesh (ne_receiver (me_entry e)) (nf_body.truncate (me_entry e)) (me_expiresAt e) = e"
  by (cases e; cases "me_entry e") (simp add: nf_mesh_def nf_body.defs nf_entry.defs)

lemma nf_decode_marshalled:
  assumes "nf_codec_ok enc u"
  shows "nf_marshal_entries enc es = Inr b \<Longrightarrow> distinct (map entry_key (st @ es)) \<Longrightarrow> length b < n \<Longrightarrow>
    nf_decode_loop n u b st = Some (Inr (st @ es))"
proof (induction es arbitrary: b st n)
  case Nil
  then show ?case using assms by (cases n) (auto simp: nf_codec_ok_def)
next
  case (Cons e es)
  obtain b1 b2 where b: "enc e = Some b1" "nf_marshal_entries enc es = Inr b2" "b = b1 @ b2"
    using Cons.prems(1) by (auto split: option.splits sum.splits)
  have u: "b1 \<noteq> []" "u (b1 @ b2) = NfMessage (Some (Some (ne_receiver (me_entry e)), nf_body.truncate (me_entry e))) (me_expiresAt e) b2"
    using assms b(1) unfolding nf_codec_ok_def by blast+
  obtain n' where n: "n = Suc n'" "length b2 < n'" using Cons.prems(3) b(3) u(1) by (cases n; cases b1) auto
  have "nf_put st e = st @ [e]" using Cons.prems(2) by (intro nf_put_new) auto
  then show ?case using Cons.IH [OF b(2) _ n(2), of "st @ [e]"] Cons.prems(2) u(2) by (simp add: n b(3) nf_mesh_truncate)
qed

text \<open>
  C33: a snapshot of the notification log restores it: loading what \<^verbatim>\<open>Snapshot\<close> wrote, in whatever order it
  visited the state, into any log gives a log with the same state, provided that the wire encoding
  reads back what it wrote and the state is keyed by its entries' keys.
\<close>

theorem nflog_snapshot_roundtrip:
  assumes "nf_codec_ok enc u" "distinct visit" "set visit = dom (nl_st l)" "\<And>k e. nl_st l k = Some e \<Longrightarrow> entry_key e = k"
    and "nf_MarshalBinary enc visit l = Inr b"
  shows "nf_loadSnapshot u b l0 = Some (l0\<lparr>nl_st := nl_st l\<rparr>, None)"
proof -
  let ?es = "List.map_filter (nl_st l) visit"
  have keys: "map entry_key (List.map_filter (nl_st l) ks) = ks" if "set ks \<subseteq> dom (nl_st l)" for ks
    using that assms(4) by (induction ks) (auto simp: map_filter_simps)
  have "nf_decodeState u b = Some (Inr ([] @ ?es))"
    unfolding nf_decodeState_def using assms(5) assms(2) keys [of visit] assms(3)
    by (intro nf_decode_marshalled [OF assms(1)]) (simp_all add: nf_MarshalBinary_def)
  moreover have "nf_state_of ?es = nl_st l"
  proof
    fix k
    have "nf_state_of (List.map_filter (nl_st l) ks) k = (if k \<in> set ks then nl_st l k else None)" if "set ks \<subseteq> dom (nl_st l)" for ks
      using that assms(4) by (induction ks) (auto simp: map_filter_simps nf_state_of_def)
    then show "nf_state_of ?es k = nl_st l k" using assms(3) by auto
  qed
  ultimately show ?thesis by (simp add: nf_loadSnapshot_def)
qed

definition sample_encoder :: nf_encoder where
  "sample_encoder e = (if e = sample_logged 5 [1] then Some ''m'' else None)"

fun sample_decoder :: nf_decoder where
  "sample_decoder [] = NfEOF"
| "sample_decoder (c # rest) = (let e = sample_logged 5 [1] in
     if c = CHR ''m'' then NfMessage (Some (Some (ne_receiver (me_entry e)), nf_body.truncate (me_entry e))) (me_expiresAt e) rest else NfFail)"

theorem nflog_snapshot_roundtrip_witness:
  "nf_loadSnapshot sample_decoder ''m'' (new_nflog 7) =
     Some ((new_nflog 7)\<lparr>nl_st := [stateKey ''g'' sample_recv \<mapsto> sample_logged 5 [1]]\<rparr>, None)"
proof -
  let ?l = "(new_nflog 100)\<lparr>nl_st := [stateKey ''g'' sample_recv \<mapsto> sample_logged 5 [1]]\<rparr>"
  have ok: "nf_codec_ok sample_encoder sample_decoder" by (auto simp: nf_codec_ok_def sample_encoder_def Let_def)
  have "nf_loadSnapshot sample_decoder ''m'' (new_nflog 7) = Some ((new_nflog 7)\<lparr>nl_st := nl_st ?l\<rparr>, None)"
    by (rule nflog_snapshot_roundtrip [OF ok, of "[stateKey ''g'' sample_recv]"])
      (auto simp: nf_MarshalBinary_def sample_encoder_def map_filter_simps sample_logged_def split: if_splits)
  then show ?thesis by simp
qed

end
