(* ===== verification/Marker.thy ===== *)
theory Marker
  imports Alert
begin

text \<open>
  The markers, \<^verbatim>\<open>marker/alert.go\<close>, \<^verbatim>\<open>marker/status.go\<close> and \<^verbatim>\<open>marker/group.go\<close>: what the API shows of the
  silences and inhibitions of an alert, and of the time intervals that mute a group. A nil slice and
  an empty one are the same list.
\<close>

section \<open>Alerts\<close>

record marked =
  mk_inhibitedBy :: "string list"
  mk_silencedBy :: "string list"

type_synonym alert_marker = "fingerprint \<rightharpoonup> marked"

definition marked_state :: "marked \<Rightarrow> alert_state" where
  "marked_state s = (if 0 < length (mk_inhibitedBy s) \<or> 0 < length (mk_silencedBy s) then AlertStateSuppressed else AlertStateActive)"

definition find_mark :: "fingerprint \<Rightarrow> alert_marker \<Rightarrow> marked" where
  "find_mark fp m = (case m fp of Some s \<Rightarrow> s | None \<Rightarrow> \<lparr>mk_inhibitedBy = [], mk_silencedBy = []\<rparr>)"

definition SetSilenced :: "fingerprint \<Rightarrow> string list \<Rightarrow> alert_marker \<Rightarrow> alert_marker" where
  "SetSilenced fp silencedBy m = m(fp \<mapsto> (find_mark fp m)\<lparr>mk_silencedBy := silencedBy\<rparr>)"

definition SetInhibited :: "fingerprint \<Rightarrow> string list \<Rightarrow> alert_marker \<Rightarrow> alert_marker" where
  "SetInhibited fp inhibitedBy m = m(fp \<mapsto> (find_mark fp m)\<lparr>mk_inhibitedBy := inhibitedBy\<rparr>)"

definition Status_marker :: "fingerprint \<Rightarrow> alert_marker \<Rightarrow> alert_status" where
  "Status_marker fp m = (case m fp of
     None \<Rightarrow> \<lparr>st_state = AlertStateUnprocessed, st_silencedBy = [], st_inhibitedBy = []\<rparr>
   | Some s \<Rightarrow> \<lparr>st_state = marked_state s, st_silencedBy = mk_silencedBy s, st_inhibitedBy = mk_inhibitedBy s\<rparr>)"

definition Delete_marker :: "fingerprint list \<Rightarrow> alert_marker \<Rightarrow> alert_marker" where
  "Delete_marker fps m = fold (\<lambda>fp m. m(fp := None)) fps m"

lemma Status_SetSilenced:
  "Status_marker fp (SetSilenced fp' ids m) =
     (if fp = fp' then \<lparr>st_state = (if ids \<noteq> [] \<or> st_inhibitedBy (Status_marker fp m) \<noteq> [] then AlertStateSuppressed else AlertStateActive),
        st_silencedBy = ids, st_inhibitedBy = st_inhibitedBy (Status_marker fp m)\<rparr> else Status_marker fp m)"
  by (auto simp: Status_marker_def SetSilenced_def find_mark_def marked_state_def split: option.splits)

lemma Status_SetInhibited:
  "Status_marker fp (SetInhibited fp' ids m) =
     (if fp = fp' then \<lparr>st_state = (if ids \<noteq> [] \<or> st_silencedBy (Status_marker fp m) \<noteq> [] then AlertStateSuppressed else AlertStateActive),
        st_silencedBy = st_silencedBy (Status_marker fp m), st_inhibitedBy = ids\<rparr> else Status_marker fp m)"
  by (auto simp: Status_marker_def SetInhibited_def find_mark_def marked_state_def split: option.splits)

lemma Status_Delete: "fp \<in> set fps \<Longrightarrow> st_state (Status_marker fp (Delete_marker fps m)) = AlertStateUnprocessed"
proof -
  have "fold (\<lambda>fp m. m(fp := None)) fps m fp = (if fp \<in> set fps then None else m fp)" for fp
    by (induction fps arbitrary: m) auto
  then show "fp \<in> set fps \<Longrightarrow> ?thesis" by (simp add: Delete_marker_def Status_marker_def)
qed

section \<open>Groups\<close>

type_synonym group_marker = "(string \<times> string) \<rightharpoonup> string list"

definition Muted :: "string \<Rightarrow> string \<Rightarrow> group_marker \<Rightarrow> string list \<times> bool" where
  "Muted routeID groupKey m = (case m (routeID, groupKey) of
     None \<Rightarrow> ([], False)
   | Some mutedBy \<Rightarrow> (mutedBy, 0 < length mutedBy))"

definition SetMuted :: "string \<Rightarrow> string \<Rightarrow> string list \<Rightarrow> group_marker \<Rightarrow> group_marker" where
  "SetMuted routeID groupKey timeIntervalNames m = m((routeID, groupKey) \<mapsto> timeIntervalNames)"

definition DeleteByGroupKey :: "string \<Rightarrow> string \<Rightarrow> group_marker \<Rightarrow> group_marker" where
  "DeleteByGroupKey routeID groupKey m = m((routeID, groupKey) := None)"

end
