(* ===== verification/Civil_Time.thy ===== *)
theory Civil_Time
  imports AM_Prelude
begin

text \<open>
  What the program uses of Go's calendar: the year, month, day, weekday, hour and minute of an instant
  in a location (\<^verbatim>\<open>time.Time.In\<close> and its accessors), and \<^verbatim>\<open>time.Date\<close> with a day or a month out of range.
  The calendar is the Gregorian one, extended to all years, as in the \<^verbatim>\<open>time\<close> package. A location is the
  offset from UTC, in seconds, that holds at an instant.
\<close>

section \<open>Years\<close>

definition is_leap :: "int \<Rightarrow> bool" where
  "is_leap y \<longleftrightarrow> y mod 4 = 0 \<and> (y mod 100 \<noteq> 0 \<or> y mod 400 = 0)"

definition leaps :: "int \<Rightarrow> int" where
  "leaps y = y div 4 - y div 100 + y div 400"

text \<open>The number of days from 1 January 1970 to 1 January of a year.\<close>

definition jan1 :: "int \<Rightarrow> int" where
  "jan1 y = 365 * (y - 1970) + leaps (y - 1) - 477"

lemma leaps_arith:
  assumes "Q \<longrightarrow> P" "R \<longrightarrow> Q" "a = a' + (if P then 1 else 0)" "b = b' + (if Q then 1 else 0)" "c = c' + (if R then 1 else 0 :: int)"
  shows "a - b + c = a' - b' + c' + (if P \<and> (\<not> Q \<or> R) then 1 else 0)"
  unfolding assms(3-5) using assms(1,2) by (cases P; cases Q; cases R) simp_all

lemma div_step: "0 < n \<Longrightarrow> y div n = (y - 1) div n + (if y mod n = 0 then 1 else (0 :: int))"
proof -
  assume n: "0 < n"
  have y: "y = n * (y div n) + y mod n" by simp
  have r: "0 \<le> y mod n" "y mod n < n" using n by simp_all
  show ?thesis
  proof (cases "y mod n = 0")
    case True
    have "(y - 1) div n = y div n - 1" using y True n by (intro int_div_pos_eq [where r = "n - 1"]) (simp_all add: right_diff_distrib)
    then show ?thesis using True by simp
  next
    case False
    have "(y - 1) div n = y div n" using y r False by (intro int_div_pos_eq [where r = "y mod n - 1"]) simp_all
    then show ?thesis using False by simp
  qed
qed

lemma leaps_step: "leaps y = leaps (y - 1) + (if is_leap y then 1 else 0)"
  unfolding leaps_def is_leap_def
proof (rule leaps_arith)
  show "y mod 100 = 0 \<longrightarrow> y mod 4 = 0" "y mod 400 = 0 \<longrightarrow> y mod 100 = 0"
    using dvd_trans [of 4 100 y] dvd_trans [of 100 400 y] by (simp_all add: mod_eq_0_iff_dvd)
qed (rule div_step, simp)+

lemma jan1_step: "jan1 (y + 1) = jan1 y + (if is_leap y then 366 else 365)"
  using leaps_step [of y] by (simp add: jan1_def)

lemma jan1_1970: "jan1 1970 = 0"
  by (simp add: jan1_def leaps_def)

text \<open>The year of a day: an estimate from the mean length of a year, corrected by one if needed.\<close>

definition year_of :: "int \<Rightarrow> int" where
  "year_of d = (let y = (400 * (d + 719162)) div 146097 + 1 in
     if d < jan1 y then y - 1 else if jan1 (y + 1) \<le> d then y + 1 else y)"

lemma jan1_arith:
  fixes y a b c :: int
  assumes "4 * a \<le> y - 1" "y - 1 \<le> 4 * a + 3" "100 * b \<le> y - 1" "y - 1 \<le> 100 * b + 99" "400 * c \<le> y - 1" "y - 1 \<le> 400 * c + 399"
  shows "400 * (365 * (y - 1970) + (a - b + c) - 477) \<le> 146097 * (y - 1) - 400 * 719162 + 396
    \<and> 146097 * (y - 1) - 400 * 719162 - 699 \<le> 400 * (365 * (y - 1970) + (a - b + c) - 477)"
  using assms by (simp add: algebra_simps)

lemma div_bounds: "0 < n \<Longrightarrow> n * (a div n) \<le> a \<and> a < n * (a div n) + (n :: int)"
  using mult_div_mod_eq [of n a] pos_mod_bound [of n a] pos_mod_sign [of n a] by linarith

lemma jan1_bounds: "400 * jan1 y \<le> 146097 * (y - 1) - 400 * 719162 + 396 \<and> 146097 * (y - 1) - 400 * 719162 - 699 \<le> 400 * jan1 y"
proof -
  have "4 * ((y - 1) div 4) \<le> y - 1" "y - 1 \<le> 4 * ((y - 1) div 4) + 3"
    "100 * ((y - 1) div 100) \<le> y - 1" "y - 1 \<le> 100 * ((y - 1) div 100) + 99"
    "400 * ((y - 1) div 400) \<le> y - 1" "y - 1 \<le> 400 * ((y - 1) div 400) + 399"
    using div_bounds [of 4 "y - 1"] div_bounds [of 100 "y - 1"] div_bounds [of 400 "y - 1"] by simp_all
  then show ?thesis unfolding jan1_def leaps_def by (rule jan1_arith)
qed

lemma year_of_correct: "jan1 (year_of d) \<le> d \<and> d < jan1 (year_of d + 1)"
proof -
  define y where "y = (400 * (d + 719162)) div 146097 + 1"
  have e: "146097 * (y - 1) \<le> 400 * (d + 719162)" "400 * (d + 719162) < 146097 * y"
    using div_bounds [of 146097 "400 * (d + 719162)"] by (simp_all add: y_def)
  have lo: "jan1 (y - 1) \<le> d" using conjunct1 [OF jan1_bounds [of "y - 1"]] e by (simp add: algebra_simps)
  have hi: "d < jan1 (y + 2)" using conjunct2 [OF jan1_bounds [of "y + 2"]] e by (simp add: algebra_simps)
  have "year_of d = (if d < jan1 y then y - 1 else if jan1 (y + 1) \<le> d then y + 1 else y)"
    by (simp add: year_of_def y_def Let_def)
  then show ?thesis using lo hi by (simp add: add.assoc)
qed

lemma jan1_mono: "y < y' \<Longrightarrow> jan1 y < jan1 y'"
proof (induction "nat (y' - y)" arbitrary: y')
  case (Suc n)
  have s: "jan1 (y' - 1) < jan1 y'" using jan1_step [of "y' - 1"] by simp
  show ?case
  proof (cases "y' - 1 = y")
    case False
    then have "jan1 y < jan1 (y' - 1)" using Suc by (intro Suc.hyps(1)) auto
    then show ?thesis using s by simp
  qed (use s in simp)
qed simp

lemma jan1_le: "y \<le> y' \<Longrightarrow> jan1 y \<le> jan1 y'"
  using jan1_mono [of y y'] by (cases "y = y'") auto

lemma year_of_unique:
  assumes "jan1 y \<le> d" "d < jan1 (y + 1)"
  shows "year_of d = y"
proof (rule antisym)
  show "year_of d \<le> y" using jan1_le [of "y + 1" "year_of d"] year_of_correct [of d] assms by force
  show "y \<le> year_of d" using jan1_le [of "year_of d + 1" y] year_of_correct [of d] assms by force
qed

section \<open>Months and days\<close>

definition month_days :: "int \<Rightarrow> int \<Rightarrow> int" where
  "month_days y m = (if m = 2 then (if is_leap y then 29 else 28) else if m \<in> {4, 6, 9, 11} then 30 else 31)"

text \<open>The days of a year before a month (1 to 12), in a common year and in the given year.\<close>

definition days_before :: "int \<Rightarrow> int \<Rightarrow> int" where
  "days_before y m = [0, 31, 59, 90, 120, 151, 181, 212, 243, 273, 304, 334] ! nat (m - 1) + (if 2 < m \<and> is_leap y then 1 else 0)"

definition month_of :: "int \<Rightarrow> int \<Rightarrow> int" where
  "month_of y doy = the (find (\<lambda>m. days_before y m \<le> doy) [12, 11, 10, 9, 8, 7, 6, 5, 4, 3, 2, 1])"

text \<open>The day number of a date: the month and the day may be out of range, as \<^verbatim>\<open>time.Date\<close> allows.\<close>

definition date_days :: "int \<Rightarrow> int \<Rightarrow> int \<Rightarrow> int" where
  "date_days y m d = (let y' = y + (m - 1) div 12; m' = (m - 1) mod 12 + 1 in jan1 y' + days_before y' m' + d - 1)"

record civil =
  cv_year :: int
  cv_month :: int
  cv_day :: int

definition civil_of :: "int \<Rightarrow> civil" where
  "civil_of n = (let y = year_of n; doy = n - jan1 y; m = month_of y doy
     in \<lparr>cv_year = y, cv_month = m, cv_day = doy - days_before y m + 1\<rparr>)"

lemma months_cases: "1 \<le> m \<Longrightarrow> m \<le> 12 \<Longrightarrow> m \<in> {1, 2, 3, 4, 5, 6, 7, 8, 9, 10, 11, 12 :: int}"
  by simp presburger

lemma days_before_simps [simp]:
  "days_before y 1 = 0" "days_before y 2 = 31"
  "days_before y 3 = 59 + (if is_leap y then 1 else 0)" "days_before y 4 = 90 + (if is_leap y then 1 else 0)"
  "days_before y 5 = 120 + (if is_leap y then 1 else 0)" "days_before y 6 = 151 + (if is_leap y then 1 else 0)"
  "days_before y 7 = 181 + (if is_leap y then 1 else 0)" "days_before y 8 = 212 + (if is_leap y then 1 else 0)"
  "days_before y 9 = 243 + (if is_leap y then 1 else 0)" "days_before y 10 = 273 + (if is_leap y then 1 else 0)"
  "days_before y 11 = 304 + (if is_leap y then 1 else 0)" "days_before y 12 = 334 + (if is_leap y then 1 else 0)"
  by (simp_all add: days_before_def)

lemma month_end:
  assumes "1 \<le> m" "m \<le> 12"
  shows "days_before y m + month_days y m = (if m = 12 then (if is_leap y then 366 else 365) else days_before y (m + 1))"
  using months_cases [OF assms] by (auto simp: month_days_def)

lemma days_before_mono:
  assumes "1 \<le> m" "m < m'" "m' \<le> 12"
  shows "days_before y m + month_days y m \<le> days_before y m'"
proof -
  have "m + 1 \<le> m'" using assms(2) by simp
  then have "days_before y (m + 1) \<le> days_before y m'" using assms(3)
  proof (induction m' rule: int_ge_induct)
    case (step i)
    have "0 \<le> month_days y i" by (simp add: month_days_def)
    then show ?case using step month_end [of i y] assms(1) by (simp split: if_splits)
  qed simp
  then show ?thesis using month_end [of m y] assms by simp
qed

lemma find_month: "distinct ms \<Longrightarrow> m \<in> set ms \<Longrightarrow> P m \<Longrightarrow> (\<And>m'. m' \<in> set ms \<Longrightarrow> P m' \<Longrightarrow> m' \<le> m) \<Longrightarrow> sorted (rev ms) \<Longrightarrow> find P ms = Some (m :: int)"
  by (induction ms) (force simp: sorted_append)+

lemma month_of_date:
  assumes "1 \<le> m" "m \<le> 12" "1 \<le> d" "d \<le> month_days y m"
  shows "month_of y (days_before y m + d - 1) = m"
proof -
  have "m' \<le> m" if m': "m' \<in> set [12, 11, 10, 9, 8, 7, 6, 5, 4, 3, 2, 1]" "days_before y m' \<le> days_before y m + d - 1" for m'
  proof (rule ccontr)
    assume "\<not> m' \<le> m"
    then have "days_before y m + month_days y m \<le> days_before y m'" using m'(1) assms(1) by (intro days_before_mono) auto
    then show False using m'(2) assms(4) by simp
  qed
  then have "find (\<lambda>m'. days_before y m' \<le> days_before y m + d - 1) [12, 11, 10, 9, 8, 7, 6, 5, 4, 3, 2, 1] = Some m"
    using months_cases [OF assms(1,2)] assms(3) by (intro find_month) auto
  then show ?thesis by (simp add: month_of_def del: find.simps)
qed

lemma days_before_bounds: "1 \<le> m \<Longrightarrow> m \<le> 12 \<Longrightarrow> 0 \<le> days_before y m \<and> days_before y m + month_days y m \<le> (if is_leap y then 366 else 365)"
  using months_cases [of m] by (auto simp: month_days_def)

text \<open>A date in range is what its day number stands for.\<close>

lemma civil_of_date:
  assumes "1 \<le> m" "m \<le> 12" "1 \<le> d" "d \<le> month_days y m"
  shows "civil_of (date_days y m d) = \<lparr>cv_year = y, cv_month = m, cv_day = d\<rparr>"
proof -
  have n: "date_days y m d = jan1 y + (days_before y m + d - 1)" using assms(1,2) by (simp add: date_days_def)
  have "year_of (date_days y m d) = y"
    using days_before_bounds [OF assms(1,2), of y] assms(3,4) by (intro year_of_unique) (auto simp: n jan1_step)
  then show ?thesis using month_of_date [OF assms] by (simp add: civil_of_def n Let_def)
qed

text \<open>Every day has a date in range, and its number is the day.\<close>

lemma month_of_range:
  assumes "0 \<le> doy" "doy < (if is_leap y then 366 else 365)"
  obtains m where "month_of y doy = m" "1 \<le> m" "m \<le> 12" "days_before y m \<le> doy" "doy < days_before y m + month_days y m"
proof -
  have "\<exists>m. 1 \<le> m \<and> m \<le> 12 \<and> days_before y m \<le> doy \<and> doy < days_before y m + month_days y m"
  proof (rule ccontr)
    assume no: "\<not> ?thesis"
    have "days_before y m \<le> doy" if "1 \<le> m" "m \<le> 12" for m
      using that
    proof (induction "nat m" arbitrary: m)
      case (Suc k)
      show ?case
      proof (cases "m = 1")
        case False
        then have "days_before y (m - 1) \<le> doy" using Suc by (intro Suc.hyps(1)) auto
        moreover have "days_before y (m - 1) + month_days y (m - 1) = days_before y m"
          using month_end [of "m - 1" y] False Suc.prems by simp
        ultimately show ?thesis using no False Suc.prems by (smt (verit))
      qed (use assms(1) in simp)
    qed simp
    from this [of 12] show False using no month_end [of 12 y] assms(2) by force
  qed
  then obtain m where m: "1 \<le> m" "m \<le> 12" "days_before y m \<le> doy" "doy < days_before y m + month_days y m" by blast
  have "month_of y (days_before y m + (doy - days_before y m + 1) - 1) = m"
    using m by (intro month_of_date) auto
  then show ?thesis using that m by simp
qed

lemma civil_of_valid:
  "1 \<le> cv_month (civil_of n)" "cv_month (civil_of n) \<le> 12" "1 \<le> cv_day (civil_of n)"
  "cv_day (civil_of n) \<le> month_days (cv_year (civil_of n)) (cv_month (civil_of n))"
  "date_days (cv_year (civil_of n)) (cv_month (civil_of n)) (cv_day (civil_of n)) = n"
proof -
  let ?y = "year_of n"
  have d: "0 \<le> n - jan1 ?y" "n - jan1 ?y < (if is_leap ?y then 366 else 365)"
    using year_of_correct [of n] jan1_step [of ?y] by auto
  obtain m where m: "month_of ?y (n - jan1 ?y) = m" "1 \<le> m" "m \<le> 12" "days_before ?y m \<le> n - jan1 ?y"
      "n - jan1 ?y < days_before ?y m + month_days ?y m"
    using month_of_range [OF d] by metis
  have c: "civil_of n = \<lparr>cv_year = ?y, cv_month = m, cv_day = n - jan1 ?y - days_before ?y m + 1\<rparr>"
    using m(1) by (simp add: civil_of_def Let_def)
  show "1 \<le> cv_month (civil_of n)" "cv_month (civil_of n) \<le> 12" "1 \<le> cv_day (civil_of n)"
    "cv_day (civil_of n) \<le> month_days (cv_year (civil_of n)) (cv_month (civil_of n))"
    "date_days (cv_year (civil_of n)) (cv_month (civil_of n)) (cv_day (civil_of n)) = n"
    unfolding c using m(2-5) by (simp_all add: date_days_def)
qed

text \<open>The day before the first of the next month is the last of this month.\<close>

lemma last_of_month:
  assumes "1 \<le> m" "m \<le> 12"
  shows "cv_day (civil_of (date_days y (m + 1) 0)) = month_days y m"
proof -
  have "date_days y (m + 1) 0 = date_days y m (month_days y m)"
  proof (cases "m = 12")
    case True
    then show ?thesis by (simp add: date_days_def jan1_step month_days_def)
  next
    case False
    then show ?thesis using month_end [OF assms, of y] assms by (simp add: date_days_def)
  qed
  moreover have "1 \<le> month_days y m" by (simp add: month_days_def)
  ultimately show ?thesis using civil_of_date [OF assms, of "month_days y m" y] by simp
qed

section \<open>The fields of an instant in a location\<close>

type_synonym location = "time \<Rightarrow> int"

definition local_seconds :: "location \<Rightarrow> time \<Rightarrow> int" where
  "local_seconds loc t = unix_seconds t + loc t"

definition local_day :: "location \<Rightarrow> time \<Rightarrow> int" where
  "local_day loc t = local_seconds loc t div 86400"

definition t_Year :: "location \<Rightarrow> time \<Rightarrow> int" where "t_Year loc t = cv_year (civil_of (local_day loc t))"
definition t_Month :: "location \<Rightarrow> time \<Rightarrow> int" where "t_Month loc t = cv_month (civil_of (local_day loc t))"
definition t_Day :: "location \<Rightarrow> time \<Rightarrow> int" where "t_Day loc t = cv_day (civil_of (local_day loc t))"
definition t_Hour :: "location \<Rightarrow> time \<Rightarrow> int" where "t_Hour loc t = local_seconds loc t mod 86400 div 3600"
definition t_Minute :: "location \<Rightarrow> time \<Rightarrow> int" where "t_Minute loc t = local_seconds loc t mod 3600 div 60"

text \<open>Sunday is 0; 1 January 1970 was a Thursday.\<close>

definition t_Weekday :: "location \<Rightarrow> time \<Rightarrow> int" where
  "t_Weekday loc t = (local_day loc t + 4) mod 7"

end
