(* ===== verification/Time_Interval.thy ===== *)
theory Time_Interval
  imports Civil_Time Go_Strings "HOL-Library.Signed_Division"
begin

text \<open>
  Time intervals, \<^verbatim>\<open>timeinterval/timeinterval.go\<close>: whether an instant lies in a configured interval, which
  routes use to mute notifications, and the textual form of the ranges an interval is made of. A
  component of an interval that is not configured (a nil slice) restricts nothing. What the YAML
  library decodes (a string, or a pair of strings) is the input of the model's parsers; the Unicode
  table of \<^verbatim>\<open>strings.ToLower\<close> is the argument \<open>lr\<close>.
\<close>

section \<open>Ranges and intervals\<close>

record time_range =
  tr_StartMinute :: int
  tr_EndMinute :: int

record inclusive_range =
  ig_Begin :: int
  ig_End :: int

record time_interval =
  ti_Times :: "time_range list option"
  ti_Weekdays :: "inclusive_range list option"
  ti_DaysOfMonth :: "inclusive_range list option"
  ti_Months :: "inclusive_range list option"
  ti_Years :: "inclusive_range list option"
  ti_Location :: "location option"

definition daysInMonth :: "location \<Rightarrow> time \<Rightarrow> int" where
  "daysInMonth loc t = cv_day (civil_of (date_days (t_Year loc t) (t_Month loc t + 1) 0))"

definition clamp :: "int \<Rightarrow> int \<Rightarrow> int \<Rightarrow> int" where
  "clamp n lo hi = (if n \<le> lo then lo else if hi \<le> n then hi else n)"

definition minute_in :: "location \<Rightarrow> time \<Rightarrow> time_range \<Rightarrow> bool" where
  "minute_in loc t validMinutes \<longleftrightarrow>
     tr_StartMinute validMinutes \<le> t_Hour loc t * 60 + t_Minute loc t \<and> t_Hour loc t * 60 + t_Minute loc t < tr_EndMinute validMinutes"

text \<open>One round of the loop over the days of the month; the round that is skipped is false.\<close>

definition day_in :: "location \<Rightarrow> time \<Rightarrow> inclusive_range \<Rightarrow> bool" where
  "day_in loc t validDates =
     (let dim = daysInMonth loc t;
          begin = (if ig_Begin validDates < 0 then dim + ig_Begin validDates + 1 else ig_Begin validDates);
          end = (if ig_End validDates < 0 then dim + ig_End validDates + 1 else ig_End validDates)
      in if dim < begin then False
         else (let begin' = clamp begin (- 1 * dim) dim; end' = clamp end (- 1 * dim) dim
               in begin' \<le> t_Day loc t \<and> t_Day loc t \<le> end'))"

definition in_range :: "int \<Rightarrow> inclusive_range \<Rightarrow> bool" where
  "in_range n r \<longleftrightarrow> ig_Begin r \<le> n \<and> n \<le> ig_End r"

definition component :: "('r \<Rightarrow> bool) \<Rightarrow> 'r list option \<Rightarrow> bool" where
  "component P rs = (case rs of None \<Rightarrow> True | Some xs \<Rightarrow> list_ex P xs)"

definition ContainsTime :: "time_interval \<Rightarrow> location \<Rightarrow> time \<Rightarrow> bool" where
  "ContainsTime tp loc0 t =
     (let loc = (case ti_Location tp of Some l \<Rightarrow> l | None \<Rightarrow> loc0) in
      if \<not> component (minute_in loc t) (ti_Times tp) then False
      else if \<not> component (day_in loc t) (ti_DaysOfMonth tp) then False
      else if \<not> component (in_range (t_Month loc t)) (ti_Months tp) then False
      else if \<not> component (in_range (t_Weekday loc t)) (ti_Weekdays tp) then False
      else if \<not> component (in_range (t_Year loc t)) (ti_Years tp) then False
      else True)"

section \<open>The intervener\<close>

abbreviation UTC :: location where
  "UTC \<equiv> \<lambda>_. 0"

text \<open>\<^verbatim>\<open>Intervener.Mutes\<close>: whether some interval of the names contains the instant, and the names of those
  that do, once for each interval; a name without an entry is an error (its name is returned).\<close>

fun intervener_loop :: "(string \<rightharpoonup> time_interval list) \<Rightarrow> string list \<Rightarrow> time \<Rightarrow> string list \<Rightarrow> string + string list" where
  "intervener_loop ivs [] now ins = Inr ins"
| "intervener_loop ivs (name # names) now ins = (case ivs name of
     None \<Rightarrow> Inl name
   | Some interval \<Rightarrow>
       intervener_loop ivs names now (ins @ map (\<lambda>_. name) (filter (\<lambda>ti. ContainsTime ti UTC now) interval)))"

definition Intervener_Mutes :: "(string \<rightharpoonup> time_interval list) \<Rightarrow> string list \<Rightarrow> time \<Rightarrow> string + bool \<times> string list" where
  "Intervener_Mutes ivs names now = (case intervener_loop ivs names now [] of
     Inl e \<Rightarrow> Inl e
   | Inr ins \<Rightarrow> Inr (0 < length ins, ins))"

section \<open>Parsing\<close>

datatype range_error = NotANumber | NotAWeekday | NotAMonth | BadRangeFormat | StartAfterEnd | OutOfRange
  | EndMustBeNegative | EndAlwaysBeforeStart | TimesMissing | BadTimeFormat | TimeOutOfRange | NoWeekdayName

definition daysOfWeek :: "string \<rightharpoonup> int" where
  "daysOfWeek = [''sunday'' \<mapsto> 0, ''monday'' \<mapsto> 1, ''tuesday'' \<mapsto> 2, ''wednesday'' \<mapsto> 3, ''thursday'' \<mapsto> 4, ''friday'' \<mapsto> 5, ''saturday'' \<mapsto> 6]"

definition daysOfWeekInv :: "int \<rightharpoonup> string" where
  "daysOfWeekInv = [0 \<mapsto> ''sunday'', 1 \<mapsto> ''monday'', 2 \<mapsto> ''tuesday'', 3 \<mapsto> ''wednesday'', 4 \<mapsto> ''thursday'', 5 \<mapsto> ''friday'', 6 \<mapsto> ''saturday'']"

definition months :: "string \<rightharpoonup> int" where
  "months = [''january'' \<mapsto> 1, ''february'' \<mapsto> 2, ''march'' \<mapsto> 3, ''april'' \<mapsto> 4, ''may'' \<mapsto> 5, ''june'' \<mapsto> 6, ''july'' \<mapsto> 7,
     ''august'' \<mapsto> 8, ''september'' \<mapsto> 9, ''october'' \<mapsto> 10, ''november'' \<mapsto> 11, ''december'' \<mapsto> 12]"

definition plain_member :: "string \<Rightarrow> range_error + int" where
  "plain_member s = (case atoi s of None \<Rightarrow> Inl NotANumber | Some n \<Rightarrow> Inr n)"

definition weekday_member :: "string \<Rightarrow> range_error + int" where
  "weekday_member s = (case daysOfWeek s of None \<Rightarrow> Inl NotAWeekday | Some n \<Rightarrow> Inr n)"

definition month_member :: "string \<Rightarrow> range_error + int" where
  "month_member s = (case months s of
     Some n \<Rightarrow> Inr n
   | None \<Rightarrow> (case atoi s of None \<Rightarrow> Inl NotAMonth | Some n \<Rightarrow> Inr n))"

definition stringableRangeFromString ::
  "(string \<Rightarrow> string) \<Rightarrow> (string \<Rightarrow> range_error + int) \<Rightarrow> string \<Rightarrow> range_error + inclusive_range" where
  "stringableRangeFromString lr memberFromString s0 =
     (let s = to_lower lr s0 in
      if CHR '':'' \<in> set s then
        (case split_on CHR '':'' s of
           [a, b] \<Rightarrow> (case memberFromString a of
               Inl e \<Rightarrow> Inl e
             | Inr start \<Rightarrow> (case memberFromString b of Inl e \<Rightarrow> Inl e | Inr End \<Rightarrow> Inr \<lparr>ig_Begin = start, ig_End = End\<rparr>))
         | _ \<Rightarrow> Inl BadRangeFormat)
      else (case memberFromString s of Inl e \<Rightarrow> Inl e | Inr val \<Rightarrow> Inr \<lparr>ig_Begin = val, ig_End = val\<rparr>))"

definition UnmarshalWeekdayRange :: "(string \<Rightarrow> string) \<Rightarrow> string \<Rightarrow> range_error + inclusive_range" where
  "UnmarshalWeekdayRange lr s = (case stringableRangeFromString lr weekday_member s of
     Inl e \<Rightarrow> Inl e
   | Inr r \<Rightarrow>
       if ig_End r < ig_Begin r then Inl StartAfterEnd
       else if ig_Begin r < 0 \<or> 6 < ig_Begin r then Inl OutOfRange
       else if ig_End r < 0 \<or> 6 < ig_End r then Inl OutOfRange
       else Inr r)"

definition UnmarshalDayOfMonthRange :: "(string \<Rightarrow> string) \<Rightarrow> string \<Rightarrow> range_error + inclusive_range" where
  "UnmarshalDayOfMonthRange lr s = (case stringableRangeFromString lr plain_member s of
     Inl e \<Rightarrow> Inl e
   | Inr r \<Rightarrow>
       if ig_Begin r = 0 \<or> ig_Begin r < - 31 \<or> 31 < ig_Begin r then Inl OutOfRange
       else if ig_End r = 0 \<or> ig_End r < - 31 \<or> 31 < ig_End r then Inl OutOfRange
       else if ig_Begin r < 0 \<and> 0 < ig_End r then Inl EndMustBeNegative
       else (let checkBegin = (if ig_Begin r < 0 then 28 + ig_Begin r else ig_Begin r);
                 checkEnd = (if ig_End r < 0 then 28 + ig_End r else ig_End r)
             in if checkEnd < checkBegin then Inl EndAlwaysBeforeStart else Inr r))"

definition UnmarshalMonthRange :: "(string \<Rightarrow> string) \<Rightarrow> string \<Rightarrow> range_error + inclusive_range" where
  "UnmarshalMonthRange lr s = (case stringableRangeFromString lr month_member s of
     Inl e \<Rightarrow> Inl e
   | Inr r \<Rightarrow> if ig_End r < ig_Begin r then Inl StartAfterEnd else Inr r)"

definition UnmarshalYearRange :: "(string \<Rightarrow> string) \<Rightarrow> string \<Rightarrow> range_error + inclusive_range" where
  "UnmarshalYearRange lr s = (case stringableRangeFromString lr plain_member s of
     Inl e \<Rightarrow> Inl e
   | Inr r \<Rightarrow> if ig_End r < ig_Begin r then Inl StartAfterEnd else Inr r)"

text \<open>The expression \<^verbatim>\<open>^((([01][0-9])|(2[0-3])):[0-5][0-9])$|(^24:00$)\<close>.\<close>

definition validTime :: "string \<Rightarrow> bool" where
  "validTime s \<longleftrightarrow> (case s of
     [a, b, c, d, e] \<Rightarrow> c = CHR '':'' \<and> d \<in> set ''012345'' \<and> is_digit e
       \<and> (a \<in> set ''01'' \<and> is_digit b \<or> a = CHR ''2'' \<and> b \<in> set ''0123'')
   | _ \<Rightarrow> False) \<or> s = ''24:00''"

definition parseTime :: "string \<Rightarrow> range_error + int" where
  "parseTime s =
     (if \<not> validTime s then Inl BadTimeFormat
      else (case split_on CHR '':'' s of
          [h, m] \<Rightarrow> (case atoi h of
              None \<Rightarrow> Inl NotANumber
            | Some hours \<Rightarrow> (case atoi m of
                None \<Rightarrow> Inl NotANumber
              | Some minutes \<Rightarrow>
                  if hours < 0 \<or> 24 < hours \<or> minutes < 0 \<or> 60 < minutes then Inl TimeOutOfRange
                  else Inr (hours * 60 + minutes)))
        | _ \<Rightarrow> Inl BadTimeFormat))"

definition UnmarshalTimeRange :: "string \<times> string \<Rightarrow> range_error + time_range" where
  "UnmarshalTimeRange y = (case y of (startTime, endTime) \<Rightarrow>
     if endTime = '''' \<or> startTime = '''' then Inl TimesMissing
     else (case parseTime startTime of
         Inl e \<Rightarrow> Inl e
       | Inr start \<Rightarrow> (case parseTime endTime of
           Inl e \<Rightarrow> Inl e
         | Inr end \<Rightarrow> if end \<le> start then Inl StartAfterEnd else Inr \<lparr>tr_StartMinute = start, tr_EndMinute = end\<rparr>)))"

section \<open>Printing\<close>

definition MarshalWeekdayRange :: "inclusive_range \<Rightarrow> range_error + string" where
  "MarshalWeekdayRange r = (case daysOfWeekInv (ig_Begin r) of
     None \<Rightarrow> Inl NoWeekdayName
   | Some beginStr \<Rightarrow>
       if ig_Begin r = ig_End r then Inr beginStr
       else (case daysOfWeekInv (ig_End r) of
           None \<Rightarrow> Inl NoWeekdayName
         | Some endStr \<Rightarrow> Inr (beginStr @ '':'' @ endStr)))"

definition MarshalInclusiveRange :: "inclusive_range \<Rightarrow> string" where
  "MarshalInclusiveRange r =
     (if ig_Begin r = ig_End r then itoa_int (ig_Begin r) else itoa_int (ig_Begin r) @ '':'' @ itoa_int (ig_End r))"

text \<open>The verb \<^verbatim>\<open>%02d\<close>, and Go's division, which rounds to zero.\<close>

definition pad2 :: "int \<Rightarrow> string" where
  "pad2 n = (if 0 \<le> n \<and> n < 10 then CHR ''0'' # itoa_int n else itoa_int n)"

definition MarshalTimeRange :: "time_range \<Rightarrow> string \<times> string" where
  "MarshalTimeRange tr =
     (let startHr = tr_StartMinute tr sdiv 60; endHr = tr_EndMinute tr sdiv 60;
          startMin = tr_StartMinute tr smod 60; endMin = tr_EndMinute tr smod 60
      in (pad2 startHr @ '':'' @ pad2 startMin, pad2 endHr @ '':'' @ pad2 endMin))"

section \<open>What an interval contains\<close>

text \<open>The specification: the minute of the day, and the date in the calendar with the true length of the
  month, a negative day counting from the end of the month; no clamping and no skipping.\<close>

definition from_end :: "int \<Rightarrow> int \<Rightarrow> int" where
  "from_end len n = (if n < 0 then len + n + 1 else n)"

definition minute_of_day :: "location \<Rightarrow> time \<Rightarrow> int" where
  "minute_of_day loc t = local_seconds loc t mod 86400 div 60"

definition interval_spec :: "time_interval \<Rightarrow> location \<Rightarrow> time \<Rightarrow> bool" where
  "interval_spec tp loc t \<longleftrightarrow>
     (let c = civil_of (local_day loc t); len = month_days (cv_year c) (cv_month c) in
       (\<forall>rs. ti_Times tp = Some rs \<longrightarrow> (\<exists>r \<in> set rs. tr_StartMinute r \<le> minute_of_day loc t \<and> minute_of_day loc t < tr_EndMinute r))
       \<and> (\<forall>rs. ti_DaysOfMonth tp = Some rs \<longrightarrow> (\<exists>r \<in> set rs. from_end len (ig_Begin r) \<le> cv_day c \<and> cv_day c \<le> from_end len (ig_End r)))
       \<and> (\<forall>rs. ti_Months tp = Some rs \<longrightarrow> (\<exists>r \<in> set rs. ig_Begin r \<le> cv_month c \<and> cv_month c \<le> ig_End r))
       \<and> (\<forall>rs. ti_Weekdays tp = Some rs \<longrightarrow> (\<exists>r \<in> set rs. ig_Begin r \<le> (local_day loc t + 4) mod 7 \<and> (local_day loc t + 4) mod 7 \<le> ig_End r))
       \<and> (\<forall>rs. ti_Years tp = Some rs \<longrightarrow> (\<exists>r \<in> set rs. ig_Begin r \<le> cv_year c \<and> cv_year c \<le> ig_End r)))"

lemma minute_of_day_eq: "t_Hour loc t * 60 + t_Minute loc t = minute_of_day loc t"
proof -
  let ?s = "local_seconds loc t mod 86400"
  have "local_seconds loc t mod 3600 = ?s mod 3600" by (simp add: mod_mod_cancel)
  moreover have "?s div 3600 * 60 + ?s mod 3600 div 60 = ?s div 60"
  proof -
    have "?s div 60 = (60 * (60 * (?s div 3600)) + ?s mod 3600) div 60" by (simp add: mult.assoc [symmetric])
    also have "\<dots> = 60 * (?s div 3600) + ?s mod 3600 div 60" by (subst div_mult_self4) simp_all
    finally show ?thesis by simp
  qed
  ultimately show ?thesis by (simp add: t_Hour_def t_Minute_def minute_of_day_def)
qed

lemma daysInMonth_eq: "daysInMonth loc t = month_days (t_Year loc t) (t_Month loc t)"
  unfolding daysInMonth_def by (rule last_of_month) (simp_all add: t_Month_def civil_of_valid)

lemma clamp_month:
  "1 \<le> d \<Longrightarrow> d \<le> len \<Longrightarrow> n \<le> len \<Longrightarrow> clamp n (- len) len \<le> d \<longleftrightarrow> n \<le> d"
  "1 \<le> d \<Longrightarrow> d \<le> len \<Longrightarrow> d \<le> clamp n (- len) len \<longleftrightarrow> d \<le> n"
  by (auto simp: clamp_def)

lemma day_in_eq: "day_in loc t r \<longleftrightarrow>
  from_end (daysInMonth loc t) (ig_Begin r) \<le> t_Day loc t \<and> t_Day loc t \<le> from_end (daysInMonth loc t) (ig_End r)"
proof -
  have "1 \<le> t_Day loc t" "t_Day loc t \<le> daysInMonth loc t"
    unfolding daysInMonth_eq by (simp_all add: t_Day_def t_Month_def t_Year_def civil_of_valid)
  then show ?thesis by (auto simp: day_in_def clamp_month from_end_def [symmetric] Let_def)
qed

lemma component_iff: "component P rs \<longleftrightarrow> (\<forall>xs. rs = Some xs \<longrightarrow> (\<exists>x \<in> set xs. P x))"
  by (auto simp: component_def list_ex_iff split: option.splits)

text \<open>
  C30: the loops of \<^verbatim>\<open>ContainsTime\<close>, with their clamping to the month and the rounds they skip, decide the plain
  meaning of an interval: in the interval's location, the minute of the day, the day of the month
  (counted from the end of the month if negative, with the length the month has in its year), the
  month, the weekday and the year each lie in one of the ranges configured for them.
\<close>

theorem ContainsTime_spec:
  "ContainsTime tp loc0 t \<longleftrightarrow> interval_spec tp (case ti_Location tp of Some l \<Rightarrow> l | None \<Rightarrow> loc0) t"
  by (simp add: ContainsTime_def interval_spec_def Let_def component_iff day_in_eq minute_in_def minute_of_day_eq in_range_def
    daysInMonth_eq t_Day_def t_Month_def t_Year_def t_Weekday_def)

section \<open>The intervener's answer\<close>

lemma intervener_loop_spec:
  "intervener_loop ivs names now ins = (if \<exists>n \<in> set names. ivs n = None then Inl (hd (filter (\<lambda>n. ivs n = None) names))
     else Inr (ins @ concat (map (\<lambda>n. map (\<lambda>_. n) (filter (\<lambda>ti. ContainsTime ti UTC now) (the (ivs n)))) names)))"
  by (induction names arbitrary: ins) (auto split: option.splits)

definition found :: "(string \<rightharpoonup> time_interval list) \<Rightarrow> string list \<Rightarrow> time \<Rightarrow> string list" where
  "found ivs names now = concat (map (\<lambda>n. map (\<lambda>_. n) (filter (\<lambda>ti. ContainsTime ti UTC now) (the (ivs n)))) names)"

lemma found_names: "set (found ivs names now) = {n \<in> set names. \<exists>ti \<in> set (the (ivs n)). ContainsTime ti UTC now}"
  by (auto simp: found_def image_iff)

lemma Intervener_Mutes_eq: "Intervener_Mutes ivs names now =
  (if \<exists>n \<in> set names. ivs n = None then Inl (hd (filter (\<lambda>n. ivs n = None) names)) else Inr (found ivs names now \<noteq> [], found ivs names now))"
  by (simp add: Intervener_Mutes_def intervener_loop_spec found_def [symmetric])

lemma Intervener_Mutes_iff: "Intervener_Mutes ivs names now = Inr (b, ins) \<Longrightarrow>
  b \<longleftrightarrow> (\<exists>n \<in> set names. \<exists>ti \<in> set (the (ivs n)). ContainsTime ti UTC now)"
proof -
  assume "Intervener_Mutes ivs names now = Inr (b, ins)"
  then have "b \<longleftrightarrow> set (found ivs names now) \<noteq> {}" by (auto simp: Intervener_Mutes_eq split: if_splits)
  then show ?thesis unfolding found_names by blast
qed

text \<open>
  C31: the intervener mutes exactly when some interval of one of the names contains the instant, names
  exactly those that have such an interval, and fails exactly when a name is not configured.
\<close>

theorem Intervener_Mutes_spec:
  "(Intervener_Mutes ivs names now = Inr (b, ins) \<longrightarrow>
      (b \<longleftrightarrow> ins \<noteq> []) \<and> set ins = {n \<in> set names. \<exists>ti \<in> set (the (ivs n)). ContainsTime ti UTC now})
   \<and> ((\<exists>e. Intervener_Mutes ivs names now = Inl e) \<longleftrightarrow> (\<exists>n \<in> set names. ivs n = None))"
  unfolding Intervener_Mutes_eq found_names [symmetric] by (cases "\<exists>n \<in> set names. ivs n = None") auto

section \<open>Text and back\<close>

lemma itoa_int_chars: "c \<in> set (itoa_int n) \<Longrightarrow> c = CHR ''-'' \<or> is_digit c"
  using itoa_all_digits by (auto simp: itoa_int_def list_all_iff split: if_splits)

lemma itoa_int_plain: "CHR '':'' \<notin> set (itoa_int n)"
  using itoa_int_chars [of "CHR '':''" n] by (auto simp: is_digit_def)

lemma lower_itoa: "to_lower lr (itoa_int n) = itoa_int n" "to_lower lr (itoa_int m @ CHR '':'' # itoa_int n) = itoa_int m @ CHR '':'' # itoa_int n"
proof -
  have "byte c < 128 \<and> \<not> (65 \<le> byte c \<and> byte c \<le> 90)" if "c \<in> set (itoa_int k)" for c k
    using itoa_int_chars [OF that] by (auto simp: is_digit_def)
  then show "to_lower lr (itoa_int n) = itoa_int n" "to_lower lr (itoa_int m @ CHR '':'' # itoa_int n) = itoa_int m @ CHR '':'' # itoa_int n"
    by (auto intro!: to_lower_id)
qed

definition int64 :: "int \<Rightarrow> bool" where
  "int64 n \<longleftrightarrow> - (2 ^ 63) \<le> n \<and> n < 2 ^ 63"

lemma range_text:
  assumes "mem (itoa_int (ig_Begin r)) = Inr (ig_Begin r)" "mem (itoa_int (ig_End r)) = Inr (ig_End r)"
  shows "stringableRangeFromString lr mem (MarshalInclusiveRange r) = Inr r"
  using assms itoa_int_plain [of "ig_Begin r"] itoa_int_plain [of "ig_End r"]
  by (simp add: stringableRangeFromString_def MarshalInclusiveRange_def lower_itoa split_on_append split_on_none Let_def)

lemma plain_member_itoa: "int64 n \<Longrightarrow> plain_member (itoa_int n) = Inr n"
  by (simp add: plain_member_def atoi_itoa int64_def)

lemma months_itoa: "months (itoa_int n) = None"
proof -
  have "hd s \<noteq> CHR ''-'' \<and> \<not> is_digit (hd s)" if "s \<in> dom months" for s
    using that by (auto simp: months_def is_digit_def split: if_splits)
  moreover have "hd (itoa_int n) = CHR ''-'' \<or> is_digit (hd (itoa_int n))"
    by (rule itoa_int_chars [of _ n]) (simp add: itoa_int_def)
  ultimately show ?thesis by blast
qed

lemma month_member_itoa: "int64 n \<Longrightarrow> month_member (itoa_int n) = Inr n"
  by (simp add: month_member_def months_itoa atoi_itoa int64_def)

definition valid_days :: "inclusive_range \<Rightarrow> bool" where
  "valid_days r \<longleftrightarrow> ig_Begin r \<noteq> 0 \<and> \<bar>ig_Begin r\<bar> \<le> 31 \<and> ig_End r \<noteq> 0 \<and> \<bar>ig_End r\<bar> \<le> 31
     \<and> (ig_Begin r < 0 \<longrightarrow> ig_End r < 0)
     \<and> (if ig_Begin r < 0 then 28 + ig_Begin r else ig_Begin r) \<le> (if ig_End r < 0 then 28 + ig_End r else ig_End r)"

lemma days_text: "valid_days r \<Longrightarrow> UnmarshalDayOfMonthRange lr (MarshalInclusiveRange r) = Inr r"
proof -
  assume v: "valid_days r"
  then have "int64 (ig_Begin r)" "int64 (ig_End r)" by (auto simp: valid_days_def int64_def)
  then have "stringableRangeFromString lr plain_member (MarshalInclusiveRange r) = Inr r"
    by (intro range_text plain_member_itoa)
  then show ?thesis using v by (auto simp: UnmarshalDayOfMonthRange_def valid_days_def Let_def)
qed

lemma weekday_cases: "0 \<le> n \<Longrightarrow> n \<le> 6 \<Longrightarrow> n \<in> {0, 1, 2, 3, 4, 5, 6 :: int}"
  by simp presburger

lemma weekday_text:
  assumes "0 \<le> ig_Begin r" "ig_Begin r \<le> ig_End r" "ig_End r \<le> 6"
  shows "\<exists>s. MarshalWeekdayRange r = Inr s \<and> UnmarshalWeekdayRange lr s = Inr r"
proof -
  have name: "\<exists>s. daysOfWeekInv n = Some s \<and> daysOfWeek s = Some n \<and> CHR '':'' \<notin> set s \<and> (\<forall>c \<in> set s. byte c < 128 \<and> \<not> (65 \<le> byte c \<and> byte c \<le> 90))"
    if "0 \<le> n" "n \<le> 6" for n
    using weekday_cases [OF that] by (auto simp: daysOfWeekInv_def daysOfWeek_def)
  obtain a b where a: "daysOfWeekInv (ig_Begin r) = Some a" "daysOfWeek a = Some (ig_Begin r)" "CHR '':'' \<notin> set a"
      "\<forall>c \<in> set a. byte c < 128 \<and> \<not> (65 \<le> byte c \<and> byte c \<le> 90)"
    and b: "daysOfWeekInv (ig_End r) = Some b" "daysOfWeek b = Some (ig_End r)" "CHR '':'' \<notin> set b"
      "\<forall>c \<in> set b. byte c < 128 \<and> \<not> (65 \<le> byte c \<and> byte c \<le> 90)"
    using name [of "ig_Begin r"] name [of "ig_End r"] assms by auto
  have low: "to_lower lr a = a" "to_lower lr (a @ CHR '':'' # b) = a @ CHR '':'' # b"
    using a(4) b(4) by (auto intro!: to_lower_id)
  show ?thesis using a b assms
    by (auto simp: MarshalWeekdayRange_def UnmarshalWeekdayRange_def stringableRangeFromString_def Let_def weekday_member_def low
      split_on_append split_on_none)
qed

lemma digit_eq: "a < 10 \<Longrightarrow> digit a = c \<longleftrightarrow> 48 + a = byte c"
  using digit_byte [of a] by (metis of_char_eq_iff)

lemma pad2_two:
  assumes "0 \<le> n" "n < 100"
  shows "pad2 n = [digit (nat n div 10), digit (nat n mod 10)]"
proof (cases "n < 10")
  case True
  then show ?thesis using assms by (simp add: pad2_def itoa_int_def itoa.simps [of "nat n"] digit_eq nat_less_iff eq_commute [of "CHR ''0''"])
next
  case False
  then have "nat n div 10 < 10" "\<not> nat n < 10" using assms by simp_all
  then show ?thesis using assms False by (simp add: pad2_def itoa_int_def itoa.simps [of "nat n"] itoa.simps [of "nat n div 10"])
qed

lemma atoi_two:
  assumes "a < 10" "b < 10"
  shows "atoi [digit a, digit b] = Some (int (10 * a + b))"
proof -
  have "digit a \<noteq> CHR ''-''" "digit a \<noteq> CHR ''+''" using digit_is_digit [OF assms(1)] by (auto simp: is_digit_def)
  then show ?thesis using assms by (simp add: atoi_def digit_is_digit digits_val_def digit_byte)
qed

lemma digit_in:
  "a < 10 \<Longrightarrow> digit a \<in> set ''01'' \<longleftrightarrow> a < 2" "a < 10 \<Longrightarrow> digit a \<in> set ''0123'' \<longleftrightarrow> a < 4"
  "a < 10 \<Longrightarrow> digit a \<in> set ''012345'' \<longleftrightarrow> a < 6" "digit 2 = CHR ''2''"
  by (auto simp: digit_eq)

lemma hour_digits: "k < 24 \<Longrightarrow> k div 10 < 2 \<or> k div 10 = 2 \<and> k mod 10 < (4 :: nat)"
  by presburger

lemma parse_clock:
  assumes "0 \<le> h" "h < 24" "0 \<le> m" "m < 60"
  shows "parseTime (pad2 h @ '':'' @ pad2 m) = Inr (h * 60 + m)"
proof -
  let ?h = "nat h" and ?m = "nat m"
  have d: "?h div 10 < 10" "?h mod 10 < 10" "?m div 10 < 6" "?m div 10 < 10" "?m mod 10 < 10" using assms by auto
  have "?h < 24" using assms by simp
  then have "?h div 10 < 2 \<or> ?h div 10 = 2 \<and> ?h mod 10 < 4" by (rule hour_digits)
  then have v: "validTime (pad2 h @ '':'' @ pad2 m)"
    using assms d by (auto simp: validTime_def pad2_two digit_in digit_is_digit simp del: set_simps)
  have c: "CHR '':'' \<notin> set [digit (?h div 10), digit (?h mod 10)]" "CHR '':'' \<notin> set [digit (?m div 10), digit (?m mod 10)]"
    using d by (simp_all add: eq_commute [of "CHR '':''"] digit_eq)
  have "split_on CHR '':'' (pad2 h @ '':'' @ pad2 m) = [[digit (?h div 10), digit (?h mod 10)], [digit (?m div 10), digit (?m mod 10)]]"
    using split_on_append [OF c(1)] split_on_none [OF c(2)] assms by (simp add: pad2_two)
  then show ?thesis using v assms d by (simp add: parseTime_def atoi_two)
qed

lemma parse_minutes: "0 \<le> n \<Longrightarrow> n \<le> 1440 \<Longrightarrow> parseTime (pad2 (n sdiv 60) @ '':'' @ pad2 (n smod 60)) = Inr n"
proof -
  assume n: "0 \<le> n" "n \<le> 1440"
  have q: "n sdiv 60 = n div 60" "n smod 60 = n mod 60" using n by (simp_all add: signed_divide_int_def signed_modulo_int_def sgn_if)
  show ?thesis
  proof (cases "n = 1440")
    case True
    have "pad2 24 = ''24''" "pad2 0 = ''00''" by (simp_all add: pad2_two digit_eq)
    then show ?thesis unfolding q using True by (simp add: parseTime_def validTime_def atoi_def is_digit_def digits_val_def)
  next
    case False
    then have "parseTime (pad2 (n div 60) @ '':'' @ pad2 (n mod 60)) = Inr (n div 60 * 60 + n mod 60)"
      using n by (intro parse_clock) auto
    then show ?thesis unfolding q by simp
  qed
qed

lemma pad2_not_Nil: "pad2 n \<noteq> []"
  by (simp add: pad2_def itoa_int_def)

lemma time_range_text:
  "0 \<le> tr_StartMinute tr \<Longrightarrow> tr_StartMinute tr < tr_EndMinute tr \<Longrightarrow> tr_EndMinute tr \<le> 1440 \<Longrightarrow>
     UnmarshalTimeRange (MarshalTimeRange tr) = Inr tr"
  using parse_minutes [of "tr_StartMinute tr"] parse_minutes [of "tr_EndMinute tr"]
  by (simp add: MarshalTimeRange_def UnmarshalTimeRange_def Let_def)

text \<open>
  Every range that the configuration accepts is read back from the text it is printed as: weekdays by
  their names, days of the month with negative days, months and years as numbers, and times of day
  up to 24:00.
\<close>

theorem range_text_roundtrip:
  "(0 \<le> ig_Begin r \<and> ig_Begin r \<le> ig_End r \<and> ig_End r \<le> 6 \<longrightarrow>
      (\<exists>s. MarshalWeekdayRange r = Inr s \<and> UnmarshalWeekdayRange lr s = Inr r))
   \<and> (valid_days r \<longrightarrow> UnmarshalDayOfMonthRange lr (MarshalInclusiveRange r) = Inr r)
   \<and> (int64 (ig_Begin r) \<and> int64 (ig_End r) \<and> ig_Begin r \<le> ig_End r \<longrightarrow>
        UnmarshalMonthRange lr (MarshalInclusiveRange r) = Inr r \<and> UnmarshalYearRange lr (MarshalInclusiveRange r) = Inr r)
   \<and> (0 \<le> tr_StartMinute tr \<and> tr_StartMinute tr < tr_EndMinute tr \<and> tr_EndMinute tr \<le> 1440 \<longrightarrow>
        UnmarshalTimeRange (MarshalTimeRange tr) = Inr tr)"
  by (auto simp: weekday_text days_text time_range_text UnmarshalMonthRange_def UnmarshalYearRange_def range_text
    plain_member_itoa month_member_itoa)

theorem range_text_roundtrip_witness:
  "(\<exists>s. MarshalWeekdayRange \<lparr>ig_Begin = 1, ig_End = 5\<rparr> = Inr s \<and> UnmarshalWeekdayRange id s = Inr \<lparr>ig_Begin = 1, ig_End = 5\<rparr>)
   \<and> UnmarshalDayOfMonthRange id (MarshalInclusiveRange \<lparr>ig_Begin = 1, ig_End = 5\<rparr>) = Inr \<lparr>ig_Begin = 1, ig_End = 5\<rparr>
   \<and> UnmarshalTimeRange (MarshalTimeRange \<lparr>tr_StartMinute = 540, tr_EndMinute = 1440\<rparr>) = Inr \<lparr>tr_StartMinute = 540, tr_EndMinute = 1440\<rparr>"
  using range_text_roundtrip [of "\<lparr>ig_Begin = 1, ig_End = 5\<rparr>" id "\<lparr>tr_StartMinute = 540, tr_EndMinute = 1440\<rparr>"]
  by (simp add: valid_days_def)

theorem Intervener_Mutes_spec_witness:
  "Intervener_Mutes [''always'' \<mapsto> [\<lparr>ti_Times = None, ti_Weekdays = None, ti_DaysOfMonth = None, ti_Months = None, ti_Years = None, ti_Location = None\<rparr>]]
     [''always''] 0 = Inr (True, [''always''])
   \<and> set [''always''] = {n \<in> set [''always'']. \<exists>ti \<in> set (the ([''always'' \<mapsto> [\<lparr>ti_Times = None, ti_Weekdays = None, ti_DaysOfMonth = None,
       ti_Months = None, ti_Years = None, ti_Location = None\<rparr>]] n)). ContainsTime ti UTC 0}"
proof -
  let ?ti = "\<lparr>ti_Times = None, ti_Weekdays = None, ti_DaysOfMonth = None, ti_Months = None, ti_Years = None, ti_Location = None\<rparr>"
  have m: "Intervener_Mutes [''always'' \<mapsto> [?ti]] [''always''] 0 = Inr (True, [''always''])"
    by (simp add: Intervener_Mutes_def ContainsTime_def component_def)
  then show ?thesis using conjunct1 [OF Intervener_Mutes_spec [of "[''always'' \<mapsto> [?ti]]" "[''always'']" 0 True "[''always'']"]] by blast
qed

text \<open>
  A range of months outside the year is accepted and contains no instant: the range 13:14 parses, and
  an interval with it never matches in any location.
\<close>

theorem month_range_unchecked:
  "UnmarshalMonthRange lr ''13:14'' = Inr \<lparr>ig_Begin = 13, ig_End = 14\<rparr>
   \<and> \<not> ContainsTime \<lparr>ti_Times = None, ti_Weekdays = None, ti_DaysOfMonth = None, ti_Months = Some [\<lparr>ig_Begin = 13, ig_End = 14\<rparr>],
       ti_Years = None, ti_Location = None\<rparr> loc t"
proof
  show "UnmarshalMonthRange lr ''13:14'' = Inr \<lparr>ig_Begin = 13, ig_End = 14\<rparr>"
    by (simp add: UnmarshalMonthRange_def stringableRangeFromString_def to_lower_id month_member_def months_def atoi_def is_digit_def digits_val_def)
  show "\<not> ContainsTime \<lparr>ti_Times = None, ti_Weekdays = None, ti_DaysOfMonth = None, ti_Months = Some [\<lparr>ig_Begin = 13, ig_End = 14\<rparr>],
       ti_Years = None, ti_Location = None\<rparr> loc t"
    using civil_of_valid(2) [of "local_day loc t"] by (simp add: ContainsTime_def component_def in_range_def t_Month_def)
qed

end
