(* ===== verification/Notify.thy ===== *)
theory Notify
  imports Marker Nflog Inhibit Silencer Time_Interval
begin

text \<open>
  The notification pipeline, \<^verbatim>\<open>notify/\<close>: the stages a flushed group of alerts passes, from the inhibitor,
  the time intervals and the silencer to the receivers' integrations with their deduplication,
  delivery and logging (\<^verbatim>\<open>notify.go\<close>, \<^verbatim>\<open>mute.go\<close>, \<^verbatim>\<open>cluster_stages.go\<close>, \<^verbatim>\<open>dedup_stage.go\<close>, \<^verbatim>\<open>retry_stage.go\<close>,
  \<^verbatim>\<open>set_notifies_stage.go\<close>, \<^verbatim>\<open>context.go\<close>, \<^verbatim>\<open>nflog/nflogpb/set.go\<close>).

  The context is a record of optional values. A stage maps a context, alerts and the state it works on
  to a context, alerts, an error and the new state; \<open>None\<close> is a call that does not return. The state
  holds the notification log, the group marker, the state of the muters, and the calls of \<^verbatim>\<open>Notify\<close>
  made so far. What happens outside (the clock, the end of the context, the answers of a notifier) is
  an argument of the stage. The stages of a fan-out run concurrently on different keys of the log; the
  model runs them one after the other.
\<close>

section \<open>The context\<close>

datatype notify_reason = ReasonDoNotNotify | ReasonFirstNotification | ReasonNewAlertsInGroup | ReasonNewResolvedAlerts
  | ReasonAllAlertsResolved | ReasonRepeatIntervalElapsed | ReasonUnknown

definition shouldNotify :: "notify_reason \<Rightarrow> bool" where
  "shouldNotify r \<longleftrightarrow> r \<noteq> ReasonDoNotNotify"

record nctx =
  cx_ReceiverName :: "string option"
  cx_RepeatInterval :: "duration option"
  cx_GroupLabels :: "labelset option"
  cx_RouteLabels :: "labelset option"
  cx_GroupMatchers :: "matcher list option"
  cx_AggrGroupID :: "string option"
  cx_FlushID :: "nat option"
  cx_GroupKey :: "string option"
  cx_FiringAlerts :: "nat list option"
  cx_ResolvedAlerts :: "nat list option"
  cx_Now :: "time option"
  cx_MuteTimeIntervals :: "string list option"
  cx_ActiveTimeIntervals :: "string list option"
  cx_RouteID :: "string option"
  cx_NflogStore :: "receiver_data option"
  cx_Reason :: "notify_reason option"
  cx_MutedAlerts :: "nat set option"

datatype notify_error = GroupKeyMissing | RepeatIntervalMissing | FiringMissing | ResolvedMissing | RouteIDMissing | NowMissing
  | ReceiverMissing | StageMissing | UnexpectedResultSize nat | LogError nf_error | IntervalMissing string
  | WaitError string | RetryCanceled nat string | RetryUnrecoverable nat string | Joined "notify_error list"

record 'm nstate =
  ns_log :: nflog
  ns_groups :: group_marker
  ns_muters :: 'm
  ns_notified :: "(receiver \<times> alert list) list"

type_synonym 'm result = "nctx \<times> alert list \<times> notify_error option \<times> 'm nstate"
type_synonym 'm stage = "nctx \<Rightarrow> alert list \<Rightarrow> 'm nstate \<Rightarrow> 'm result option"

section \<open>Muting\<close>

type_synonym 'm muter = "labelset \<Rightarrow> 'm \<Rightarrow> (bool \<times> 'm) option"

fun mute_loop :: "'m muter \<Rightarrow> alert list \<Rightarrow> 'm \<Rightarrow> (alert list \<times> alert list \<times> 'm) option" where
  "mute_loop mutes [] s = Some ([], [], s)"
| "mute_loop mutes (a # as) s = (case mutes (al_labels a) s of
     None \<Rightarrow> None
   | Some (b, s1) \<Rightarrow> (case mute_loop mutes as s1 of
       None \<Rightarrow> None
     | Some (muted, filtered, s2) \<Rightarrow> if b then Some (a # muted, filtered, s2) else Some (muted, a # filtered, s2)))"

definition MuteStage :: "(alert \<Rightarrow> nat) \<Rightarrow> 'm muter \<Rightarrow> 'm stage" where
  "MuteStage hash mutes ctx as w = (case mute_loop mutes as (ns_muters w) of
     None \<Rightarrow> None
   | Some (muted, filtered, s) \<Rightarrow>
       (let ctx1 = (if 0 < length muted then
              ctx\<lparr>cx_MutedAlerts := Some ((case cx_MutedAlerts ctx of None \<Rightarrow> {} | Some h \<Rightarrow> h) \<union> hash ` set muted)\<rparr>
            else ctx)
        in Some (ctx1, filtered, None, w\<lparr>ns_muters := s\<rparr>)))"

definition mark_group :: "string \<Rightarrow> string \<Rightarrow> string list \<Rightarrow> 'm nstate \<Rightarrow> 'm nstate" where
  "mark_group routeID gkey names w = w\<lparr>ns_groups := SetMuted routeID gkey names (ns_groups w)\<rparr>"

definition TimeMuteStage :: "(string \<rightharpoonup> time_interval list) \<Rightarrow> 'm stage" where
  "TimeMuteStage ivs ctx as w = Some (case cx_RouteID ctx of
     None \<Rightarrow> (ctx, [], Some RouteIDMissing, w)
   | Some routeID \<Rightarrow> (case cx_GroupKey ctx of
       None \<Rightarrow> (ctx, [], Some GroupKeyMissing, w)
     | Some gkey \<Rightarrow> (case cx_MuteTimeIntervals ctx of
         None \<Rightarrow> (ctx, as, None, mark_group routeID gkey [] w)
       | Some names \<Rightarrow> (case cx_Now ctx of
           None \<Rightarrow> (ctx, as, Some NowMissing, mark_group routeID gkey [] w)
         | Some now \<Rightarrow>
             if length names = 0 then (ctx, as, None, mark_group routeID gkey [] w)
             else (case Intervener_Mutes ivs names now of
                 Inl e \<Rightarrow> (ctx, as, Some (IntervalMissing e), w)
               | Inr (muted, mutedBy) \<Rightarrow>
                   (let w1 = mark_group routeID gkey mutedBy w
                    in if muted then (ctx, [], None, w1) else (ctx, as, None, w1)))))))"

definition TimeActiveStage :: "(string \<rightharpoonup> time_interval list) \<Rightarrow> 'm stage" where
  "TimeActiveStage ivs ctx as w = Some (case cx_RouteID ctx of
     None \<Rightarrow> (ctx, [], Some RouteIDMissing, w)
   | Some routeID \<Rightarrow> (case cx_GroupKey ctx of
       None \<Rightarrow> (ctx, [], Some GroupKeyMissing, w)
     | Some gkey \<Rightarrow> (case cx_ActiveTimeIntervals ctx of
         None \<Rightarrow> (ctx, as, None, mark_group routeID gkey [] w)
       | Some names \<Rightarrow>
           if length names = 0 then (ctx, as, None, mark_group routeID gkey [] w)
           else (case cx_Now ctx of
               None \<Rightarrow> (ctx, as, Some NowMissing, mark_group routeID gkey [] w)
             | Some now \<Rightarrow> (case Intervener_Mutes ivs names now of
                 Inl e \<Rightarrow> (ctx, as, Some (IntervalMissing e), w)
               | Inr (active, _) \<Rightarrow>
                   (let w1 = mark_group routeID gkey (if \<not> active then names else []) w
                    in if \<not> active then (ctx, [], None, w1) else (ctx, as, None, w1)))))))"

section \<open>Waiting for the cluster\<close>

text \<open>\<open>ready\<close> is the error of \<^verbatim>\<open>WaitReady\<close>, if any; \<open>done\<close> the error of a context that ended during the wait.\<close>

definition ClusterGossipSettleStage :: "string option \<Rightarrow> 'm stage" where
  "ClusterGossipSettleStage ready ctx as w = (case ready of
     Some e \<Rightarrow> Some (ctx, [], Some (WaitError e), w)
   | None \<Rightarrow> Some (ctx, as, None, w))"

definition ClusterWaitStage :: "string option \<Rightarrow> 'm stage" where
  "ClusterWaitStage ended ctx as w = (case ended of
     Some e \<Rightarrow> Some (ctx, [], Some (WaitError e), w)
   | None \<Rightarrow> Some (ctx, as, None, w))"

section \<open>Deduplication\<close>

definition isSubset :: "nat set \<Rightarrow> nat set \<Rightarrow> bool" where
  "isSubset S sub \<longleftrightarrow> (\<forall>k \<in> sub. k \<in> S)"

definition IsFiringSubset :: "nf_entry \<Rightarrow> nat set \<Rightarrow> bool" where
  "IsFiringSubset m sub = isSubset (set (ne_firing m)) sub"

definition IsResolvedSubset :: "nf_entry \<Rightarrow> nat set \<Rightarrow> bool" where
  "IsResolvedSubset m sub = isSubset (set (ne_resolved m)) sub"

definition needsUpdate :: "bool \<Rightarrow> nf_entry option \<Rightarrow> nat set \<Rightarrow> nat set \<Rightarrow> duration \<Rightarrow> time \<Rightarrow> notify_reason" where
  "needsUpdate sendResolved entry firing resolved repeat now = (case entry of
     None \<Rightarrow> if firing \<noteq> {} then ReasonFirstNotification else ReasonDoNotNotify
   | Some e \<Rightarrow>
       if \<not> IsFiringSubset e firing then
         (if length (ne_firing e) = 0 then ReasonFirstNotification else ReasonNewAlertsInGroup)
       else if firing = {} then
         (if 0 < length (ne_firing e) then ReasonAllAlertsResolved else ReasonDoNotNotify)
       else if sendResolved \<and> \<not> IsResolvedSubset e resolved then ReasonNewResolvedAlerts
       else if before (as_time (ne_timestamp e)) (now - repeat) then ReasonRepeatIntervalElapsed
       else ReasonDoNotNotify)"

fun partitionAlertsByState :: "alert_env \<Rightarrow> (alert \<Rightarrow> time) \<Rightarrow> (alert \<Rightarrow> nat) \<Rightarrow> alert list \<Rightarrow> nat list \<times> nat list" where
  "partitionAlertsByState A clk hash [] = ([], [])"
| "partitionAlertsByState A clk hash (a # as) =
     (let (firing, resolved) = partitionAlertsByState A clk hash as
      in if ResolvedAt A a (clk a) then (firing, hash a # resolved) else (hash a # firing, resolved))"

definition DedupStage ::
  "alert_env \<Rightarrow> (alert \<Rightarrow> time) \<Rightarrow> time \<Rightarrow> (alert \<Rightarrow> nat) \<Rightarrow> bool \<Rightarrow> receiver \<Rightarrow> 'm stage" where
  "DedupStage A clk clock hash sendResolved recv ctx as w = Some (case cx_GroupKey ctx of
     None \<Rightarrow> (ctx, [], Some GroupKeyMissing, w)
   | Some gkey \<Rightarrow> (case cx_RepeatInterval ctx of
       None \<Rightarrow> (ctx, [], Some RepeatIntervalMissing, w)
     | Some repeatInterval \<Rightarrow>
         (let (firing, resolved) = partitionAlertsByState A clk hash as;
              ctx1 = ctx\<lparr>cx_FiringAlerts := Some firing, cx_ResolvedAlerts := Some resolved\<rparr>;
              run = (\<lambda>entry.
                let now = (case cx_Now ctx1 of Some t \<Rightarrow> t | None \<Rightarrow> clock);
                    updateReason = needsUpdate sendResolved entry (set firing) (set resolved) repeatInterval now;
                    ctx2 = ctx1\<lparr>cx_Reason := Some updateReason,
                      cx_NflogStore := Some (if updateReason = ReasonFirstNotification then NewStore None else NewStore entry)\<rparr>
                in if shouldNotify updateReason then (ctx2, as, None, w) else (ctx2, [], None, w))
          in case nf_Query [QGroupKey gkey, QReceiver (Some recv)] (ns_log w) of
               Inl err \<Rightarrow> if err \<noteq> NfNotFound then (ctx1, [], Some (LogError err), w) else run None
             | Inr entries \<Rightarrow> (case entries of
                 [] \<Rightarrow> run None
               | [e] \<Rightarrow> run (Some e)
               | _ \<Rightarrow> (ctx1, [], Some (UnexpectedResultSize (length entries)), w)))))"

section \<open>Delivery\<close>

text \<open>
  What the loop of \<^verbatim>\<open>RetryStage\<close> meets: a tick, with the answer of \<^verbatim>\<open>Notify\<close> (whether to retry, and the error)
  and whether the context is still alive afterwards; or the end of the context, with its error.
\<close>

datatype retry_event = Tick bool "string option" bool | CtxDone string

datatype retry_result = Delivered nat | Canceled nat string | Unrecoverable nat string

fun retry_loop :: "retry_event list \<Rightarrow> nat \<Rightarrow> string option \<Rightarrow> retry_result option" where
  "retry_loop [] i iErr = None"
| "retry_loop (CtxDone c # es) i iErr = Some (Canceled i (case iErr of None \<Rightarrow> c | Some e \<Rightarrow> e))"
| "retry_loop (Tick retry err alive # es) i iErr = (case err of
     None \<Rightarrow> Some (Delivered (i + 1))
   | Some e \<Rightarrow>
       if \<not> retry then Some (Unrecoverable (i + 1) e)
       else retry_loop es (i + 1) (if alive then Some e else iErr))"

fun attempts :: "retry_result \<Rightarrow> nat" where
  "attempts (Delivered i) = i"
| "attempts (Canceled i _) = i"
| "attempts (Unrecoverable i _) = i"

text \<open>Each tick calls \<^verbatim>\<open>Notify\<close> with the alerts to send.\<close>

definition RetryStage :: "alert_env \<Rightarrow> (alert \<Rightarrow> time) \<Rightarrow> retry_event list \<Rightarrow> bool \<Rightarrow> receiver \<Rightarrow> 'm stage" where
  "RetryStage A clk events sendResolved recv ctx as w =
     (let deliver = (\<lambda>sent. case retry_loop events 0 None of
            None \<Rightarrow> None
          | Some res \<Rightarrow>
              (let w1 = w\<lparr>ns_notified := ns_notified w @ replicate (attempts res) (recv, sent)\<rparr>
               in Some (case res of
                   Delivered _ \<Rightarrow> (ctx, as, None, w1)
                 | Canceled i e \<Rightarrow> (ctx, [], Some (RetryCanceled i e), w1)
                 | Unrecoverable i e \<Rightarrow> (ctx, as, Some (RetryUnrecoverable i e), w1))))
      in if \<not> sendResolved then
           (case cx_FiringAlerts ctx of
              None \<Rightarrow> Some (ctx, [], Some FiringMissing, w)
            | Some firing \<Rightarrow>
                if length firing = 0 then Some (ctx, as, None, w)
                else deliver (filter (\<lambda>a. \<not> ResolvedAt A a (clk a)) as))
         else deliver as)"

section \<open>Logging\<close>

definition SetNotifiesStage :: "nf_encoder \<Rightarrow> time \<Rightarrow> time \<Rightarrow> receiver \<Rightarrow> 'm stage" where
  "SetNotifiesStage enc now now' recv ctx as w = Some (case cx_GroupKey ctx of
     None \<Rightarrow> (ctx, [], Some GroupKeyMissing, w)
   | Some gkey \<Rightarrow> (case cx_FiringAlerts ctx of
       None \<Rightarrow> (ctx, [], Some FiringMissing, w)
     | Some firing \<Rightarrow> (case cx_ResolvedAlerts ctx of
         None \<Rightarrow> (ctx, [], Some ResolvedMissing, w)
       | Some resolved \<Rightarrow> (case cx_RepeatInterval ctx of
           None \<Rightarrow> (ctx, [], Some RepeatIntervalMissing, w)
         | Some repeat \<Rightarrow>
             (let (l, err) = Log enc now now' recv gkey firing resolved (cx_NflogStore ctx) (2 * repeat) (ns_log w)
              in (ctx, as, map_option LogError err, w\<lparr>ns_log := l\<rparr>))))))"

section \<open>Composition\<close>

fun MultiStage :: "'m stage list \<Rightarrow> 'm stage" where
  "MultiStage [] ctx as w = Some (ctx, as, None, w)"
| "MultiStage (s # ss) ctx as w =
     (if length as = 0 then Some (ctx, [], None, w)
      else (case s ctx as w of
          None \<Rightarrow> None
        | Some (ctx', as', Some err, w') \<Rightarrow> Some (ctx', [], Some err, w')
        | Some (ctx', as', None, w') \<Rightarrow> MultiStage ss ctx' as' w'))"

fun fanout_loop :: "'m stage list \<Rightarrow> nctx \<Rightarrow> alert list \<Rightarrow> 'm nstate \<Rightarrow> (notify_error list \<times> 'm nstate) option" where
  "fanout_loop [] ctx as w = Some ([], w)"
| "fanout_loop (s # ss) ctx as w = (case s ctx as w of
     None \<Rightarrow> None
   | Some (_, _, err, w1) \<Rightarrow> (case fanout_loop ss ctx as w1 of
       None \<Rightarrow> None
     | Some (errs, w2) \<Rightarrow> Some ((case err of None \<Rightarrow> errs | Some e \<Rightarrow> e # errs), w2)))"

definition FanoutStage :: "'m stage list \<Rightarrow> 'm stage" where
  "FanoutStage fs ctx as w = (case fanout_loop fs ctx as w of
     None \<Rightarrow> None
   | Some (errs, w') \<Rightarrow> Some (ctx, as, if errs = [] then None else Some (Joined errs), w'))"

definition RoutingStage :: "(string \<rightharpoonup> 'm stage) \<Rightarrow> 'm stage" where
  "RoutingStage rs ctx as w = (case cx_ReceiverName ctx of
     None \<Rightarrow> Some (ctx, [], Some ReceiverMissing, w)
   | Some receiver \<Rightarrow> (case rs receiver of
       None \<Rightarrow> Some (ctx, [], Some StageMissing, w)
     | Some s \<Rightarrow> s ctx as w))"

text \<open>An integration, and what its stages meet outside: the wait for the peers, the clock of the
  deduplication and of the log, and the answers of the notifier.\<close>

record integration =
  it_name :: string
  it_idx :: nat
  it_sendResolved :: bool

record outside =
  os_wait :: "string option"
  os_clk :: "alert \<Rightarrow> time"
  os_clock :: time
  os_events :: "retry_event list"
  os_log :: time
  os_log' :: time

definition integration_stages ::
  "alert_env \<Rightarrow> (alert \<Rightarrow> nat) \<Rightarrow> nf_encoder \<Rightarrow> string \<Rightarrow> integration \<Rightarrow> outside \<Rightarrow> 'm stage list" where
  "integration_stages A hash enc name i out =
     (let recv = \<lparr>rc_groupName = name, rc_integration = it_name i, rc_idx = it_idx i\<rparr>
      in [ClusterWaitStage (os_wait out),
          DedupStage A (os_clk out) (os_clock out) hash (it_sendResolved i) recv,
          RetryStage A (os_clk out) (os_events out) (it_sendResolved i) recv,
          SetNotifiesStage enc (os_log out) (os_log' out) recv])"

definition createReceiverStage ::
  "alert_env \<Rightarrow> (alert \<Rightarrow> nat) \<Rightarrow> nf_encoder \<Rightarrow> string \<Rightarrow> (integration \<times> outside) list \<Rightarrow> 'm stage" where
  "createReceiverStage A hash enc name is = FanoutStage (map (\<lambda>(i, out). MultiStage (integration_stages A hash enc name i out)) is)"

definition pipeline_New ::
  "alert_env \<Rightarrow> (alert \<Rightarrow> nat) \<Rightarrow> nf_encoder \<Rightarrow> (string \<rightharpoonup> (integration \<times> outside) list) \<Rightarrow> 'm muter \<Rightarrow> 'm muter \<Rightarrow>
     (string \<rightharpoonup> time_interval list) \<Rightarrow> string option \<Rightarrow> 'm stage" where
  "pipeline_New A hash enc receivers inhibitor silencer ivs ready =
     RoutingStage (\<lambda>name. map_option (\<lambda>is. MultiStage
       [ClusterGossipSettleStage ready, MuteStage hash inhibitor, TimeActiveStage ivs, TimeMuteStage ivs, MuteStage hash silencer,
        createReceiverStage A hash enc name is]) (receivers name))"

section \<open>The interface of the muters\<close>

text \<open>
  What the pipeline relies on in a muter: on the label sets \<open>L\<close> and in its good states it answers whether
  a label set is \<open>muted\<close>, and stays in a good state.
\<close>

locale muting =
  fixes mutes :: "'m muter"
    and ok :: "'m \<Rightarrow> bool"
    and L :: "labelset set"
    and muted :: "labelset \<Rightarrow> bool"
  assumes mutes_ok: "ok s \<Longrightarrow> l \<in> L \<Longrightarrow> \<exists>s'. mutes l s = Some (muted l, s') \<and> ok s'"
begin

lemma mute_loop_filter:
  "ok s \<Longrightarrow> \<forall>a \<in> set as. al_labels a \<in> L \<Longrightarrow>
     \<exists>s'. mute_loop mutes as s = Some (filter (\<lambda>a. muted (al_labels a)) as, filter (\<lambda>a. \<not> muted (al_labels a)) as, s') \<and> ok s'"
proof (induction as arbitrary: s)
  case (Cons a as)
  obtain s1 where s1: "mutes (al_labels a) s = Some (muted (al_labels a), s1)" "ok s1" using mutes_ok [of s "al_labels a"] Cons.prems by auto
  obtain s2 where s2: "mute_loop mutes as s1 = Some (filter (\<lambda>a. muted (al_labels a)) as, filter (\<lambda>a. \<not> muted (al_labels a)) as, s2)" "ok s2"
    using Cons.IH [OF s1(2)] Cons.prems(2) by auto
  show ?case using s1 s2 by simp
qed simp

lemma MuteStage_filter:
  assumes "ok (ns_muters w)" "\<forall>a \<in> set as. al_labels a \<in> L"
  shows "\<exists>h s'. MuteStage hash mutes ctx as w = Some (ctx\<lparr>cx_MutedAlerts := h\<rparr>, filter (\<lambda>a. \<not> muted (al_labels a)) as, None, w\<lparr>ns_muters := s'\<rparr>) \<and> ok s'"
proof -
  obtain s' where s': "mute_loop mutes as (ns_muters w) = Some (filter (\<lambda>a. muted (al_labels a)) as, filter (\<lambda>a. \<not> muted (al_labels a)) as, s')" "ok s'"
    using mute_loop_filter [OF assms] by blast
  define m where "m = filter (\<lambda>a. muted (al_labels a)) as"
  define f where "f = filter (\<lambda>a. \<not> muted (al_labels a)) as"
  have l: "mute_loop mutes as (ns_muters w) = Some (m, f, s')" using s'(1) by (simp add: m_def f_def)
  show ?thesis unfolding f_def [symmetric]
  proof (cases "m = []")
    case True
    then have "MuteStage hash mutes ctx as w = Some (ctx\<lparr>cx_MutedAlerts := cx_MutedAlerts ctx\<rparr>, f, None, w\<lparr>ns_muters := s'\<rparr>)"
      by (simp add: MuteStage_def l)
    then show "\<exists>h s'. MuteStage hash mutes ctx as w = Some (ctx\<lparr>cx_MutedAlerts := h\<rparr>, f, None, w\<lparr>ns_muters := s'\<rparr>) \<and> ok s'" using s'(2) by blast
  next
    case False
    then have "MuteStage hash mutes ctx as w = Some (ctx\<lparr>cx_MutedAlerts :=
        Some ((case cx_MutedAlerts ctx of None \<Rightarrow> {} | Some h \<Rightarrow> h) \<union> hash ` set m)\<rparr>, f, None, w\<lparr>ns_muters := s'\<rparr>)"
      by (simp add: MuteStage_def l)
    then show "\<exists>h s'. MuteStage hash mutes ctx as w = Some (ctx\<lparr>cx_MutedAlerts := h\<rparr>, f, None, w\<lparr>ns_muters := s'\<rparr>) \<and> ok s'" using s'(2) by blast
  qed
qed

end

text \<open>The two muters of the pipeline, on their common state: the rules of the inhibitor, the cache of the
  silencer, and the alert marker. The silences do not change and the clock does not move while one
  group is filtered.\<close>

record muters =
  mt_rules :: "inhibit_rule list"
  mt_cache :: "fingerprint sil_cache"
  mt_marks :: alert_marker

definition inhibitor_muter :: "alert_env \<Rightarrow> (fingerprint \<Rightarrow> string) \<Rightarrow> time \<Rightarrow> muters muter" where
  "inhibitor_muter A fpstr now l s =
     (let (b, inhibitedBy) = Mutes_inhibit A now l (mt_rules s)
      in Some (b, s\<lparr>mt_marks := SetInhibited (ae_fp A l) (map fpstr inhibitedBy) (mt_marks s)\<rparr>))"

definition silencer_muter :: "alert_env \<Rightarrow> silences \<Rightarrow> time \<Rightarrow> muters muter" where
  "silencer_muter A sil t l s = (case Mutes (ae_fp A) sil sil sil t t t (mt_cache s) l of
     None \<Rightarrow> None
   | Some (c, b, ids) \<Rightarrow> Some (b, s\<lparr>mt_cache := c, mt_marks := SetSilenced (ae_fp A l) ids (mt_marks s)\<rparr>))"

definition inhibitor_ok :: "alert_env \<Rightarrow> labelset set \<Rightarrow> (fingerprint \<rightharpoonup> alert) \<Rightarrow> inhibit_rule list \<Rightarrow> time \<Rightarrow> bool" where
  "inhibitor_ok A L cur rules now \<longleftrightarrow> std_resolved A \<and> cur_inv A L cur
     \<and> (\<forall>r \<in> set rules. fp_faithful A L r \<and> unique_sources L r \<and> (\<exists>t \<le> now. rule_inv A L t cur r))"

definition silencer_ok :: "alert_env \<Rightarrow> regexp_engine \<Rightarrow> (string \<Rightarrow> pb_matcher_set list) \<Rightarrow> labelset set \<Rightarrow> silences \<Rightarrow> time \<Rightarrow> fingerprint sil_cache \<Rightarrow> bool" where
  "silencer_ok A rx reg L sil t c \<longleftrightarrow> inj_on (ae_fp A) L \<and> sys_inv rx reg (ae_fp A) L sil c t"

lemma inhibitor_ok_Mutes:
  assumes "inhibitor_ok A L cur rules now" "lset \<in> L"
  shows "fst (Mutes_inhibit A now lset rules) \<longleftrightarrow> (\<exists>r \<in> set rules. \<exists>a. inhibits A cur now lset r a)"
proof -
  have "(matchers_matches (ir_target r) lset \<and> hasEqual A lset (matchers_matches (ir_source r) lset) now r \<noteq> None)
      \<longleftrightarrow> (\<exists>a. inhibits A cur now lset r a)" if "r \<in> set rules" for r
  proof -
    have ok: "std_resolved A" "cur_inv A L cur" "fp_faithful A L r" "unique_sources L r" "\<exists>t \<le> now. rule_inv A L t cur r"
      using assms(1) that by (simp_all add: inhibitor_ok_def)
    then obtain t where t: "t \<le> now" "rule_inv A L t cur r" by blast
    have inv: "cache_inv A L t cur r" "index_inv A L r" using t(2) ok(3) by (simp_all add: rule_inv_def)
    show ?thesis by (rule hasEqual_iff [OF inv ok(3,4,2) assms(2) t(1) ok(1)])
  qed
  then show ?thesis unfolding Mutes_inhibit_iff by blast
qed

interpretation inh_muting: muting "inhibitor_muter A fpstr now" "\<lambda>s :: muters. mt_rules s = rules \<and> inhibitor_ok A L cur rules now \<and> P (mt_cache s)" L
  "\<lambda>l. \<exists>r \<in> set rules. \<exists>a. inhibits A cur now l r a" for A fpstr now rules L cur P
proof
  fix s :: muters and l assume s: "mt_rules s = rules \<and> inhibitor_ok A L cur rules now \<and> P (mt_cache s)" "l \<in> L"
  obtain b by' where m: "Mutes_inhibit A now l rules = (b, by')" by force
  have "b \<longleftrightarrow> (\<exists>r \<in> set rules. \<exists>a. inhibits A cur now l r a)" using inhibitor_ok_Mutes [of A L cur rules now l] s m by simp
  then show "\<exists>s'. inhibitor_muter A fpstr now l s = Some (\<exists>r \<in> set rules. \<exists>a. inhibits A cur now l r a, s')
      \<and> mt_rules s' = rules \<and> inhibitor_ok A L cur rules now \<and> P (mt_cache s')"
    using s m by (simp add: inhibitor_muter_def)
qed

interpretation sil_muting: muting "silencer_muter A sil t" "\<lambda>s :: muters. silencer_ok A rx reg L sil t (mt_cache s)" L
  "\<lambda>l. muted_by rx sil t l \<noteq> {}" for A sil t rx reg L
proof
  fix s :: muters and l assume s: "silencer_ok A rx reg L sil t (mt_cache s)" and l: "l \<in> L"
  obtain c' ids where "Mutes (ae_fp A) sil sil sil t t t (mt_cache s) l = Some (c', ids \<noteq> [], ids)"
    "set ids = muted_by rx sil t l" "sys_inv rx reg (ae_fp A) L sil c' t"
    using sys_inv_Mutes [of rx reg "ae_fp A" L sil "mt_cache s" t t t t l] s l unfolding silencer_ok_def by (metis order_refl)
  then show "\<exists>s'. silencer_muter A sil t l s = Some (muted_by rx sil t l \<noteq> {}, s') \<and> silencer_ok A rx reg L sil t (mt_cache s')"
    using s by (auto simp: silencer_muter_def silencer_ok_def)
qed

end
