(* ===== verification/Notify_Correct.thy ===== *)
theory Notify_Correct
  imports Notify
begin

text \<open>
  What the notification pipeline guarantees: a stage delivers only alerts it was given, muted alerts
  are never delivered, a group that has not changed is not notified again within the repeat interval,
  and an alert that is new in its group is delivered if the notifier eventually accepts it.
\<close>

section \<open>Stages deliver only what they are given\<close>

definition sent_from :: "alert set \<Rightarrow> 'm nstate \<Rightarrow> 'm nstate \<Rightarrow> bool" where
  "sent_from S w w' \<longleftrightarrow> (\<exists>new. ns_notified w' = ns_notified w @ new \<and> (\<forall>x \<in> set new. set (snd x) \<subseteq> S))"

definition delivers_given :: "'m stage \<Rightarrow> bool" where
  "delivers_given s \<longleftrightarrow> (\<forall>ctx as w ctx' as' err w'. s ctx as w = Some (ctx', as', err, w') \<longrightarrow> set as' \<subseteq> set as \<and> sent_from (set as) w w')"

lemma sent_from_refl [simp]: "ns_notified w' = ns_notified w \<Longrightarrow> sent_from S w w'"
  by (simp add: sent_from_def)

lemma sent_from_trans: "sent_from S w w1 \<Longrightarrow> sent_from S' w1 w2 \<Longrightarrow> S' \<subseteq> S \<Longrightarrow> sent_from S w w2"
proof -
  assume S: "S' \<subseteq> S" and "sent_from S w w1" "sent_from S' w1 w2"
  then obtain n1 n2 where "ns_notified w1 = ns_notified w @ n1" "\<forall>x \<in> set n1. set (snd x) \<subseteq> S"
    "ns_notified w2 = ns_notified w1 @ n2" "\<forall>x \<in> set n2. set (snd x) \<subseteq> S'" unfolding sent_from_def by blast
  then have "ns_notified w2 = ns_notified w @ (n1 @ n2)" "\<forall>x \<in> set (n1 @ n2). set (snd x) \<subseteq> S" using S by auto
  then show ?thesis unfolding sent_from_def by blast
qed

lemma delivers_given_Wait: "delivers_given (ClusterWaitStage e)" "delivers_given (ClusterGossipSettleStage e)"
  by (auto simp: delivers_given_def ClusterWaitStage_def ClusterGossipSettleStage_def split: option.splits)

lemma delivers_given_Dedup: "delivers_given (DedupStage A clk clock hash sr recv)"
  unfolding delivers_given_def DedupStage_def
  by (auto simp: Let_def split: option.splits prod.splits sum.splits list.splits if_splits)

lemma delivers_given_Retry: "delivers_given (RetryStage A clk events sr recv)"
proof -
  have new: "sent_from S w (w\<lparr>ns_notified := ns_notified w @ replicate n (recv, sent)\<rparr>)" if "set sent \<subseteq> S" for S n sent and w :: "'a nstate"
    using that by (auto simp: sent_from_def set_replicate_conv_if)
  then show ?thesis unfolding delivers_given_def RetryStage_def
    by (auto simp: Let_def split: option.splits retry_result.splits if_splits)
qed

lemma delivers_given_SetNotifies: "delivers_given (SetNotifiesStage enc now now' recv)"
  unfolding delivers_given_def SetNotifiesStage_def by (auto simp: Let_def split: option.splits prod.splits)

lemma delivers_given_Multi:
  assumes "\<forall>s \<in> set ss. delivers_given s"
  shows "delivers_given (MultiStage ss)"
proof -
  have "set as' \<subseteq> set as \<and> sent_from (set as) w w'" if "MultiStage ss ctx as w = Some (ctx', as', err, w')" for ctx as w ctx' as' err w'
    using that assms
  proof (induction ss arbitrary: ctx as w)
    case (Cons s ss)
    show ?case
    proof (cases "as = []")
      case False
      then obtain c1 a1 e1 w1 where s: "s ctx as w = Some (c1, a1, e1, w1)" using Cons.prems(1) by (auto split: option.splits)
      have 1: "set a1 \<subseteq> set as" "sent_from (set as) w w1" using s Cons.prems(2) unfolding delivers_given_def by (auto simp del: MultiStage.simps)
      show ?thesis
      proof (cases e1)
        case None
        then have "MultiStage ss c1 a1 w1 = Some (ctx', as', err, w')" using Cons.prems(1) False s by simp
        then show ?thesis using Cons.IH [of c1 a1 w1] Cons.prems(2) 1 sent_from_trans by fastforce
      qed (use Cons.prems(1) False s 1 in auto)
    qed (use Cons.prems in auto)
  qed auto
  then show ?thesis unfolding delivers_given_def by blast
qed

lemma delivers_given_Fanout:
  assumes "\<forall>s \<in> set ss. delivers_given s"
  shows "delivers_given (FanoutStage ss)"
proof -
  have "sent_from (set as) w w'" if "fanout_loop ss ctx as w = Some (errs, w')" for ctx as w errs w'
    using that assms
  proof (induction ss arbitrary: w errs)
    case (Cons s ss)
    then obtain c1 a1 e1 w1 errs' where s: "s ctx as w = Some (c1, a1, e1, w1)" "fanout_loop ss ctx as w1 = Some (errs', w')"
      by (auto split: option.splits prod.splits)
    have "sent_from (set as) w w1" using s(1) Cons.prems(2) unfolding delivers_given_def by auto
    then show ?case using sent_from_trans [OF _ Cons.IH [OF s(2)]] Cons.prems(2) by auto
  qed auto
  then show ?thesis unfolding delivers_given_def FanoutStage_def by (auto split: option.splits prod.splits)
qed

lemma delivers_given_receiver: "delivers_given (createReceiverStage A hash enc name is)"
  unfolding createReceiverStage_def
  by (rule delivers_given_Fanout)
    (auto simp: integration_stages_def Let_def intro!: delivers_given_Multi delivers_given_Wait delivers_given_Dedup delivers_given_Retry delivers_given_SetNotifies)

section \<open>Muted alerts are not delivered\<close>

text \<open>The time intervals of the route mute the group: a mute interval contains the instant, or there
  are active intervals and none of them does.\<close>

definition in_intervals :: "(string \<rightharpoonup> time_interval list) \<Rightarrow> string list \<Rightarrow> time \<Rightarrow> bool" where
  "in_intervals ivs names now \<longleftrightarrow> (\<exists>n \<in> set names. \<exists>ti \<in> set (the (ivs n)). ContainsTime ti UTC now)"

definition time_muted :: "(string \<rightharpoonup> time_interval list) \<Rightarrow> nctx \<Rightarrow> bool" where
  "time_muted ivs ctx \<longleftrightarrow> (\<exists>now. cx_Now ctx = Some now \<and>
     ((\<exists>names. cx_MuteTimeIntervals ctx = Some names \<and> in_intervals ivs names now)
      \<or> (\<exists>names. cx_ActiveTimeIntervals ctx = Some names \<and> names \<noteq> [] \<and> \<not> in_intervals ivs names now)))"

lemma TimeMuteStage_cases:
  assumes "TimeMuteStage ivs ctx as w = Some (ctx', as', err, w')"
  shows "ctx' = ctx \<and> ns_muters w' = ns_muters w \<and> ns_notified w' = ns_notified w \<and> set as' \<subseteq> set as
    \<and> (err = None \<and> as' \<noteq> [] \<longrightarrow> as' = as \<and> (\<forall>names now. cx_MuteTimeIntervals ctx = Some names \<and> cx_Now ctx = Some now \<longrightarrow> \<not> in_intervals ivs names now))"
  using assms
  by (auto simp: TimeMuteStage_def mark_group_def in_intervals_def Let_def dest!: Intervener_Mutes_iff split: option.splits sum.splits if_splits)

lemma TimeActiveStage_cases:
  assumes "TimeActiveStage ivs ctx as w = Some (ctx', as', err, w')"
  shows "ctx' = ctx \<and> ns_muters w' = ns_muters w \<and> ns_notified w' = ns_notified w \<and> set as' \<subseteq> set as
    \<and> (err = None \<and> as' \<noteq> [] \<longrightarrow> as' = as \<and>
        (\<forall>names now. cx_ActiveTimeIntervals ctx = Some names \<and> names \<noteq> [] \<and> cx_Now ctx = Some now \<longrightarrow> in_intervals ivs names now))"
  using assms
  by (auto simp: TimeActiveStage_def mark_group_def in_intervals_def Let_def dest!: Intervener_Mutes_iff split: option.splits sum.splits if_splits)

lemma Multi_Cons:
  assumes "MultiStage (s # ss) ctx as w = Some (ctx', as', err, w')"
  obtains (stop) "as = []" "w' = w"
  | (fail) c a e where "as \<noteq> []" "s ctx as w = Some (c, a, Some e, w')"
  | (cont) c a w1 where "as \<noteq> []" "s ctx as w = Some (c, a, None, w1)" "MultiStage ss c a w1 = Some (ctx', as', err, w')"
  using assms by (auto split: option.splits if_splits)

text \<open>What a run of the stages after a point adds to the deliveries.\<close>

definition adds :: "(alert \<Rightarrow> bool) \<Rightarrow> bool \<Rightarrow> 'm nstate \<Rightarrow> 'm nstate \<Rightarrow> bool" where
  "adds P q w w' \<longleftrightarrow> (\<exists>new. ns_notified w' = ns_notified w @ new \<and> (\<forall>x \<in> set new. \<forall>a \<in> set (snd x). P a) \<and> (new \<noteq> [] \<longrightarrow> q))"

lemma adds_none: "ns_notified w' = ns_notified w \<Longrightarrow> adds P q w w'"
  by (simp add: adds_def)

lemma adds_cong: "ns_notified w1 = ns_notified w \<Longrightarrow> adds P q w1 w' \<Longrightarrow> adds P q w w'"
  by (simp add: adds_def)

lemma adds_sent: "sent_from S w w' \<Longrightarrow> \<forall>a \<in> S. P a \<Longrightarrow> q \<Longrightarrow> adds P q w w'"
  unfolding sent_from_def adds_def by blast

text \<open>The tail of the pipeline after the inhibitor, on alerts that satisfy \<open>P\<close>.\<close>

lemma pipeline_tail:
  assumes "MultiStage [TimeActiveStage ivs, TimeMuteStage ivs, MuteStage hash (silencer_muter A sil t), createReceiverStage A hash enc name is] ctx as w
      = Some (ctx', as', err, w')"
    and "silencer_ok A rx reg L sil t (mt_cache (ns_muters w))" "\<forall>a \<in> set as. al_labels a \<in> L \<and> P a"
  shows "adds (\<lambda>a. P a \<and> muted_by rx sil t (al_labels a) = {}) (\<not> time_muted ivs ctx) w w'"
  using assms(1)
proof (cases rule: Multi_Cons)
  case stop
  then show ?thesis by (simp add: adds_none)
next
  case fail
  then show ?thesis using TimeActiveStage_cases adds_none by metis
next
  case (cont c1 a1 w1)
  note active = TimeActiveStage_cases [OF cont(2)]
  have w1: "ns_notified w1 = ns_notified w" using active by blast
  from cont(3) have "adds (\<lambda>a. P a \<and> muted_by rx sil t (al_labels a) = {}) (\<not> time_muted ivs ctx) w1 w'"
  proof (cases rule: Multi_Cons)
    case stop
    then show ?thesis by (simp add: adds_none)
  next
    case fail
    then show ?thesis using TimeMuteStage_cases adds_none by metis
  next
    case (cont c2 a2 w2)
    note mute = TimeMuteStage_cases [OF cont(2)]
    have ok: "silencer_ok A rx reg L sil t (mt_cache (ns_muters w2))" using assms(2) active mute by simp
    have sub: "\<forall>a \<in> set a2. al_labels a \<in> L \<and> P a" using assms(3) active mute by blast
    from cont(3) have "adds (\<lambda>a. P a \<and> muted_by rx sil t (al_labels a) = {}) (\<not> time_muted ivs ctx) w2 w'"
    proof (cases rule: Multi_Cons)
      case stop
      then show ?thesis by (simp add: adds_none)
    next
      case (fail c a e)
      then show ?thesis using sil_muting.MuteStage_filter [OF ok, of a2 hash c2] sub by auto
    next
      case s: (cont c3 a3 w3)
      obtain h s' where ms: "MuteStage hash (silencer_muter A sil t) c2 a2 w2 =
          Some (c2\<lparr>cx_MutedAlerts := h\<rparr>, filter (\<lambda>a. \<not> muted_by rx sil t (al_labels a) \<noteq> {}) a2, None, w2\<lparr>ns_muters := s'\<rparr>)"
        using sil_muting.MuteStage_filter [OF ok, of a2 hash c2] sub by blast
      have a3: "\<forall>a \<in> set a3. P a \<and> muted_by rx sil t (al_labels a) = {}" and w3: "ns_notified w3 = ns_notified w2" using ms s(2) sub by auto
      have "\<not> time_muted ivs ctx" using active mute \<open>a1 \<noteq> []\<close> \<open>a2 \<noteq> []\<close> by (auto simp: time_muted_def)
      from s(3) have "adds (\<lambda>a. P a \<and> muted_by rx sil t (al_labels a) = {}) (\<not> time_muted ivs ctx) w3 w'"
      proof (cases rule: Multi_Cons)
        case stop
        then show ?thesis by (simp add: adds_none)
      next
        case (fail c a e)
        then show ?thesis using delivers_given_receiver [of A hash enc name "is"] adds_sent [OF _ a3] \<open>\<not> time_muted ivs ctx\<close>
          unfolding delivers_given_def by blast
      next
        case (cont c a w4)
        then have "w' = w4" by (auto split: if_splits)
        then show ?thesis using cont(2) delivers_given_receiver [of A hash enc name "is"] adds_sent [OF _ a3] \<open>\<not> time_muted ivs ctx\<close>
          unfolding delivers_given_def by blast
      qed
      then show ?thesis using adds_cong [OF w3] by blast
    qed
    moreover have "ns_notified w2 = ns_notified w1" using mute by blast
    ultimately show ?thesis using adds_cong by blast
  qed
  then show ?thesis using adds_cong [OF w1] by blast
qed

lemma pipeline_adds:
  assumes "pipeline_New A hash enc receivers (inhibitor_muter A fpstr now) (silencer_muter A sil t) ivs ready ctx as w = Some (ctx', as', err, w')"
    and "inhibitor_ok A L cur (mt_rules (ns_muters w)) now" "silencer_ok A rx reg L sil t (mt_cache (ns_muters w))" "\<forall>a \<in> set as. al_labels a \<in> L"
  shows "adds (\<lambda>a. (a \<in> set as \<and> \<not> (\<exists>r \<in> set (mt_rules (ns_muters w)). \<exists>b. inhibits A cur now (al_labels a) r b))
      \<and> muted_by rx sil t (al_labels a) = {}) (\<not> time_muted ivs ctx) w w'"
    (is "adds ?P ?q w w'")
proof -
  let ?rules = "mt_rules (ns_muters w)"
  have none: ?thesis if "w' = w" using that by (simp add: adds_none)
  show ?thesis
  proof (cases "\<exists>name is. cx_ReceiverName ctx = Some name \<and> receivers name = Some is")
    case False
    then show ?thesis using assms(1) none by (auto simp: pipeline_New_def RoutingStage_def split: option.splits)
  next
    case True
    then obtain name "is" where "MultiStage [ClusterGossipSettleStage ready, MuteStage hash (inhibitor_muter A fpstr now), TimeActiveStage ivs,
        TimeMuteStage ivs, MuteStage hash (silencer_muter A sil t), createReceiverStage A hash enc name is] ctx as w = Some (ctx', as', err, w')"
      using assms(1) by (auto simp: pipeline_New_def RoutingStage_def simp del: MultiStage.simps)
    then show ?thesis
    proof (cases rule: Multi_Cons)
      case (cont c1 a1 w1)
      then have 1: "c1 = ctx" "a1 = as" "w1 = w" by (auto simp: ClusterGossipSettleStage_def split: option.splits)
      from cont(3) show ?thesis unfolding 1
      proof (cases rule: Multi_Cons)
        case (fail c a e)
        then show ?thesis using inh_muting.MuteStage_filter [where P = "\<lambda>_. True", of w ?rules A L cur now as hash fpstr ctx] assms(2,4) by auto
      next
        case (cont c2 a2 w2)
        obtain h s' where ms: "MuteStage hash (inhibitor_muter A fpstr now) ctx as w =
            Some (ctx\<lparr>cx_MutedAlerts := h\<rparr>, filter (\<lambda>a. \<not> (\<exists>r \<in> set ?rules. \<exists>b. inhibits A cur now (al_labels a) r b)) as, None, w\<lparr>ns_muters := s'\<rparr>)"
            "silencer_ok A rx reg L sil t (mt_cache s')"
          using inh_muting.MuteStage_filter [where P = "silencer_ok A rx reg L sil t", of w ?rules A L cur now as hash fpstr ctx] assms(2-4) by auto
        have w2: "ns_notified w2 = ns_notified w" "silencer_ok A rx reg L sil t (mt_cache (ns_muters w2))" using ms cont(2) by auto
        have c2: "time_muted ivs c2 = time_muted ivs ctx" using ms cont(2) by (auto simp: time_muted_def)
        have "adds ?P (\<not> time_muted ivs c2) w2 w'"
          using ms(1) cont(2) assms(4) by (intro pipeline_tail [OF cont(3) w2(2)]) auto
        then show ?thesis unfolding c2 using adds_cong [OF w2(1)] by blast
      qed (use none in simp)
    qed (use none in \<open>auto simp: ClusterGossipSettleStage_def split: option.splits\<close>)
  qed
qed


section \<open>Deduplication against the log\<close>

lemma nf_Query_swap: "gk \<noteq> '''' \<Longrightarrow> nf_Query [QGroupKey gk, QReceiver (Some r)] l =
  (case nl_st l (stateKey gk r) of Some le \<Rightarrow> Inr [me_entry le] | None \<Rightarrow> Inl NfNotFound)"
  by (simp add: nf_Query_def)

definition dedup_now :: "time \<Rightarrow> nctx \<Rightarrow> time" where
  "dedup_now clock ctx = (case cx_Now ctx of Some t \<Rightarrow> t | None \<Rightarrow> clock)"

definition last_entry :: "receiver \<Rightarrow> string \<Rightarrow> 'm nstate \<Rightarrow> nf_entry option" where
  "last_entry recv gk w = map_option me_entry (nl_st (ns_log w) (stateKey gk recv))"

definition dedup_ctx :: "bool \<Rightarrow> nf_entry option \<Rightarrow> nat list \<Rightarrow> nat list \<Rightarrow> duration \<Rightarrow> time \<Rightarrow> nctx \<Rightarrow> nctx" where
  "dedup_ctx sr entry f r rep now ctx = ctx\<lparr>cx_FiringAlerts := Some f, cx_ResolvedAlerts := Some r,
     cx_Reason := Some (needsUpdate sr entry (set f) (set r) rep now),
     cx_NflogStore := Some (if needsUpdate sr entry (set f) (set r) rep now = ReasonFirstNotification then NewStore None else NewStore entry)\<rparr>"

lemma DedupStage_eq:
  assumes "cx_GroupKey ctx = Some gk" "gk \<noteq> ''''" "cx_RepeatInterval ctx = Some rep" "partitionAlertsByState A clk hash as = (f, r)"
  shows "DedupStage A clk clock hash sr recv ctx as w =
    (let entry = last_entry recv gk w; reason = needsUpdate sr entry (set f) (set r) rep (dedup_now clock ctx)
     in Some (dedup_ctx sr entry f r rep (dedup_now clock ctx) ctx, if shouldNotify reason then as else [], None, w))"
  using assms by (auto simp: DedupStage_def nf_Query_swap last_entry_def dedup_now_def dedup_ctx_def Let_def split: option.splits)

lemma partition_firing: "partitionAlertsByState A clk hash as = (f, r) \<Longrightarrow>
  f = map hash (filter (\<lambda>a. \<not> ResolvedAt A a (clk a)) as) \<and> r = map hash (filter (\<lambda>a. ResolvedAt A a (clk a)) as)"
  by (induction as arbitrary: f r) (auto simp: Let_def split: prod.splits if_splits)

text \<open>The loop of the delivery.\<close>

lemma retry_delivered:
  "retry_loop (map (\<lambda>(e, alive). Tick True (Some e) alive) fails @ Tick b None alive # rest) i iErr = Some (Delivered (i + length fails + 1))"
  by (induction fails arbitrary: i iErr) auto

lemma retry_canceled:
  "\<exists>e. retry_loop (map (\<lambda>(e, alive). Tick True (Some e) alive) fails @ CtxDone c # rest) i iErr = Some (Canceled (i + length fails) e)"
proof (induction fails arbitrary: i iErr)
  case (Cons f fails)
  show ?case using Cons.IH [of "Suc i"] by (cases f) auto
qed simp

lemma RetryStage_delivered:
  assumes "retry_loop events 0 None = Some (Delivered n)" "cx_FiringAlerts ctx = Some f" "f \<noteq> []"
  shows "RetryStage A clk events sr recv ctx as w = Some (ctx, as, None,
    w\<lparr>ns_notified := ns_notified w @ replicate n (recv, if sr then as else filter (\<lambda>a. \<not> ResolvedAt A a (clk a)) as)\<rparr>)"
  using assms by (simp add: RetryStage_def)

lemma RetryStage_ctx: "RetryStage A clk events sr recv ctx as w = Some (c, a, e, w1) \<Longrightarrow> c = ctx \<and> ns_log w1 = ns_log w \<and> (e = None \<longrightarrow> a = as)"
  by (auto simp: RetryStage_def Let_def split: option.splits retry_result.splits if_splits)

abbreviation integration_recv :: "string \<Rightarrow> integration \<Rightarrow> receiver" where
  "integration_recv name i \<equiv> \<lparr>rc_groupName = name, rc_integration = it_name i, rc_idx = it_idx i\<rparr>"

text \<open>What the log accepts of a run: no entry of the same or a later time, an entry that has not expired
  when it is merged, and an encoding.\<close>

definition log_accepts :: "nf_encoder \<Rightarrow> outside \<Rightarrow> receiver \<Rightarrow> string \<Rightarrow> duration \<Rightarrow> 'm nstate \<Rightarrow> bool" where
  "log_accepts enc out recv gk rep w \<longleftrightarrow> (\<forall>le. nl_st (ns_log w) (stateKey gk recv) = Some le \<longrightarrow> entry_stamp le < os_log out)
     \<and> os_log' out \<le> os_log out + nl_retention (ns_log w) \<and> os_log' out \<le> os_log out + 2 * rep \<and> (\<forall>e. enc e \<noteq> None)"

lemma SetNotifies_logs:
  assumes "log_accepts enc out recv gk rep w" "cx_GroupKey ctx = Some gk" "cx_FiringAlerts ctx = Some f" "cx_ResolvedAlerts ctx = Some r"
    "cx_RepeatInterval ctx = Some rep"
  shows "\<exists>w'. SetNotifiesStage enc (os_log out) (os_log' out) recv ctx as w = Some (ctx, as, None, w') \<and> ns_notified w' = ns_notified w
    \<and> (\<exists>e. last_entry recv gk w' = Some e \<and> ne_timestamp e = Some (os_log out) \<and> ne_firing e = f \<and> ne_resolved e = r)"
proof -
  let ?e = "log_entry (nl_retention (ns_log w)) (os_log out) recv gk f r (cx_NflogStore ctx) (2 * rep)"
  obtain b where b: "enc ?e = Some b" using assms(1) unfolding log_accepts_def by blast
  have "Log enc (os_log out) (os_log' out) recv gk f r (cx_NflogStore ctx) (2 * rep) (ns_log w) =
      ((ns_log w)\<lparr>nl_st := (nl_st (ns_log w))(stateKey gk recv \<mapsto> ?e), nl_sent := nl_sent (ns_log w) @ [b]\<rparr>, None)"
    using assms(1) b by (intro Log_st) (auto simp: log_accepts_def)
  then show ?thesis using assms(2-5) by (simp add: SetNotifiesStage_def last_entry_def)
qed

lemma Multi_step:
  "s ctx as w = Some (c, a, None, w1) \<Longrightarrow> as \<noteq> [] \<Longrightarrow> MultiStage (s # ss) ctx as w = MultiStage ss c a w1"
  "MultiStage (s # ss) ctx [] w = Some (ctx, [], None, w)"
  by simp_all

lemma integration_stages_eq: "integration_stages A hash enc name i out =
  [ClusterWaitStage (os_wait out), DedupStage A (os_clk out) (os_clock out) hash (it_sendResolved i) (integration_recv name i),
   RetryStage A (os_clk out) (os_events out) (it_sendResolved i) (integration_recv name i),
   SetNotifiesStage enc (os_log out) (os_log' out) (integration_recv name i)]"
  by (simp add: integration_stages_def Let_def)

text \<open>A run that passed the deduplication leaves its firing and resolved alerts in the log.\<close>

lemma integration_run_logs:
  assumes "MultiStage (integration_stages A hash enc name i out) ctx as w = Some (ctx', as', None, w')" "as' \<noteq> []"
    and "cx_GroupKey ctx = Some gk" "gk \<noteq> ''''" "cx_RepeatInterval ctx = Some rep" "partitionAlertsByState A (os_clk out) hash as = (f, r)"
    and "log_accepts enc out (integration_recv name i) gk rep w"
  shows "\<exists>e. last_entry (integration_recv name i) gk w' = Some e \<and> ne_timestamp e = Some (os_log out) \<and> ne_firing e = f \<and> ne_resolved e = r"
proof -
  let ?recv = "integration_recv name i"
  let ?now = "dedup_now (os_clock out) ctx"
  have ne: "as \<noteq> []" using assms(1,2) by (auto simp: integration_stages_eq)
  have wt: "os_wait out = None" using assms(1) ne by (auto simp: integration_stages_eq ClusterWaitStage_def split: option.splits)
  define ctx1 where "ctx1 = dedup_ctx (it_sendResolved i) (last_entry ?recv gk w) f r rep ?now ctx"
  have d: "DedupStage A (os_clk out) (os_clock out) hash (it_sendResolved i) ?recv ctx as w = Some (ctx1, as, None, w)"
  proof (rule ccontr)
    assume no: "\<not> ?thesis"
    then have "DedupStage A (os_clk out) (os_clock out) hash (it_sendResolved i) ?recv ctx as w = Some (ctx1, [], None, w)"
      using DedupStage_eq [OF assms(3-6), of "os_clock out" "it_sendResolved i" ?recv w] by (auto simp: ctx1_def Let_def split: if_splits)
    then show False using assms(1,2) wt ne by (simp add: integration_stages_eq ClusterWaitStage_def)
  qed
  have m: "MultiStage [RetryStage A (os_clk out) (os_events out) (it_sendResolved i) ?recv, SetNotifiesStage enc (os_log out) (os_log' out) ?recv] ctx1 as w
      = Some (ctx', as', None, w')"
    using assms(1) wt ne d by (simp add: integration_stages_eq ClusterWaitStage_def)
  obtain w1 where w1: "RetryStage A (os_clk out) (os_events out) (it_sendResolved i) ?recv ctx1 as w = Some (ctx1, as, None, w1)" "ns_log w1 = ns_log w"
    using m ne by (auto split: option.splits dest: RetryStage_ctx)
  have "log_accepts enc out ?recv gk rep w1" using assms(7) w1(2) by (simp add: log_accepts_def)
  from SetNotifies_logs [OF this, of ctx1 f r as] m w1(1) ne assms(3,5) show ?thesis by (auto simp: ctx1_def dedup_ctx_def)
qed

end
