(* ===== verification/Go_Quote.thy ===== *)
theory Go_Quote
  imports Labels
begin

text \<open>
  Quoted strings as Go has them: what a double-quoted string literal is, and \<^verbatim>\<open>strconv.Unquote\<close> on one,
  with its escapes and the encoding of code points. The quoting function itself is a parameter
  wherever it is used.
\<close>

section \<open>String literals\<close>

lemma ascii_rune: "c \<in> set s \<Longrightarrow> byte c < 128 \<Longrightarrow> [c] \<in> set (runes s)"
proof (induction s rule: runes.induct)
  case (1 s)
  then have s: "s \<noteq> []" by auto
  show ?case
  proof (cases "c \<in> set (drop (next_width s) s)")
    case True
    then show ?thesis using "1.IH" [OF s True "1.prems"(2)] s by (subst runes.simps) simp
  next
    case False
    then have c: "c \<in> set (take (next_width s) s)" using "1.prems"(1) by (metis Un_iff append_take_drop_id set_append)
    have "take (next_width s) s = [c]"
    proof (cases "rune_width s = 0")
      case True
      then show ?thesis using c s by (cases s) (auto simp: next_width_def)
    next
      case False
      then show ?thesis
      proof (cases rule: rune_width_cases)
        case (1 b cs)
        then show ?thesis using c by (auto simp: next_width_def)
      next
        case (2 ch rest)
        then have "take (next_width s) s = ch" by (simp add: next_width_def max_def Suc_le_eq)
        then show ?thesis using c 2(3) \<open>byte c < 128\<close> by fastforce
      qed
    qed
    then show ?thesis using s by (subst runes.simps) simp
  qed
qed

text \<open>What the text of a Go string is: no quote and no trailing backslash before the closing quote.\<close>

fun literal_body :: "string \<Rightarrow> bool" where
  "literal_body [] = False"
| "literal_body (c # cs) = (if c = backslash then (case cs of [] \<Rightarrow> False | _ # ds \<Rightarrow> literal_body ds)
     else if c = dquote then cs = [] else literal_body cs)"

fun string_literal :: "string \<Rightarrow> bool" where
  "string_literal [] = False"
| "string_literal (c # cs) = (c = dquote \<and> literal_body cs)"

lemma literal_escape: "literal_body (openMetricsEscape v @ [dquote])"
  by (induction v) (auto simp: openMetricsEscape_def escape_char_def)

section \<open>Unquoting\<close>

text \<open>The encoding of a code point; the replacement character for one that has none.\<close>

definition valid_rune :: "nat \<Rightarrow> bool" where
  "valid_rune v \<longleftrightarrow> v < 55296 \<or> 57343 < v \<and> v \<le> 1114111"

definition encode_rune :: "nat \<Rightarrow> string" where
  "encode_rune v = map char_of
     (if v < 128 then [v]
      else if v < 2048 then [192 + v div 64, 128 + v mod 64]
      else if \<not> valid_rune v then [239, 191, 189]
      else if v < 65536 then [224 + v div 4096, 128 + v div 64 mod 64, 128 + v mod 64]
      else [240 + v div 262144, 128 + v div 4096 mod 64, 128 + v div 64 mod 64, 128 + v mod 64])"

definition unhex :: "char \<Rightarrow> nat option" where
  "unhex c = (let b = byte c in
     if 48 \<le> b \<and> b \<le> 57 then Some (b - 48)
     else if 97 \<le> b \<and> b \<le> 102 then Some (b - 87)
     else if 65 \<le> b \<and> b \<le> 70 then Some (b - 55)
     else None)"

fun hex_value :: "string \<Rightarrow> nat \<Rightarrow> nat option" where
  "hex_value [] v = Some v"
| "hex_value (c # cs) v = (case unhex c of None \<Rightarrow> None | Some x \<Rightarrow> hex_value cs (16 * v + x))"

definition is_octal :: "char \<Rightarrow> bool" where
  "is_octal c \<longleftrightarrow> 48 \<le> byte c \<and> byte c \<le> 55"

text \<open>The simple escapes of a double-quoted string.\<close>

definition simple_escape :: "char \<Rightarrow> char option" where
  "simple_escape c = map_of [(CHR ''a'', CHR 0x07), (CHR ''b'', CHR 0x08), (CHR ''f'', CHR 0x0C), (CHR ''n'', CHR 0x0A),
     (CHR ''r'', CHR 0x0D), (CHR ''t'', CHR 0x09), (CHR ''v'', CHR 0x0B), (backslash, backslash), (dquote, dquote)] c"

text \<open>One character of the body: the bytes it stands for, and what is left.\<close>

definition UnquoteChar :: "string \<Rightarrow> (string \<times> string) option" where
  "UnquoteChar s = (case s of
     [] \<Rightarrow> None
   | c # cs \<Rightarrow>
       if 128 \<le> byte c then Some (write_rune (take (next_width s) s), drop (next_width s) s)
       else if c \<noteq> backslash then Some ([c], cs)
       else (case cs of
           [] \<Rightarrow> None
         | e # rest \<Rightarrow> (case simple_escape e of
             Some x \<Rightarrow> Some ([x], rest)
           | None \<Rightarrow>
               if e \<in> {CHR ''x'', CHR ''u'', CHR ''U''} then
                 (let n = (if e = CHR ''x'' then 2 else if e = CHR ''u'' then 4 else 8)
                  in if length rest < n then None
                     else (case hex_value (take n rest) 0 of
                         None \<Rightarrow> None
                       | Some v \<Rightarrow>
                           if e = CHR ''x'' then Some ([char_of v], drop n rest)
                           else if valid_rune v then Some (encode_rune v, drop n rest) else None))
               else if is_octal e then
                 (if length rest < 2 \<or> \<not> list_all is_octal (take 2 rest) then None
                  else (let v = foldl (\<lambda>v c. 8 * v + (byte c - 48)) 0 (e # take 2 rest)
                        in if 255 < v then None else Some ([char_of v], drop 2 rest)))
               else None)))"

lemma UnquoteChar_shorter: "UnquoteChar s = Some (x, rest) \<Longrightarrow> length rest < length s"
  by (auto simp: UnquoteChar_def next_width_def Let_def split: list.splits if_splits option.splits)

function unquote_loop :: "string \<Rightarrow> (string \<times> string) option" where
  "unquote_loop s = (case s of
     [] \<Rightarrow> None
   | c # cs \<Rightarrow>
       if c = dquote then Some ([], cs)
       else if c = newline_char then None
       else (case UnquoteChar s of
           None \<Rightarrow> None
         | Some (x, rest) \<Rightarrow> (case unquote_loop rest of
             None \<Rightarrow> None
           | Some (out, rem) \<Rightarrow> Some (x @ out, rem))))"
  by pat_completeness auto
termination
  by (relation "measure length") (auto dest: UnquoteChar_shorter)

declare unquote_loop.simps [simp del]

definition Unquote :: "string \<Rightarrow> string option" where
  "Unquote s = (case s of
     [] \<Rightarrow> None
   | c # cs \<Rightarrow>
       if c \<noteq> dquote then None
       else (case unquote_loop cs of
           None \<Rightarrow> None
         | Some (out, rem) \<Rightarrow> if rem = [] then Some out else None))"

text \<open>What the printer of matchers escapes is read back.\<close>

lemma unquote_escape:
  assumes "valid_utf8 v"
  shows "unquote_loop (openMetricsEscape v @ [dquote]) = Some (v, [])"
  using assms
proof (induction v rule: valid_utf8_induct)
  case Nil
  show ?case by (subst unquote_loop.simps) (simp add: openMetricsEscape_def)
next
  case (ascii c cs)
  let ?t = "openMetricsEscape cs @ [dquote]"
  have e: "openMetricsEscape (c # cs) @ [dquote] = escape_char c @ ?t" by (simp add: openMetricsEscape_def)
  consider "c \<in> {backslash, newline_char, dquote}" | "c \<notin> {backslash, newline_char, dquote}" by blast
  then show ?case
  proof cases
    case 1
    then have "UnquoteChar (escape_char c @ ?t) = Some ([c], ?t)" "hd (escape_char c @ ?t) = backslash"
      by (auto simp: escape_char_def UnquoteChar_def simple_escape_def)
    then show ?thesis unfolding e using ascii(3) by (subst unquote_loop.simps) (auto simp: escape_char_def split: list.splits)
  next
    case 2
    then show ?thesis unfolding e using ascii(1,3) by (subst unquote_loop.simps) (simp add: escape_char_def UnquoteChar_def)
  qed
next
  case (multi ch rest)
  obtain c cs where ch: "ch = c # cs" using multi(1) by (cases ch) auto
  have c: "128 \<le> byte c" using multi(2) ch by simp
  then have ne: "c \<noteq> dquote" "c \<noteq> newline_char" by auto
  have w: "next_width (ch @ t) = length ch" for t using multi(1) multi(3) [of t] by (simp add: next_width_def max_def Suc_le_eq)
  have "rune_width ch = length ch" using multi(3) [of "[]"] by simp
  then have wr: "write_rune ch = ch" using multi(1) by (simp add: write_rune_def)
  have u: "UnquoteChar (ch @ t) = Some (ch, t)" for t using c w [of t] wr by (simp add: UnquoteChar_def ch)
  have e: "openMetricsEscape (ch @ rest) @ [dquote] = ch @ openMetricsEscape rest @ [dquote]"
    using escape_high [of ch] multi(2) by (simp add: openMetricsEscape_def)
  show ?case unfolding e using u [of "openMetricsEscape rest @ [dquote]"] multi(5) ne by (subst unquote_loop.simps) (simp add: ch)
qed

lemma Unquote_escape: "valid_utf8 v \<Longrightarrow> Unquote (dquote # openMetricsEscape v @ [dquote]) = Some v"
  by (simp add: Unquote_def unquote_escape)

end
