(* ===== verification/Route.thy ===== *)
theory Route
  imports Inhibit Go_Quote "HOL-Library.Product_Lexorder"
begin

text \<open>
  The routing tree, \<^verbatim>\<open>dispatch/route.go\<close>: its construction from the configuration (inheritance of the
  options, numbering of the nodes), the search for the routes of an alert, and the keys and
  identifiers of the nodes.

  A pointer to a node is the list of the child indices on the way from the node up to the root; the
  parent of \<open>i # up\<close> is \<open>up\<close>, and distinct nodes have distinct pointers. \<^verbatim>\<open>strconv.Quote\<close> is the parameter
  \<open>quote\<close>, and the regular expression engine is \<open>rx\<close>, as for the matchers. The visit order of the maps
  \<^verbatim>\<open>Match\<close> and \<^verbatim>\<open>MatchRE\<close> of the configuration is the order of the lists. \<^verbatim>\<open>newRoute\<close> panics where an
  expression does not compile, which is \<open>None\<close> here.
\<close>

section \<open>Configuration and nodes\<close>

record config_route_opts =
  cr_Receiver :: string
  cr_GroupBy :: "string list option"
  cr_GroupByAll :: bool
  cr_Match :: "(string \<times> string) list"
  cr_MatchRE :: "(string \<times> string) list"
  cr_Matchers :: matchers
  cr_MuteTimeIntervals :: "string list"
  cr_ActiveTimeIntervals :: "string list"
  cr_Continue :: bool
  cr_GroupWait :: "duration option"
  cr_GroupInterval :: "duration option"
  cr_RepeatInterval :: "duration option"
  cr_Labels :: labelset

datatype config_route = ConfigRoute (cr_opts: config_route_opts) (cr_Routes: "config_route list")

record route_opts =
  ro_Receiver :: string
  ro_GroupBy :: "string set"
  ro_GroupByAll :: bool
  ro_GroupWait :: duration
  ro_GroupInterval :: duration
  ro_RepeatInterval :: duration
  ro_MuteTimeIntervals :: "string list"
  ro_ActiveTimeIntervals :: "string list"
  ro_Labels :: labelset

datatype route = Route (rt_RouteOpts: route_opts) (rt_Matchers: matchers) (rt_Continue: bool) (rt_Routes: "route list") (rt_Idx: nat)

definition DefaultRouteOpts :: route_opts where
  "DefaultRouteOpts = \<lparr>ro_Receiver = '''', ro_GroupBy = {}, ro_GroupByAll = False, ro_GroupWait = 30 * second,
     ro_GroupInterval = 5 * 60 * second, ro_RepeatInterval = 4 * 60 * 60 * second, ro_MuteTimeIntervals = [],
     ro_ActiveTimeIntervals = [], ro_Labels = Map.empty\<rparr>"

section \<open>Construction\<close>

definition newRoute_opts :: "config_route_opts \<Rightarrow> route_opts \<Rightarrow> route_opts" where
  "newRoute_opts cr o0 =
     (let o1 = (if cr_Labels cr \<noteq> Map.empty then o0\<lparr>ro_Labels := ro_Labels o0 ++ cr_Labels cr\<rparr> else o0);
          o2 = (if cr_Receiver cr \<noteq> '''' then o1\<lparr>ro_Receiver := cr_Receiver cr\<rparr> else o1);
          o3 = (case cr_GroupBy cr of
              Some gb \<Rightarrow> o2\<lparr>ro_GroupBy := set gb, ro_GroupByAll := False\<rparr>
            | None \<Rightarrow> if cr_GroupByAll cr then o2\<lparr>ro_GroupByAll := cr_GroupByAll cr\<rparr> else o2);
          o4 = (case cr_GroupWait cr of Some d \<Rightarrow> o3\<lparr>ro_GroupWait := d\<rparr> | None \<Rightarrow> o3);
          o5 = (case cr_GroupInterval cr of Some d \<Rightarrow> o4\<lparr>ro_GroupInterval := d\<rparr> | None \<Rightarrow> o4);
          o6 = (case cr_RepeatInterval cr of Some d \<Rightarrow> o5\<lparr>ro_RepeatInterval := d\<rparr> | None \<Rightarrow> o5)
      in o6\<lparr>ro_MuteTimeIntervals := cr_MuteTimeIntervals cr, ro_ActiveTimeIntervals := cr_ActiveTimeIntervals cr\<rparr>)"

definition matcher_sort_key :: "matcher \<Rightarrow> string \<times> string \<times> nat" where
  "matcher_sort_key m = (m_name m, m_value m, match_type_index (m_type m))"

definition sort_matchers :: "matchers \<Rightarrow> matchers" where
  "sort_matchers ms = sort_key matcher_sort_key ms"

fun newRoute :: "regexp_engine \<Rightarrow> config_route \<Rightarrow> route_opts option \<Rightarrow> nat \<Rightarrow> (route \<times> nat) option"
and newRoutes :: "regexp_engine \<Rightarrow> config_route list \<Rightarrow> route_opts \<Rightarrow> nat \<Rightarrow> (route list \<times> nat) option" where
  "newRoute rx (ConfigRoute cr crs) parent counter =
     (let opts = newRoute_opts cr (case parent of None \<Rightarrow> DefaultRouteOpts | Some po \<Rightarrow> po)
      in case side_matchers rx (cr_Match cr) (cr_MatchRE cr) (cr_Matchers cr) of
           None \<Rightarrow> None
         | Some ms \<Rightarrow> (case newRoutes rx crs opts counter of
             None \<Rightarrow> None
           | Some (rs, idx) \<Rightarrow> Some (Route opts (sort_matchers ms) (cr_Continue cr) rs idx, idx + 1)))"
| "newRoutes rx [] parent counter = Some ([], counter)"
| "newRoutes rx (cr # crs) parent counter = (case newRoute rx cr (Some parent) counter of
     None \<Rightarrow> None
   | Some (r, c1) \<Rightarrow> (case newRoutes rx crs parent c1 of
       None \<Rightarrow> None
     | Some (rs, c2) \<Rightarrow> Some (r # rs, c2)))"

definition NewRoute :: "regexp_engine \<Rightarrow> config_route \<Rightarrow> route option" where
  "NewRoute rx cr = map_option fst (newRoute rx cr None 0)"

fun Walk :: "route \<Rightarrow> route list" where
  "Walk (Route opts ms c rs i) = Route opts ms c rs i # concat (map Walk rs)"

section \<open>Search\<close>

type_synonym route_ptr = "nat list"

fun deref :: "route \<Rightarrow> route_ptr \<Rightarrow> route option" where
  "deref root [] = Some root"
| "deref root (i # up) = (case deref root up of
     None \<Rightarrow> None
   | Some r \<Rightarrow> if i < length (rt_Routes r) then Some (rt_Routes r ! i) else None)"

fun Match :: "labelset \<Rightarrow> route_ptr \<Rightarrow> route \<Rightarrow> route_ptr list"
and Match_routes :: "labelset \<Rightarrow> route_ptr \<Rightarrow> nat \<Rightarrow> route list \<Rightarrow> route_ptr list" where
  "Match lset p (Route opts ms c rs i) =
     (if \<not> matchers_matches ms lset then []
      else let all = Match_routes lset p 0 rs in if length all = 0 then [p] else all)"
| "Match_routes lset p n [] = []"
| "Match_routes lset p n (r # rs) =
     (let matches = Match lset (n # p) r
      in matches @ (if matches \<noteq> [] \<and> \<not> rt_Continue r then [] else Match_routes lset p (n + 1) rs))"

section \<open>Keys and identifiers\<close>

fun Key :: "(string \<Rightarrow> string) \<Rightarrow> route \<Rightarrow> route_ptr \<Rightarrow> string option" where
  "Key quote root [] = Some (matchers_String quote (rt_Matchers root))"
| "Key quote root (i # up) = (case (deref root (i # up), Key quote root up) of
     (Some r, Some k) \<Rightarrow> Some (k @ ''/'' @ matchers_String quote (rt_Matchers r))
   | _ \<Rightarrow> None)"

fun ID :: "(string \<Rightarrow> string) \<Rightarrow> route \<Rightarrow> route_ptr \<Rightarrow> string option" where
  "ID quote root [] = Some (matchers_String quote (rt_Matchers root))"
| "ID quote root (i # up) = (case (deref root up, deref root (i # up), ID quote root up) of
     (Some parent, Some r, Some k) \<Rightarrow>
       Some (k @ ''/'' @ matchers_String quote (rt_Matchers r) @
         (case find (\<lambda>j. i # up = j # up) [0..<length (rt_Routes parent)] of
            Some j \<Rightarrow> ''/'' @ itoa j
          | None \<Rightarrow> []))
   | _ \<Rightarrow> None)"

section \<open>The numbering\<close>

lemma newRoute_counter:
  "newRoute rx cr parent n = Some (r, m) \<Longrightarrow> rt_Idx r + 1 = m \<and> n \<le> rt_Idx r \<and> distinct (map rt_Idx (Walk r)) \<and> set (map rt_Idx (Walk r)) = {n..<m}"
  "newRoutes rx crs po n = Some (rs, m) \<Longrightarrow> n \<le> m \<and> distinct (map rt_Idx (concat (map Walk rs))) \<and> set (map rt_Idx (concat (map Walk rs))) = {n..<m}"
proof (induction rx cr parent n and rx crs po n arbitrary: r m and rs m rule: newRoute_newRoutes.induct)
  case (1 rx cr crs parent counter)
  from "1.prems" obtain ms rs idx where ms: "side_matchers rx (cr_Match cr) (cr_MatchRE cr) (cr_Matchers cr) = Some ms"
    and rs: "newRoutes rx crs (newRoute_opts cr (case parent of None \<Rightarrow> DefaultRouteOpts | Some po \<Rightarrow> po)) counter = Some (rs, idx)"
    and r: "r = Route (newRoute_opts cr (case parent of None \<Rightarrow> DefaultRouteOpts | Some po \<Rightarrow> po)) (sort_matchers ms) (cr_Continue cr) rs idx" "m = idx + 1"
    by (auto simp: Let_def split: option.splits)
  from "1.IH" [OF refl ms rs] show ?case using r by auto
next
  case (3 rx cr crs parent counter)
  from "3.prems" obtain r c1 rs' where r: "newRoute rx cr (Some parent) counter = Some (r, c1)" "newRoutes rx crs parent c1 = Some (rs', m)" "rs = r # rs'"
    by (auto split: option.splits)
  from "3.IH"(1) [OF r(1)] "3.IH"(2) [OF r(1) refl r(2)] show ?case using r(3) by (auto simp: ivl_disj_un disjoint_iff)
qed simp

text \<open>
  C27: the numbering of the nodes is a bijection. In a tree built from the configuration every node has its
  own index, the indices are exactly those from zero to the index of the root, and so the table of
  groups with one slot more than the index of the root has a slot for every node and no other.
\<close>

theorem route_index_bijection:
  assumes "NewRoute rx cr = Some root"
  shows "bij_betw rt_Idx (set (Walk root)) {0..rt_Idx root} \<and> distinct (Walk root)"
proof -
  obtain m where "newRoute rx cr None 0 = Some (root, m)" using assms by (auto simp: NewRoute_def)
  from newRoute_counter(1) [OF this] show ?thesis by (auto simp: bij_betw_def distinct_map atLeastLessThanSuc_atLeastAtMost)
qed

section \<open>What the search finds\<close>

text \<open>
  The specification of the search, along the way down from a node: every node on the way matches, no
  sibling before it on the way matches without asking to continue, and no child of the last one
  matches.
\<close>

abbreviation node_matches :: "labelset \<Rightarrow> route \<Rightarrow> bool" where
  "node_matches lset r \<equiv> matchers_matches (rt_Matchers r) lset"

fun takes :: "labelset \<Rightarrow> route \<Rightarrow> nat list \<Rightarrow> bool" where
  "takes lset r [] = (node_matches lset r \<and> (\<forall>c \<in> set (rt_Routes r). \<not> node_matches lset c))"
| "takes lset r (i # is) = (node_matches lset r \<and> i < length (rt_Routes r)
     \<and> (\<forall>j < i. node_matches lset (rt_Routes r ! j) \<longrightarrow> rt_Continue (rt_Routes r ! j)) \<and> takes lset (rt_Routes r ! i) is)"

declare matchers_matches_iff [simp del]

lemma takes_matches: "takes lset r is \<Longrightarrow> node_matches lset r"
  by (cases "is") auto

lemma ex_nat_0_or_Suc: "(\<exists>i :: nat. P i) \<longleftrightarrow> P 0 \<or> (\<exists>i. P (Suc i))"
  by (metis not0_implies_Suc)

lemma ptr_disjoint: "rev is @ a # p = rev js @ b # p \<longleftrightarrow> is = js \<and> a = b"
proof -
  have "rev is @ a # p = rev js @ b # p \<longleftrightarrow> rev p @ a # is = rev p @ b # js" by (subst rev_is_rev_conv [symmetric]) simp
  then show ?thesis by auto
qed

lemma Match_takes:
  "(\<forall>q. q \<in> set (Match lset p r) \<longleftrightarrow> (\<exists>is. takes lset r is \<and> q = rev is @ p)) \<and> distinct (Match lset p r)
     \<and> (Match lset p r \<noteq> [] \<longleftrightarrow> node_matches lset r)"
  "(\<forall>q. q \<in> set (Match_routes lset p n rs) \<longleftrightarrow>
      (\<exists>i is. i < length rs \<and> (\<forall>j < i. node_matches lset (rs ! j) \<longrightarrow> rt_Continue (rs ! j)) \<and> takes lset (rs ! i) is \<and> q = rev is @ (n + i) # p))
     \<and> distinct (Match_routes lset p n rs) \<and> (Match_routes lset p n rs \<noteq> [] \<longleftrightarrow> (\<exists>r \<in> set rs. node_matches lset r))"
proof (induction lset p r and lset p n rs rule: Match_Match_routes.induct)
  case (1 lset p opts ms c rs i)
  show ?case
  proof (cases "matchers_matches ms lset")
    case False
    then show ?thesis by (auto dest: takes_matches)
  next
    case True
    note IH = "1.IH" [unfolded not_not, OF True]
    show ?thesis
    proof (cases "Match_routes lset p 0 rs = []")
      case none: True
      then have "\<forall>c \<in> set rs. \<not> node_matches lset c" using IH by simp
      then have "takes lset (Route opts ms c rs i) is \<longleftrightarrow> is = []" for "is" using True by (cases "is") (auto dest: takes_matches)
      then show ?thesis using True none by simp
    next
      case False
      then have ex: "\<exists>c \<in> set rs. node_matches lset c" using IH by blast
      have eq: "(\<exists>is. takes lset (Route opts ms c rs i) is \<and> q = rev is @ p) \<longleftrightarrow>
          (\<exists>k is. k < length rs \<and> (\<forall>j < k. node_matches lset (rs ! j) \<longrightarrow> rt_Continue (rs ! j)) \<and> takes lset (rs ! k) is \<and> q = rev is @ (0 + k) # p)" for q
      proof
        assume "\<exists>is. takes lset (Route opts ms c rs i) is \<and> q = rev is @ p"
        then obtain "is" where "takes lset (Route opts ms c rs i) is" "q = rev is @ p" by blast
        then show "\<exists>k is. k < length rs \<and> (\<forall>j < k. node_matches lset (rs ! j) \<longrightarrow> rt_Continue (rs ! j)) \<and> takes lset (rs ! k) is \<and> q = rev is @ (0 + k) # p"
          using ex by (cases "is") auto
      next
        assume "\<exists>k is. k < length rs \<and> (\<forall>j < k. node_matches lset (rs ! j) \<longrightarrow> rt_Continue (rs ! j)) \<and> takes lset (rs ! k) is \<and> q = rev is @ (0 + k) # p"
        then obtain k "is" where "takes lset (Route opts ms c rs i) (k # is)" "q = rev (k # is) @ p" using True by auto
        then show "\<exists>is. takes lset (Route opts ms c rs i) is \<and> q = rev is @ p" by blast
      qed
      show ?thesis unfolding eq using True False IH by (simp add: Let_def)
    qed
  qed
next
  case (2 lset p n)
  then show ?case by simp
next
  case (3 lset p n r rs)
  note IH1 = "3.IH"(1)
  have ex: "(\<exists>i is. i < length (r # rs) \<and> (\<forall>j < i. node_matches lset ((r # rs) ! j) \<longrightarrow> rt_Continue ((r # rs) ! j)) \<and> takes lset ((r # rs) ! i) is \<and> q = rev is @ (n + i) # p) \<longleftrightarrow>
      q \<in> set (Match lset (n # p) r) \<or> (node_matches lset r \<longrightarrow> rt_Continue r) \<and>
      (\<exists>i is. i < length rs \<and> (\<forall>j < i. node_matches lset (rs ! j) \<longrightarrow> rt_Continue (rs ! j)) \<and> takes lset (rs ! i) is \<and> q = rev is @ (n + 1 + i) # p)" for q
    using IH1 by (subst ex_nat_0_or_Suc) (simp add: All_less_Suc2, blast)
  show ?case
  proof (cases "node_matches lset r \<and> \<not> rt_Continue r")
    case True
    then show ?thesis unfolding ex using IH1 by simp
  next
    case False
    then have IH2: "(\<forall>q. q \<in> set (Match_routes lset p (n + 1) rs) \<longleftrightarrow>
        (\<exists>i is. i < length rs \<and> (\<forall>j < i. node_matches lset (rs ! j) \<longrightarrow> rt_Continue (rs ! j)) \<and> takes lset (rs ! i) is \<and> q = rev is @ (n + 1 + i) # p))
       \<and> distinct (Match_routes lset p (n + 1) rs) \<and> (Match_routes lset p (n + 1) rs \<noteq> [] \<longleftrightarrow> (\<exists>r \<in> set rs. node_matches lset r))"
      using "3.IH"(2) [OF refl] IH1 by blast
    have "set (Match lset (n # p) r) \<inter> set (Match_routes lset p (n + 1) rs) = {}"
      using IH1 IH2 by (auto simp: ptr_disjoint)
    then show ?thesis unfolding ex using IH1 IH2 False by (auto simp: Let_def)
  qed
qed


lemma deref_append: "deref root (q @ p) = (case deref root p of None \<Rightarrow> None | Some r \<Rightarrow> deref r q)"
  by (induction q) (auto split: option.splits)

lemma takes_deref: "takes lset r is \<Longrightarrow> deref r (rev is) \<noteq> None"
  by (induction "is" arbitrary: r) (auto simp: deref_append)

text \<open>
  C13: an alert is routed to the deepest matching nodes. The search returns, without repetition, exactly the
  nodes of the tree that the specification takes: all nodes on the way to them match, none is cut off
  by an earlier matching sibling that does not continue, and none has a matching child. It returns
  none only where the root itself does not match.
\<close>

theorem Match_spec:
  "set (Match lset [] root) = {p. takes lset root (rev p)} \<and> set (Match lset [] root) \<subseteq> {p. deref root p \<noteq> None}
   \<and> distinct (Match lset [] root) \<and> (Match lset [] root = [] \<longleftrightarrow> \<not> matchers_matches (rt_Matchers root) lset)"
proof -
  have "q \<in> set (Match lset [] root) \<longleftrightarrow> takes lset root (rev q)" for q
    using Match_takes(1) [of lset "[]" root] by (metis append_Nil2 rev_rev_ident)
  then show ?thesis using Match_takes(1) [of lset "[]" root] takes_deref [of lset root "rev q" for q] by auto
qed

section \<open>Identifiers are unique\<close>

text \<open>The text of a list of matchers ends at the first closing brace that is not inside quotes.\<close>

fun after_brace :: "bool \<Rightarrow> string \<Rightarrow> string option" where
  "after_brace q [] = None"
| "after_brace False (c # cs) = (if c = CHR ''}'' then Some cs else after_brace (c = dquote) cs)"
| "after_brace True (c # cs) = (if c = backslash then (case cs of [] \<Rightarrow> None | _ # ds \<Rightarrow> after_brace True ds) else after_brace (c \<noteq> dquote) cs)"

definition balanced :: "string \<Rightarrow> bool" where
  "balanced x \<longleftrightarrow> (\<forall>t. after_brace False (x @ t) = after_brace False t)"

lemma literal_after_brace: "literal_body x \<Longrightarrow> after_brace True (x @ t) = after_brace False t"
proof (induction x rule: literal_body.induct)
  case (2 c cs)
  then show ?case by (cases cs) (auto split: if_splits)
qed simp

lemma balanced_literal: "string_literal x \<Longrightarrow> balanced x"
  by (cases x) (auto simp: balanced_def literal_after_brace)

lemma balanced_append: "balanced x \<Longrightarrow> balanced y \<Longrightarrow> balanced (x @ y)"
  by (simp add: balanced_def)

lemma balanced_plain: "CHR ''}'' \<notin> set x \<Longrightarrow> dquote \<notin> set x \<Longrightarrow> balanced x"
  by (induction x) (auto simp: balanced_def)

lemma balanced_Cons: "c \<noteq> CHR ''}'' \<Longrightarrow> c \<noteq> dquote \<Longrightarrow> balanced x \<Longrightarrow> balanced (c # x)"
  by (simp add: balanced_def)

lemma balanced_matcher:
  assumes "\<And>s. string_literal (quote s)"
  shows "balanced (matcher_String quote m)"
proof -
  have op: "balanced (match_type_String t)" for t by (cases t) (auto intro: balanced_plain)
  have name: "balanced (m_name m)" if n: "\<not> contains_reserved (m_name m)"
  proof -
    have "c \<notin> set (m_name m)" if "c \<in> {CHR ''}'', dquote}" for c
      using that n ascii_rune [of c "m_name m"] by (fastforce simp: contains_reserved_def list_ex_iff isReserved_def reserved_chars_def)
    then show ?thesis by (intro balanced_plain) auto
  qed
  have "balanced (dquote # openMetricsEscape (m_value m) @ [dquote])" by (rule balanced_literal) (simp add: literal_escape)
  then show ?thesis unfolding matcher_String_def using assms op name by (simp add: balanced_append balanced_literal)
qed

lemma after_matchers:
  assumes "\<And>s. string_literal (quote s)"
  shows "after_brace False (matchers_String quote ms @ t) = Some t"
proof -
  have m: "balanced (matcher_String quote m)" for m using assms by (rule balanced_matcher)
  have "balanced (matchers_body quote ms)"
  proof (induction ms rule: induct_list012)
    case (3 m m' ms)
    then show ?case by (simp add: m balanced_append balanced_Cons)
  qed (simp_all add: m balanced_plain)
  then show ?thesis by (simp add: matchers_String_def balanced_def)
qed


lemma matchers_String_cut:
  assumes "\<And>s. string_literal (quote s)" "matchers_String quote ms @ t = matchers_String quote ms' @ t'"
  shows "t = t'"
  using arg_cong [OF assms(2), of "after_brace False"] by (simp add: after_matchers [OF assms(1)])

text \<open>The steps from the root down to a node, as the identifier spells them.\<close>

fun steps_text :: "(string \<Rightarrow> string) \<Rightarrow> (matchers \<times> nat) list \<Rightarrow> string" where
  "steps_text quote [] = []"
| "steps_text quote ((ms, i) # sts) = ''/'' @ matchers_String quote ms @ ''/'' @ itoa i @ steps_text quote sts"

lemma steps_text_append: "steps_text quote (a @ b) = steps_text quote a @ steps_text quote b"
  by (induction quote a rule: steps_text.induct) simp_all

lemma itoa_cut:
  assumes "itoa i @ t = itoa j @ t'" "t = [] \<or> hd t = CHR ''/''" "t' = [] \<or> hd t' = CHR ''/''"
  shows "i = j \<and> t = t'"
proof -
  have d: "takeWhile is_digit (itoa n @ t) = itoa n" if "t = [] \<or> hd t = CHR ''/''" for n t
    using itoa_all_digits [of n] that by (cases t) (auto simp: list_all_iff is_digit_def takeWhile_append)
  have "itoa i = itoa j" using arg_cong [OF assms(1), of "takeWhile is_digit"] assms(2,3) by (simp add: d)
  then show ?thesis using assms(1) itoa_inj by auto
qed

lemma steps_text_inj:
  assumes "\<And>s. string_literal (quote s)" "steps_text quote a = steps_text quote b"
  shows "map snd a = map snd b"
  using assms(2)
proof (induction a arbitrary: b)
  case Nil
  then show ?case by (cases b) auto
next
  case (Cons x a)
  obtain ms i where x: "x = (ms, i)" by force
  obtain ms' j b' where b: "b = (ms', j) # b'" using Cons.prems x by (cases b) auto
  have hd: "steps_text quote c = [] \<or> hd (steps_text quote c) = CHR ''/''" for c by (cases c) auto
  from Cons.prems have "matchers_String quote ms @ ''/'' @ itoa i @ steps_text quote a = matchers_String quote ms' @ ''/'' @ itoa j @ steps_text quote b'"
    by (simp add: x b)
  from matchers_String_cut [OF assms(1) this] have "itoa i @ steps_text quote a = itoa j @ steps_text quote b'" by simp
  from itoa_cut [OF this hd hd] Cons.IH show ?case by (simp add: x b)
qed

lemma ID_steps:
  assumes "deref root p \<noteq> None"
  shows "\<exists>sts. ID quote root p = Some (matchers_String quote (rt_Matchers root) @ steps_text quote sts) \<and> map snd sts = rev p"
  using assms
proof (induction p)
  case (Cons i up)
  then obtain parent r sts where p: "deref root up = Some parent" "i < length (rt_Routes parent)" "deref root (i # up) = Some r"
    and sts: "ID quote root up = Some (matchers_String quote (rt_Matchers root) @ steps_text quote sts)" "map snd sts = rev up"
    by (auto split: option.splits if_splits)
  have "find (\<lambda>j. i # up = j # up) [0..<length (rt_Routes parent)] = Some i"
    unfolding find_Some_iff using p(2) by (intro exI [of _ i]) simp
  then have "ID quote root (i # up) = Some (matchers_String quote (rt_Matchers root) @ steps_text quote (sts @ [(rt_Matchers r, i)]))"
    using p sts(1) by (simp add: steps_text_append del: deref.simps)
  then show ?case using sts(2) by (intro exI [of _ "sts @ [(rt_Matchers r, i)]"]) simp
qed simp

text \<open>
  C28: the identifier of a route is unique: two nodes of the tree with the same identifier are the same node,
  whatever their matchers are, also where several siblings have the same ones. The text of a name is
  quoted where it has reserved characters, by any function that yields string literals.
\<close>

theorem route_ID_unique:
  assumes "\<And>s. string_literal (quote s)" "deref root p \<noteq> None" "deref root q \<noteq> None" "ID quote root p = ID quote root q"
  shows "p = q"
proof -
  obtain a b where a: "ID quote root p = Some (matchers_String quote (rt_Matchers root) @ steps_text quote a)" "map snd a = rev p"
    and b: "ID quote root q = Some (matchers_String quote (rt_Matchers root) @ steps_text quote b)" "map snd b = rev q"
    using ID_steps [OF assms(2)] ID_steps [OF assms(3)] by blast
  have "steps_text quote a = steps_text quote b" using a(1) b(1) assms(4) by simp
  from steps_text_inj [OF assms(1) this] a(2) b(2) show ?thesis by simp
qed


section \<open>An example\<close>

definition sample_cr_opts :: "string \<Rightarrow> (string \<times> string) list \<Rightarrow> bool \<Rightarrow> config_route_opts" where
  "sample_cr_opts recv mt c = \<lparr>cr_Receiver = recv, cr_GroupBy = None, cr_GroupByAll = False, cr_Match = mt, cr_MatchRE = [], cr_Matchers = [],
     cr_MuteTimeIntervals = [], cr_ActiveTimeIntervals = [], cr_Continue = c, cr_GroupWait = None, cr_GroupInterval = None,
     cr_RepeatInterval = None, cr_Labels = Map.empty\<rparr>"

definition sample_cr :: config_route where
  "sample_cr = ConfigRoute (sample_cr_opts ''ops'' [] False)
     [ConfigRoute (sample_cr_opts ''db'' [(''a'', ''b'')] True) [], ConfigRoute (sample_cr_opts '''' [(''a'', ''b'')] False) []]"

definition sample_root :: route where
  "sample_root = (let o1 = DefaultRouteOpts\<lparr>ro_Receiver := ''ops''\<rparr>; o2 = DefaultRouteOpts\<lparr>ro_Receiver := ''db''\<rparr>;
       m = \<lparr>m_type = MatchEqual, m_name = ''a'', m_value = ''b'', m_re = (\<lambda>_. False)\<rparr>
     in Route o1 [] False [Route o2 [m] True [] 0, Route o1 [m] False [] 1] 2)"

definition sample_quote :: "string \<Rightarrow> string" where
  "sample_quote s = dquote # openMetricsEscape s @ [dquote]"

lemma sample_NewRoute: "NewRoute (\<lambda>_. None) sample_cr = Some sample_root"
  by (simp add: NewRoute_def sample_cr_def sample_cr_opts_def side_matchers_def NewMatcher_def newRoute_opts_def DefaultRouteOpts_def
    sort_matchers_def sample_root_def Let_def)

theorem route_index_bijection_witness:
  "bij_betw rt_Idx (set (Walk sample_root)) {0..2} \<and> distinct (Walk sample_root)"
  using route_index_bijection [OF sample_NewRoute] by (simp add: sample_root_def Let_def)

theorem route_ID_unique_witness:
  "deref sample_root [0] \<noteq> None \<and> deref sample_root [1] \<noteq> None \<and> Key sample_quote sample_root [0] = Key sample_quote sample_root [1]
    \<and> ID sample_quote sample_root [0] \<noteq> ID sample_quote sample_root [1]"
proof -
  have d: "deref sample_root [0] \<noteq> None" "deref sample_root [1] \<noteq> None" by (simp_all add: sample_root_def Let_def)
  have l: "string_literal (sample_quote s)" for s by (simp add: sample_quote_def literal_escape)
  have "Key sample_quote sample_root [0] = Key sample_quote sample_root [1]" by (simp add: sample_root_def Let_def)
  then show ?thesis using d route_ID_unique [of sample_quote sample_root "[0]" "[1]", OF l d] by auto
qed

end
