(* ===== verification/Aggr_Group.thy ===== *)
theory Aggr_Group
  imports Route Notify
begin

text \<open>
  Aggregation groups, the type \<^verbatim>\<open>aggrGroup\<close> of \<^verbatim>\<open>dispatch/dispatch.go\<close>: the labels alerts are grouped
  by, insertion, the flush with its deletion of resolved alerts, one round of the loop \<^verbatim>\<open>run\<close> with the
  context it builds for the notification pipeline, and the cache of rendered route labels.

  Parameters: the text \<open>lstr\<close> of a label set, and the renderer \<open>render\<close> of the route labels (the template
  engine), which may fail for a label. A timer is the time at which it fires. Other goroutines may
  insert alerts while the pipeline runs, so the group after the notification is an argument of the
  flush. The order in which the store lists its alerts is an argument too.
\<close>

section \<open>The group\<close>

definition getGroupLabels :: "alert \<Rightarrow> route_opts \<Rightarrow> labelset" where
  "getGroupLabels a opts = (\<lambda>ln. if ln \<in> ro_GroupBy opts \<or> ro_GroupByAll opts then al_labels a ln else None)"

record aggr_group =
  ag_labels :: labelset
  ag_opts :: route_opts
  ag_routeID :: string
  ag_routeKey :: string
  ag_matchers :: matchers
  ag_alerts :: alert_store
  ag_marker :: alert_marker
  ag_id :: "string option"
  ag_cancelled :: bool
  ag_done :: bool
  ag_next :: time
  ag_running :: bool
  ag_flushIdx :: nat
  ag_routeLabels :: "(nat \<times> labelset) option"
  ag_routeLabelsGen :: nat

definition newAggrGroup :: "(string \<Rightarrow> string) \<Rightarrow> route \<Rightarrow> route_ptr \<Rightarrow> labelset \<Rightarrow> time \<Rightarrow> string option \<Rightarrow> aggr_group option" where
  "newAggrGroup quote root p labels now uid = (case (deref root p, ID quote root p, Key quote root p) of
     (Some r, Some i, Some k) \<Rightarrow> Some \<lparr>ag_labels = labels, ag_opts = rt_RouteOpts r, ag_routeID = i, ag_routeKey = k,
       ag_matchers = rt_Matchers r, ag_alerts = NewAlerts, ag_marker = Map.empty, ag_id = uid, ag_cancelled = False, ag_done = False,
       ag_next = now + ro_GroupWait (rt_RouteOpts r), ag_running = False, ag_flushIdx = 1, ag_routeLabels = None, ag_routeLabelsGen = 0\<rparr>
   | _ \<Rightarrow> None)"

definition GroupKey :: "(labelset \<Rightarrow> string) \<Rightarrow> aggr_group \<Rightarrow> string" where
  "GroupKey lstr ag = ag_routeKey ag @ '':'' @ lstr (ag_labels ag)"

definition ag_empty :: "aggr_group \<Rightarrow> bool" where
  "ag_empty ag = Empty_store (ag_alerts ag)"

definition ag_destroyed :: "aggr_group \<Rightarrow> bool" where
  "ag_destroyed ag = Destroyed (ag_alerts ag)"

definition resetTimer :: "time \<Rightarrow> duration \<Rightarrow> aggr_group \<Rightarrow> aggr_group" where
  "resetTimer now t ag = ag\<lparr>ag_next := now + t\<rparr>"

definition invalidateRouteLabels :: "aggr_group \<Rightarrow> aggr_group" where
  "invalidateRouteLabels ag = ag\<lparr>ag_routeLabelsGen := ag_routeLabelsGen ag + 1\<rparr>"

definition ag_insert :: "alert_env \<Rightarrow> time \<Rightarrow> alert \<Rightarrow> aggr_group \<Rightarrow> aggr_group \<times> bool" where
  "ag_insert A now a ag = (case Set_alert A now a (ag_alerts ag) of
     (s, Some err) \<Rightarrow> if err = ErrDestroyed then (ag\<lparr>ag_alerts := s\<rparr>, False) else (ag\<lparr>ag_alerts := s\<rparr>, True)
   | (s, None) \<Rightarrow> (invalidateRouteLabels (ag\<lparr>ag_alerts := s\<rparr>), True))"

section \<open>Flushing\<close>

text \<open>\<^verbatim>\<open>sort.Stable\<close>.\<close>

fun stable_insert :: "('a \<Rightarrow> 'a \<Rightarrow> bool) \<Rightarrow> 'a \<Rightarrow> 'a list \<Rightarrow> 'a list" where
  "stable_insert lt x [] = [x]"
| "stable_insert lt x (y # ys) = (if lt y x then y # stable_insert lt x ys else x # y # ys)"

definition sort_Stable :: "('a \<Rightarrow> 'a \<Rightarrow> bool) \<Rightarrow> 'a list \<Rightarrow> 'a list" where
  "sort_Stable lt xs = foldr (stable_insert lt) xs []"

definition flush_copy :: "alert_env \<Rightarrow> time \<Rightarrow> alert \<Rightarrow> alert" where
  "flush_copy A now a = (if ResolvedAt A a now then a else a\<lparr>al_endsAt := zero_time\<rparr>)"

definition flush_slices :: "alert_env \<Rightarrow> time \<Rightarrow> alert list \<Rightarrow> alert list \<times> alert list" where
  "flush_slices A now as = (sort_Stable (AlertSlice_Less A) (map (flush_copy A now) as), filter (\<lambda>a. ResolvedAt A a now) as)"

definition delete_markers :: "alert_env \<Rightarrow> alert list \<Rightarrow> aggr_group \<Rightarrow> aggr_group" where
  "delete_markers A resolved ag = ag\<lparr>ag_marker := Delete_marker
     (map (Fingerprint A) (filter (\<lambda>a. Get_alert (Fingerprint A a) (ag_alerts ag) = Inl ErrNotFoundAlert) resolved)) (ag_marker ag)\<rparr>"

definition flush_end :: "alert_env \<Rightarrow> alert list \<Rightarrow> aggr_group \<Rightarrow> aggr_group" where
  "flush_end A resolved ag =
     (let ag1 = ag\<lparr>ag_alerts := DeleteIfNotModified A resolved True (ag_alerts ag)\<rparr>;
          ag2 = (if 0 < length resolved then invalidateRouteLabels ag1 else ag1)
      in delete_markers A resolved ag2)"

definition flush :: "alert_env \<Rightarrow> time \<Rightarrow> fingerprint list \<Rightarrow> (alert list \<Rightarrow> aggr_group \<Rightarrow> aggr_group \<times> bool) \<Rightarrow> aggr_group \<Rightarrow> aggr_group" where
  "flush A now visit notify ag =
     (if ag_empty ag then ag
      else (let (alerts, resolved) = flush_slices A now (List_alerts visit (ag_alerts ag));
                (ag1, ok) = notify alerts ag
            in if ok then flush_end A resolved ag1 else ag1))"

section \<open>Route labels\<close>

type_synonym route_label_renderer = "string \<Rightarrow> labelset \<Rightarrow> labelset \<Rightarrow> alert list \<Rightarrow> string \<Rightarrow> string option"

definition renderRouteLabels :: "route_label_renderer option \<Rightarrow> alert list \<Rightarrow> aggr_group \<Rightarrow> labelset" where
  "renderRouteLabels tmpl as ag = (case tmpl of
     None \<Rightarrow> Map.empty
   | Some render \<Rightarrow>
       if ro_Labels (ag_opts ag) = Map.empty then Map.empty
       else (\<lambda>l. if ro_Labels (ag_opts ag) l = None then None
                 else render (ro_Receiver (ag_opts ag)) (ag_labels ag) (ro_Labels (ag_opts ag)) as l))"

definition RouteLabels :: "route_label_renderer option \<Rightarrow> fingerprint list \<Rightarrow> aggr_group \<Rightarrow> labelset \<times> aggr_group" where
  "RouteLabels tmpl visit ag =
     (let cached = ag_routeLabels ag; gen = ag_routeLabelsGen ag;
          miss = (let alerts = List_alerts visit (ag_alerts ag);
                      labels = (if length alerts = 0 then Map.empty else renderRouteLabels tmpl alerts ag)
                  in (labels, ag\<lparr>ag_routeLabels := Some (gen, labels)\<rparr>))
      in case cached of
           Some (g, labels) \<Rightarrow> if g = gen then (labels, ag) else miss
         | None \<Rightarrow> miss)"

section \<open>One round of the loop\<close>

definition run_ctx :: "(labelset \<Rightarrow> string) \<Rightarrow> time \<Rightarrow> aggr_group \<Rightarrow> nctx" where
  "run_ctx lstr now ag = \<lparr>cx_ReceiverName = Some (ro_Receiver (ag_opts ag)), cx_RepeatInterval = Some (ro_RepeatInterval (ag_opts ag)),
     cx_GroupLabels = Some (ag_labels ag), cx_RouteLabels = Some (ro_Labels (ag_opts ag)), cx_GroupMatchers = Some (ag_matchers ag),
     cx_AggrGroupID = ag_id ag, cx_FlushID = Some (ag_flushIdx ag), cx_GroupKey = Some (GroupKey lstr ag),
     cx_FiringAlerts = None, cx_ResolvedAlerts = None, cx_Now = Some now,
     cx_MuteTimeIntervals = Some (ro_MuteTimeIntervals (ag_opts ag)), cx_ActiveTimeIntervals = Some (ro_ActiveTimeIntervals (ag_opts ag)),
     cx_RouteID = Some (ag_routeID ag), cx_NflogStore = None, cx_Reason = None, cx_MutedAlerts = None\<rparr>"

definition flush_ctx :: "(labelset \<Rightarrow> string) \<Rightarrow> route_label_renderer option \<Rightarrow> time \<Rightarrow> alert list \<Rightarrow> aggr_group \<Rightarrow> nctx" where
  "flush_ctx lstr tmpl now as ag = (run_ctx lstr now ag)\<lparr>cx_RouteLabels := Some (renderRouteLabels tmpl as ag)\<rparr>"

text \<open>
  The tick at \<open>now\<close>: the context is built, the counter of flushes and the timer advance (the timer at the
  time \<open>now'\<close> of the call), and the flush runs at \<open>now''\<close>; \<open>nf\<close> is the pipeline, with what other goroutines
  did to the group meanwhile. The loop ends where the group is destroyed.
\<close>

definition run_tick ::
  "alert_env \<Rightarrow> (labelset \<Rightarrow> string) \<Rightarrow> route_label_renderer option \<Rightarrow> time \<Rightarrow> time \<Rightarrow> time \<Rightarrow> fingerprint list \<Rightarrow>
     (nctx \<Rightarrow> alert list \<Rightarrow> aggr_group \<Rightarrow> aggr_group \<times> bool) \<Rightarrow> aggr_group \<Rightarrow> aggr_group \<times> bool" where
  "run_tick A lstr tmpl now now' now'' visit nf ag =
     (let ag1 = resetTimer now' (ro_GroupInterval (ag_opts ag)) (ag\<lparr>ag_flushIdx := ag_flushIdx ag + 1\<rparr>);
          ag2 = flush A now'' visit (\<lambda>as g. nf ((flush_ctx lstr tmpl now as ag)) as g) ag1
      in (ag2, ag_destroyed ag2))"


definition ag_stop :: "aggr_group \<Rightarrow> aggr_group" where
  "ag_stop ag = ag\<lparr>ag_cancelled := True\<rparr>"

section \<open>What a flush does\<close>

lemma set_stable_insert [simp]: "set (stable_insert lt x xs) = insert x (set xs)"
  by (induction xs) auto

lemma set_sort_Stable [simp]: "set (sort_Stable lt xs) = set xs"
  by (induction xs) (auto simp: sort_Stable_def)

lemma length_sort_Stable [simp]: "length (sort_Stable lt xs) = length xs"
proof -
  have "length (stable_insert lt x ys) = Suc (length ys)" for x ys by (induction ys) auto
  then show ?thesis by (induction xs) (auto simp: sort_Stable_def)
qed

text \<open>Listing the store gives the stored alerts, each with its own fingerprint.\<close>

definition store_wf :: "alert_env \<Rightarrow> alert_store \<Rightarrow> bool" where
  "store_wf A s \<longleftrightarrow> (\<forall>fp a. as_alerts s fp = Some a \<longrightarrow> Fingerprint A a = fp) \<and> as_perAlertLimit s = 0"

lemma store_wf_New [simp]: "store_wf A NewAlerts"
  by (simp add: store_wf_def NewAlerts_def)

lemma ag_insert_eq:
  assumes "store_wf A (ag_alerts ag)"
  shows "ag_insert A now a ag = (if as_destroyed (ag_alerts ag) then (ag, False)
    else (invalidateRouteLabels (ag\<lparr>ag_alerts := (ag_alerts ag)\<lparr>as_alerts := (as_alerts (ag_alerts ag))(Fingerprint A a \<mapsto> a)\<rparr>\<rparr>), True))"
  using assms by (simp add: ag_insert_def Set_alert_def store_wf_def Let_def)

lemma ag_insert_destroyed: "as_destroyed (ag_alerts ag) \<Longrightarrow> ag_insert A now a ag = (ag, False)"
  by (simp add: ag_insert_def Set_alert_def)

lemma ag_insert_wf:
  assumes "store_wf A (ag_alerts ag)"
  shows "store_wf A (ag_alerts (fst (ag_insert A now a ag)))"
  using assms by (auto simp: ag_insert_eq invalidateRouteLabels_def store_wf_def)

lemma delete_subset: "fold (delete_if_same A) as m fp = Some a \<Longrightarrow> m fp = Some a"
proof (induction as arbitrary: m)
  case (Cons b as)
  have "delete_if_same A b m fp = Some a \<Longrightarrow> m fp = Some a" by (auto simp: delete_if_same_def split: option.splits if_splits)
  then show ?case using Cons by simp
qed simp

lemma delete_reason:
  "m fp = Some a' \<Longrightarrow> fold (delete_if_same A) as m fp = None \<Longrightarrow> \<exists>a \<in> set as. Fingerprint A a = fp \<and> al_updatedAt a = al_updatedAt a'"
proof (induction as arbitrary: m)
  case (Cons b as)
  then show ?case
    by (cases "delete_if_same A b m fp = Some a'") (auto simp: delete_if_same_def split: option.splits if_splits)
qed simp

lemma flush_end_fields [simp]:
  "ag_alerts (flush_end A resolved ag) = DeleteIfNotModified A resolved True (ag_alerts ag)"
  "ag_labels (flush_end A resolved ag) = ag_labels ag" "ag_running (flush_end A resolved ag) = ag_running ag"
  "ag_opts (flush_end A resolved ag) = ag_opts ag" "ag_cancelled (flush_end A resolved ag) = ag_cancelled ag" "ag_done (flush_end A resolved ag) = ag_done ag"
  "ag_routeID (flush_end A resolved ag) = ag_routeID ag" "ag_routeKey (flush_end A resolved ag) = ag_routeKey ag"
  by (simp_all add: flush_end_def delete_markers_def invalidateRouteLabels_def Let_def)

lemma flush_end_wf: "store_wf A (ag_alerts ag) \<Longrightarrow> store_wf A (ag_alerts (flush_end A resolved ag))"
  by (auto simp: store_wf_def DeleteIfNotModified_def Let_def dest: delete_subset)

lemma DeleteIfNotModified_destroyed:
  "as_destroyed (DeleteIfNotModified A as True s) \<longleftrightarrow> as_destroyed s \<or> as_alerts (DeleteIfNotModified A as True s) = Map.empty"
  by (auto simp: DeleteIfNotModified_def Let_def)

text \<open>
  C9: a flush loses no alert. The pipeline is given every alert of the store as of the flush, those that had not
  ended without an end, so that none resolves while the pipeline runs; and whatever other goroutines
  did to the group meanwhile, an alert is gone after the flush only if the pipeline succeeded, was
  given this alert as resolved, and the alert was not updated since. The group is destroyed
  only where nothing is left in it, and then refuses every insertion.
\<close>

theorem flush_loses_nothing:
  assumes "std_resolved A" "flush_slices A now (List_alerts visit (ag_alerts ag)) = (alerts, resolved)" "notify alerts ag = (ag1, ok)"
    and "set visit = dom (as_alerts (ag_alerts ag))" "\<not> ag_empty ag" "\<not> ag_destroyed ag1"
    and "ag2 = flush A now visit notify ag"
  shows "set alerts = flush_copy A now ` ran (as_alerts (ag_alerts ag))
    \<and> (\<forall>a \<in> set alerts. \<forall>t \<ge> now. ResolvedAt A a t \<longleftrightarrow> a \<in> set resolved)
    \<and> (\<forall>fp a'. as_alerts (ag_alerts ag1) fp = Some a' \<longrightarrow> as_alerts (ag_alerts ag2) fp = Some a'
         \<or> ok \<and> as_alerts (ag_alerts ag2) fp = None \<and> (\<exists>a \<in> set resolved. Fingerprint A a = fp \<and> al_updatedAt a = al_updatedAt a' \<and> a \<in> set alerts))
    \<and> (ag_destroyed ag2 \<longrightarrow> as_alerts (ag_alerts ag2) = Map.empty \<and> (\<forall>t a. ag_insert A t a ag2 = (ag2, False)))"
proof (intro conjI)
  have l: "set (List_alerts visit (ag_alerts ag)) = ran (as_alerts (ag_alerts ag))"
    using assms(4) by (force simp: List_alerts_def List.map_filter_def ran_def)
  have al: "alerts = sort_Stable (AlertSlice_Less A) (map (flush_copy A now) (List_alerts visit (ag_alerts ag)))"
    and rs: "resolved = filter (\<lambda>a. ResolvedAt A a now) (List_alerts visit (ag_alerts ag))"
    using assms(2) by (auto simp: flush_slices_def)
  have ag2: "ag2 = (if ok then flush_end A resolved ag1 else ag1)"
    using assms(2,3,5,7) by (simp add: flush_def)
  show "set alerts = flush_copy A now ` ran (as_alerts (ag_alerts ag))" by (simp add: al l)
  have sub: "set resolved \<subseteq> set alerts" by (force simp: al rs flush_copy_def)
  show "\<forall>a \<in> set alerts. \<forall>t \<ge> now. ResolvedAt A a t \<longleftrightarrow> a \<in> set resolved"
    using assms(1) by (force simp: al rs l flush_copy_def std_resolved_def)
  show "\<forall>fp a'. as_alerts (ag_alerts ag1) fp = Some a' \<longrightarrow> as_alerts (ag_alerts ag2) fp = Some a'
         \<or> ok \<and> as_alerts (ag_alerts ag2) fp = None \<and> (\<exists>a \<in> set resolved. Fingerprint A a = fp \<and> al_updatedAt a = al_updatedAt a' \<and> a \<in> set alerts)"
  proof (intro allI impI)
    fix fp a' assume a': "as_alerts (ag_alerts ag1) fp = Some a'"
    let ?m = "fold (delete_if_same A) resolved (as_alerts (ag_alerts ag1))"
    have m: "as_alerts (ag_alerts ag2) = ?m" if ok using that by (simp add: ag2 DeleteIfNotModified_def Let_def)
    show "as_alerts (ag_alerts ag2) fp = Some a'
         \<or> ok \<and> as_alerts (ag_alerts ag2) fp = None \<and> (\<exists>a \<in> set resolved. Fingerprint A a = fp \<and> al_updatedAt a = al_updatedAt a' \<and> a \<in> set alerts)"
    proof (cases ok)
      case True
      then show ?thesis using delete_reason [where m = "as_alerts (ag_alerts ag1)" and fp = fp and as = resolved and A = A, OF a'] delete_subset [of A resolved "as_alerts (ag_alerts ag1)" fp] a' sub m [OF True] by (cases "?m fp") auto
    qed (use a' in \<open>simp add: ag2\<close>)
  qed
  show "ag_destroyed ag2 \<longrightarrow> as_alerts (ag_alerts ag2) = Map.empty \<and> (\<forall>t a. ag_insert A t a ag2 = (ag2, False))"
    using assms(6) by (auto simp: ag2 ag_destroyed_def Destroyed_def DeleteIfNotModified_destroyed ag_insert_destroyed)
qed


section \<open>An example\<close>

definition sample_group :: aggr_group where
  "sample_group = (the (newAggrGroup sample_quote sample_root [0] Map.empty 0 None))\<lparr>ag_alerts := NewAlerts\<lparr>as_alerts := [342 \<mapsto> crit 3 20, 442 \<mapsto> crit 4 100]\<rparr>\<rparr>"

definition refire :: "alert list \<Rightarrow> aggr_group \<Rightarrow> aggr_group \<times> bool" where
  "refire as g = (fst (ag_insert inh_env 31 ((crit 3 200)\<lparr>al_updatedAt := 5\<rparr>) g), True)"

lemma refire_alerts: "ag_alerts (fst (refire as sample_group)) = NewAlerts\<lparr>as_alerts := [342 \<mapsto> (crit 3 200)\<lparr>al_updatedAt := 5\<rparr>, 442 \<mapsto> crit 4 100]\<rparr>"
proof -
  have "Fingerprint inh_env ((crit 3 200)\<lparr>al_updatedAt := 5\<rparr>) = 342" using inh_simps(1) [of 3 200] by simp
  moreover have "ag_alerts sample_group = NewAlerts\<lparr>as_alerts := [342 \<mapsto> crit 3 20, 442 \<mapsto> crit 4 100]\<rparr>" by (simp add: sample_group_def)
  moreover have "store_wf inh_env (ag_alerts sample_group)" by (simp add: sample_group_def store_wf_def NewAlerts_def)
  ultimately show ?thesis by (simp add: refire_def ag_insert_eq invalidateRouteLabels_def NewAlerts_def fun_upd_twist)
qed

theorem flush_loses_nothing_witness:
  "as_alerts (ag_alerts (flush inh_env 30 [342, 442] refire sample_group)) 342 = Some ((crit 3 200)\<lparr>al_updatedAt := 5\<rparr>)"
proof -
  let ?sl = "flush_slices inh_env 30 (List_alerts [342, 442] (ag_alerts sample_group))"
  let ?r = "refire (fst ?sl) sample_group"
  have s: "ag_alerts sample_group = NewAlerts\<lparr>as_alerts := [342 \<mapsto> crit 3 20, 442 \<mapsto> crit 4 100]\<rparr>" by (simp add: sample_group_def)
  have r: "refire (fst ?sl) sample_group = (fst ?r, True)" by (simp add: refire_def)
  have old: "snd ?sl = [crit 3 20]" by (simp add: s NewAlerts_def flush_slices_def List_alerts_def List.map_filter_def zero_time_def)
  have u: "al_updatedAt (crit 3 20) = 0" by (simp add: crit_def sample_alert_def)
  have g: "as_alerts (ag_alerts (fst ?r)) 342 = Some ((crit 3 200)\<lparr>al_updatedAt := 5\<rparr>)" "\<not> ag_destroyed (fst ?r)"
    unfolding refire_alerts ag_destroyed_def Destroyed_def by (simp_all add: NewAlerts_def)
  have d: "set [342, 442] = dom (as_alerts (ag_alerts sample_group))" "\<not> ag_empty sample_group"
    unfolding ag_empty_def Empty_store_def s by (auto simp: NewAlerts_def)
  note t = flush_loses_nothing [where notify = refire, OF inh_std prod.collapse [symmetric, of ?sl] r d g(2) refl, unfolded old]
  show ?thesis using conjunct1 [OF conjunct2 [OF conjunct2 [OF t]], rule_format, OF g(1)] by (simp add: u)
qed

end
