(* ===== verification/Dispatch.thy ===== *)
theory Dispatch
  imports Aggr_Group
begin

text \<open>
  The dispatcher, \<^verbatim>\<open>dispatch/dispatch.go\<close>: routing of alerts into aggregation groups by several goroutines
  at once, the goroutine of every group, the maintenance that removes destroyed groups, and the timer
  that starts the groups after the delay at startup.

  Each goroutine is a program counter with its local variables; one step of it is one access to what the
  goroutines share (an operation of a \<^verbatim>\<open>sync.Map\<close>, of an atomic counter, or of the store of a group, which
  has its own lock). Groups live in a heap, and a pointer to a group is its position there. A range over
  a \<^verbatim>\<open>sync.Map\<close> visits, in any order, the keys present when it starts, with the value they have
  at the visit. Whether the notification pipeline succeeds is a choice of the step that ends a flush.
\<close>

section \<open>State\<close>

datatype disp_status = DispatcherStateUnknown | DispatcherStateWaitingToStart | DispatcherStateRunning | DispatcherStateStopped

datatype run_pc = NotStarted | Waiting | Flushing "alert list" | Exited

type_synonym group_ref = nat
type_synonym group_slot = "nat \<times> fingerprint"

record disp_conf =
  dc_env :: alert_env
  dc_root :: route
  dc_quote :: "string \<Rightarrow> string"
  dc_lstr :: "labelset \<Rightarrow> string"
  dc_limit :: int

record disp_state =
  d_status :: disp_status
  d_groups :: "group_slot \<rightharpoonup> group_ref"
  d_groupsLen :: "nat \<Rightarrow> int"
  d_num :: int
  d_heap :: "aggr_group list"
  d_run :: "group_ref \<Rightarrow> run_pc"
  d_gmarker :: group_marker
  d_ctxDone :: bool

text \<open>The state in which \<^verbatim>\<open>Run\<close> starts to route: waiting for the start time, with no groups.\<close>

definition disp_Run :: disp_state where
  "disp_Run = \<lparr>d_status = DispatcherStateWaitingToStart, d_groups = Map.empty, d_groupsLen = (\<lambda>_. 0), d_num = 0, d_heap = [],
     d_run = (\<lambda>_. NotStarted), d_gmarker = Map.empty, d_ctxDone = False\<rparr>"

abbreviation group :: "disp_state \<Rightarrow> group_ref \<Rightarrow> aggr_group" where
  "group d g \<equiv> d_heap d ! g"

definition set_group :: "group_ref \<Rightarrow> aggr_group \<Rightarrow> disp_state \<Rightarrow> disp_state" where
  "set_group g ag d = d\<lparr>d_heap := (d_heap d)[g := ag]\<rparr>"

section \<open>Routing an alert\<close>

record call =
  ca_alert :: alert
  ca_route :: route_ptr
  ca_now :: time

definition routeAlert :: "disp_conf \<Rightarrow> time \<Rightarrow> alert \<Rightarrow> call list" where
  "routeAlert C now a = map (\<lambda>p. \<lparr>ca_alert = a, ca_route = p, ca_now = now\<rparr>) (Match (al_labels a) [] (dc_root C))"

definition call_opts :: "disp_conf \<Rightarrow> call \<Rightarrow> route_opts" where
  "call_opts C c = rt_RouteOpts (the (deref (dc_root C) (ca_route c)))"

definition call_labels :: "disp_conf \<Rightarrow> call \<Rightarrow> labelset" where
  "call_labels C c = getGroupLabels (ca_alert c) (call_opts C c)"

definition call_slot :: "disp_conf \<Rightarrow> call \<Rightarrow> group_slot" where
  "call_slot C c = (rt_Idx (the (deref (dc_root C) (ca_route c))), ae_fp (dc_env C) (call_labels C c))"

text \<open>The places in \<^verbatim>\<open>groupAlert\<close> between two accesses to shared state.\<close>

datatype pc = Idle
  | AtInsert call group_ref
  | AtLimit call "group_ref option"
  | AtStore call group_ref "group_ref option" nat
  | AtInsertExisting call group_ref group_ref nat
  | AtCancel call group_ref group_ref
  | AtLen call group_ref
  | AtNum call group_ref
  | AtTimer call group_ref
  | AtState call group_ref
  | AtRun call group_ref

definition groupAlert_start :: "disp_conf \<Rightarrow> disp_state \<Rightarrow> call \<Rightarrow> pc" where
  "groupAlert_start C d c = (case d_groups d (call_slot C c) of Some el \<Rightarrow> AtInsert c el | None \<Rightarrow> AtLimit c None)"

definition runAG :: "group_ref \<Rightarrow> disp_state \<Rightarrow> disp_state" where
  "runAG g d = (if ag_running (group d g) then d
     else (set_group g ((group d g)\<lparr>ag_running := True\<rparr>) d)\<lparr>d_run := (d_run d)(g := Waiting)\<rparr>)"

definition retry_or_give_up :: "nat \<Rightarrow> (nat \<Rightarrow> pc) \<Rightarrow> pc" where
  "retry_or_give_up retries again = (if 100 < retries + 1 then Idle else again (retries + 1))"

fun groupAlert_step :: "disp_conf \<Rightarrow> time \<Rightarrow> string option \<Rightarrow> disp_state \<Rightarrow> pc \<Rightarrow> disp_state \<times> pc" where
  "groupAlert_step C now uid d Idle = (d, Idle)"
| "groupAlert_step C now uid d (AtInsert c el) =
     (let (ag, ok) = ag_insert (dc_env C) now (ca_alert c) (group d el)
      in (set_group el ag d, if ok then Idle else AtLimit c (Some el)))"
| "groupAlert_step C now uid d (AtLimit c loaded) =
     (if 0 < dc_limit C \<and> dc_limit C \<le> d_num d then (d, Idle)
      else (case newAggrGroup (dc_quote C) (dc_root C) (ca_route c) (call_labels C c) now uid of
          None \<Rightarrow> (d, Idle)
        | Some ag \<Rightarrow> (d\<lparr>d_heap := d_heap d @ [fst (ag_insert (dc_env C) now (ca_alert c) ag)]\<rparr>, AtStore c (length (d_heap d)) loaded 0)))"
| "groupAlert_step C now uid d (AtStore c new (Some el) retries) =
     (if d_groups d (call_slot C c) = Some el then (d\<lparr>d_groups := (d_groups d)(call_slot C c \<mapsto> new)\<rparr>, AtCancel c new el)
      else (d, retry_or_give_up retries (AtStore c new None)))"
| "groupAlert_step C now uid d (AtStore c new None retries) =
     (case d_groups d (call_slot C c) of
        None \<Rightarrow> (d\<lparr>d_groups := (d_groups d)(call_slot C c \<mapsto> new)\<rparr>, AtLen c new)
      | Some el \<Rightarrow> (d, AtInsertExisting c new el retries))"
| "groupAlert_step C now uid d (AtInsertExisting c new el retries) =
     (let (ag, ok) = ag_insert (dc_env C) now (ca_alert c) (group d el)
      in (set_group el ag d, if ok then Idle else retry_or_give_up retries (AtStore c new (Some el))))"
| "groupAlert_step C now uid d (AtCancel c new old) = (set_group old ((group d old)\<lparr>ag_cancelled := True\<rparr>) d, AtTimer c new)"
| "groupAlert_step C now uid d (AtLen c new) =
     (let i = fst (call_slot C c) in (d\<lparr>d_groupsLen := (d_groupsLen d)(i := d_groupsLen d i + 1)\<rparr>, AtNum c new))"
| "groupAlert_step C now uid d (AtNum c new) = (d\<lparr>d_num := d_num d + 1\<rparr>, AtTimer c new)"
| "groupAlert_step C now uid d (AtTimer c new) =
     ((if before (al_startsAt (ca_alert c) + ro_GroupWait (ag_opts (group d new))) (ca_now c)
       then set_group new (resetTimer now 0 (group d new)) d else d), AtState c new)"
| "groupAlert_step C now uid d (AtState c new) = (d, case d_status d of DispatcherStateRunning \<Rightarrow> AtRun c new | _ \<Rightarrow> Idle)"
| "groupAlert_step C now uid d (AtRun c new) = (runAG new d, Idle)"

section \<open>The goroutine of a group\<close>

text \<open>A round of \<^verbatim>\<open>run\<close> up to the call of the pipeline, and from its return on.\<close>

definition run_exit :: "group_ref \<Rightarrow> disp_state \<Rightarrow> disp_state" where
  "run_exit g d = (set_group g ((group d g)\<lparr>ag_done := True\<rparr>) d)\<lparr>d_run := (d_run d)(g := Exited)\<rparr>"

definition run_begin :: "disp_conf \<Rightarrow> time \<Rightarrow> time \<Rightarrow> fingerprint list \<Rightarrow> group_ref \<Rightarrow> disp_state \<Rightarrow> disp_state" where
  "run_begin C now' now'' visit g d =
     (let ag = group d g;
          ag1 = resetTimer now' (ro_GroupInterval (ag_opts ag)) (ag\<lparr>ag_flushIdx := ag_flushIdx ag + 1\<rparr>);
          d1 = set_group g ag1 d
      in if ag_empty ag1 then (if ag_destroyed ag1 then run_exit g d1 else d1)
         else d1\<lparr>d_run := (d_run d)(g := Flushing (snd (flush_slices (dc_env C) now'' (List_alerts visit (ag_alerts ag1)))))\<rparr>)"

definition run_end :: "disp_conf \<Rightarrow> bool \<Rightarrow> alert list \<Rightarrow> group_ref \<Rightarrow> disp_state \<Rightarrow> disp_state" where
  "run_end C ok resolved g d =
     (let d1 = (if ok then set_group g (flush_end (dc_env C) resolved (group d g)) d else d)
      in if ag_destroyed (group d1 g) then run_exit g d1 else d1\<lparr>d_run := (d_run d)(g := Waiting)\<rparr>)"

section \<open>Maintenance and start\<close>

datatype mpc = MIdle | MCheck group_slot group_ref | MStop group_slot group_ref | MDelete group_slot group_ref
  | MMark group_slot group_ref | MLen group_slot group_ref | MNum group_slot group_ref

fun doMaintenance_step :: "disp_conf \<Rightarrow> disp_state \<Rightarrow> mpc \<Rightarrow> disp_state \<times> mpc" where
  "doMaintenance_step C d MIdle = (d, MIdle)"
| "doMaintenance_step C d (MCheck k g) =
     (if ag_destroyed (group d g) then (set_group g (ag_stop (group d g)) d, MStop k g) else (d, MIdle))"
| "doMaintenance_step C d (MStop k g) = (d, if ag_done (group d g) then MDelete k g else MStop k g)"
| "doMaintenance_step C d (MDelete k g) =
     (let k' = (fst k, ae_fp (dc_env C) (ag_labels (group d g)))
      in if d_groups d k' = Some g then (d\<lparr>d_groups := (d_groups d)(k' := None)\<rparr>, MMark k g) else (d, MIdle))"
| "doMaintenance_step C d (MMark k g) =
     (d\<lparr>d_gmarker := DeleteByGroupKey (ag_routeID (group d g)) (GroupKey (dc_lstr C) (group d g)) (d_gmarker d)\<rparr>, MLen k g)"
| "doMaintenance_step C d (MLen k g) = (d\<lparr>d_groupsLen := (d_groupsLen d)(fst k := d_groupsLen d (fst k) - 1)\<rparr>, MNum k g)"
| "doMaintenance_step C d (MNum k g) = (d\<lparr>d_num := d_num d - 1\<rparr>, MIdle)"

datatype tpc = TWait | TRange "group_slot set" | TDone

definition start_timer :: "disp_state \<Rightarrow> disp_state \<times> tpc" where
  "start_timer d = (if d_status d = DispatcherStateWaitingToStart
     then (d\<lparr>d_status := DispatcherStateRunning\<rparr>, TRange (dom (d_groups d))) else (d, TDone))"

definition disp_Stop :: "disp_state \<Rightarrow> disp_state" where
  "disp_Stop d = d\<lparr>d_status := DispatcherStateStopped, d_ctxDone := True\<rparr>"

section \<open>The running dispatcher\<close>

record disp_sys =
  y_disp :: disp_state
  y_workers :: "(call list \<times> pc) list"
  y_maint :: mpc
  y_timer :: tpc

inductive disp_step :: "disp_conf \<Rightarrow> disp_sys \<Rightarrow> disp_sys \<Rightarrow> bool" for C where
  receive: "\<lbrakk>i < length (y_workers y); y_workers y ! i = ([], Idle)\<rbrakk> \<Longrightarrow>
    disp_step C y (y\<lparr>y_workers := (y_workers y)[i := (routeAlert C now a, Idle)]\<rparr>)"
| begin_call: "\<lbrakk>i < length (y_workers y); y_workers y ! i = (c # cs, Idle)\<rbrakk> \<Longrightarrow>
    disp_step C y (y\<lparr>y_workers := (y_workers y)[i := (cs, groupAlert_start C (y_disp y) c)]\<rparr>)"
| work: "\<lbrakk>i < length (y_workers y); y_workers y ! i = (cs, pc); pc \<noteq> Idle; groupAlert_step C now uid (y_disp y) pc = (d, pc')\<rbrakk> \<Longrightarrow>
    disp_step C y (y\<lparr>y_disp := d, y_workers := (y_workers y)[i := (cs, pc')]\<rparr>)"
| tick: "\<lbrakk>d_run (y_disp y) g = Waiting; set visit = dom (as_alerts (ag_alerts (group (y_disp y) g)))\<rbrakk> \<Longrightarrow>
    disp_step C y (y\<lparr>y_disp := run_begin C now' now'' visit g (y_disp y)\<rparr>)"
| flushed: "d_run (y_disp y) g = Flushing resolved \<Longrightarrow> disp_step C y (y\<lparr>y_disp := run_end C ok resolved g (y_disp y)\<rparr>)"
| canceled: "\<lbrakk>d_run (y_disp y) g = Waiting; ag_cancelled (group (y_disp y) g) \<or> d_ctxDone (y_disp y)\<rbrakk> \<Longrightarrow>
    disp_step C y (y\<lparr>y_disp := run_exit g (y_disp y)\<rparr>)"
| maint_visit: "\<lbrakk>y_maint y = MIdle; d_groups (y_disp y) k = Some g\<rbrakk> \<Longrightarrow> disp_step C y (y\<lparr>y_maint := MCheck k g\<rparr>)"
| maint: "doMaintenance_step C (y_disp y) (y_maint y) = (d, m) \<Longrightarrow> disp_step C y (y\<lparr>y_disp := d, y_maint := m\<rparr>)"
| timer_start: "\<lbrakk>y_timer y = TWait; start_timer (y_disp y) = (d, t)\<rbrakk> \<Longrightarrow> disp_step C y (y\<lparr>y_disp := d, y_timer := t\<rparr>)"
| timer_visit: "\<lbrakk>y_timer y = TRange K; k \<in> K\<rbrakk> \<Longrightarrow>
    disp_step C y (y\<lparr>y_disp := (case d_groups (y_disp y) k of Some g \<Rightarrow> runAG g (y_disp y) | None \<Rightarrow> y_disp y), y_timer := TRange (K - {k})\<rparr>)"
| timer_end: "y_timer y = TRange {} \<Longrightarrow> disp_step C y (y\<lparr>y_timer := TDone\<rparr>)"
| stop: "disp_step C y (y\<lparr>y_disp := disp_Stop (y_disp y)\<rparr>)"

definition disp_init :: "nat \<Rightarrow> disp_sys" where
  "disp_init n = \<lparr>y_disp = disp_Run, y_workers = replicate n ([], Idle), y_maint = MIdle, y_timer = TWait\<rparr>"

definition disp_reachable :: "disp_conf \<Rightarrow> nat \<Rightarrow> disp_sys \<Rightarrow> bool" where
  "disp_reachable C n y \<longleftrightarrow> (disp_step C)\<^sup>*\<^sup>* (disp_init n) y"

end
