(* ===== verification/Dispatch_Correct.thy ===== *)
theory Dispatch_Correct
  imports Dispatch
begin

text \<open>
  Correctness of the dispatcher under every interleaving of its goroutines: the invariant of the running
  system, and from it that a group leaves the table only when it is destroyed and empty, that every
  alert ends up in a group of the table, that every group runs once the dispatcher has started, that
  the counters count the groups, how far the limit can be exceeded, and that routing an alert ends.
\<close>

declare split_paired_All [simp del] split_paired_Ex [simp del]

section \<open>The invariant\<close>

abbreviation gone :: "disp_state \<Rightarrow> group_ref \<Rightarrow> bool" where
  "gone d g \<equiv> ag_destroyed (group d g)"

definition heap_ok :: "disp_conf \<Rightarrow> disp_state \<Rightarrow> bool" where
  "heap_ok C d \<longleftrightarrow> (\<forall>g. length (d_heap d) \<le> g \<longrightarrow> d_run d g = NotStarted) \<and>
     (\<forall>g < length (d_heap d). store_wf (dc_env C) (ag_alerts (group d g))
        \<and> (gone d g \<longrightarrow> as_alerts (ag_alerts (group d g)) = Map.empty \<and> ag_running (group d g))
        \<and> (ag_running (group d g) \<longleftrightarrow> d_run d g \<noteq> NotStarted)
        \<and> (ag_cancelled (group d g) \<longrightarrow> gone d g)
        \<and> (d_run d g = Exited \<longrightarrow> gone d g \<or> d_ctxDone d))"

definition slots_ok :: "disp_conf \<Rightarrow> disp_state \<Rightarrow> bool" where
  "slots_ok C d \<longleftrightarrow> (\<forall>k g. d_groups d k = Some g \<longrightarrow> g < length (d_heap d) \<and> snd k = ae_fp (dc_env C) (ag_labels (group d g)))"

definition fresh_group :: "disp_conf \<Rightarrow> disp_state \<Rightarrow> call \<Rightarrow> group_ref \<Rightarrow> bool" where
  "fresh_group C d c g \<longleftrightarrow> g < length (d_heap d) \<and> g \<notin> ran (d_groups d) \<and> \<not> ag_running (group d g) \<and> \<not> gone d g
     \<and> ag_labels (group d g) = call_labels C c
     \<and> as_alerts (ag_alerts (group d g)) (Fingerprint (dc_env C) (ca_alert c)) = Some (ca_alert c)"

definition found :: "disp_conf \<Rightarrow> disp_state \<Rightarrow> call \<Rightarrow> group_ref \<Rightarrow> bool" where
  "found C d c el \<longleftrightarrow> el < length (d_heap d) \<and> (gone d el \<or> d_groups d (call_slot C c) = Some el)"

fun pc_ok :: "disp_conf \<Rightarrow> disp_state \<Rightarrow> pc \<Rightarrow> bool" where
  "pc_ok C d Idle = True"
| "pc_ok C d (AtInsert c el) = found C d c el"
| "pc_ok C d (AtLimit c e) = (\<forall>el. e = Some el \<longrightarrow> el < length (d_heap d) \<and> gone d el)"
| "pc_ok C d (AtStore c new e n) = (fresh_group C d c new \<and> n \<le> 100 \<and> (\<forall>el. e = Some el \<longrightarrow> el < length (d_heap d) \<and> gone d el))"
| "pc_ok C d (AtInsertExisting c new el n) = (fresh_group C d c new \<and> n \<le> 100 \<and> found C d c el)"
| "pc_ok C d (AtCancel c new old) = (new < length (d_heap d) \<and> old < length (d_heap d) \<and> gone d old)"
| "pc_ok C d (AtLen c new) = (new < length (d_heap d))"
| "pc_ok C d (AtNum c new) = (new < length (d_heap d))"
| "pc_ok C d (AtTimer c new) = (new < length (d_heap d))"
| "pc_ok C d (AtState c new) = (new < length (d_heap d))"
| "pc_ok C d (AtRun c new) = (new < length (d_heap d))"

text \<open>The group a goroutine has created, and whether it has stored it yet.\<close>

fun owned :: "pc \<Rightarrow> group_ref option" where
  "owned (AtStore c new e n) = Some new"
| "owned (AtInsertExisting c new el n) = Some new"
| "owned (AtCancel c new old) = Some new"
| "owned (AtLen c new) = Some new"
| "owned (AtNum c new) = Some new"
| "owned (AtTimer c new) = Some new"
| "owned (AtState c new) = Some new"
| "owned (AtRun c new) = Some new"
| "owned _ = None"

fun unstored :: "pc \<Rightarrow> bool" where
  "unstored (AtStore c new e n) = True"
| "unstored (AtInsertExisting c new el n) = True"
| "unstored _ = False"

fun uncounted :: "pc \<Rightarrow> bool" where
  "uncounted (AtLen c new) = True"
| "uncounted (AtNum c new) = True"
| "uncounted _ = False"

definition workers_ok :: "disp_conf \<Rightarrow> disp_state \<Rightarrow> pc list \<Rightarrow> bool" where
  "workers_ok C d pcs \<longleftrightarrow> (\<forall>p \<in> set pcs. pc_ok C d p)
     \<and> (\<forall>i < length pcs. \<forall>j < length pcs. i \<noteq> j \<longrightarrow> owned (pcs ! i) \<noteq> None \<longrightarrow> owned (pcs ! i) \<noteq> owned (pcs ! j))"

fun maint_ok :: "disp_conf \<Rightarrow> disp_state \<Rightarrow> mpc \<Rightarrow> bool" where
  "maint_ok C d (MCheck k g) = (g < length (d_heap d) \<and> snd k = ae_fp (dc_env C) (ag_labels (group d g)))"
| "maint_ok C d (MStop k g) = (g < length (d_heap d) \<and> snd k = ae_fp (dc_env C) (ag_labels (group d g)) \<and> gone d g)"
| "maint_ok C d (MDelete k g) = (g < length (d_heap d) \<and> snd k = ae_fp (dc_env C) (ag_labels (group d g)) \<and> gone d g)"
| "maint_ok C d _ = True"

definition start_ok :: "disp_state \<Rightarrow> pc list \<Rightarrow> tpc \<Rightarrow> bool" where
  "start_ok d pcs t \<longleftrightarrow> (t = TWait \<longrightarrow> d_status d \<noteq> DispatcherStateRunning) \<and>
     (d_status d = DispatcherStateRunning \<longrightarrow> (\<forall>k g. d_groups d k = Some g \<longrightarrow>
        ag_running (group d g) \<or> (\<exists>p \<in> set pcs. owned p = Some g \<and> \<not> unstored p) \<or> (\<exists>K. t = TRange K \<and> k \<in> K)))"

section \<open>How the state may change\<close>

text \<open>What every step keeps: groups are not forgotten, their labels stay, a destroyed group stays so, and an entry
  of the table changes only if its group is destroyed.\<close>

definition ext :: "disp_state \<Rightarrow> disp_state \<Rightarrow> bool" where
  "ext d d' \<longleftrightarrow> length (d_heap d) \<le> length (d_heap d')
     \<and> (\<forall>g < length (d_heap d). ag_labels (group d' g) = ag_labels (group d g) \<and> (gone d g \<longrightarrow> gone d' g)
          \<and> (ag_running (group d g) \<longrightarrow> ag_running (group d' g)))
     \<and> (\<forall>k g. d_groups d k = Some g \<longrightarrow> g < length (d_heap d) \<longrightarrow> d_groups d' k = Some g \<or> gone d g)"

lemma set_group_simps [simp]:
  "d_groups (set_group g ag d) = d_groups d" "d_num (set_group g ag d) = d_num d" "d_groupsLen (set_group g ag d) = d_groupsLen d"
  "d_status (set_group g ag d) = d_status d" "d_run (set_group g ag d) = d_run d" "d_ctxDone (set_group g ag d) = d_ctxDone d"
  "d_heap (set_group g ag d) = (d_heap d)[g := ag]"
  by (simp_all add: set_group_def)

lemma ext_refl [simp]: "ext d d"
  by (simp add: ext_def)

lemma ext_group:
  assumes "g < length (d_heap d)" "d_heap d' = (d_heap d)[g := ag]" "d_groups d' = d_groups d"
    and "ag_labels ag = ag_labels (group d g)" "gone d g \<Longrightarrow> ag_destroyed ag" "ag_running (group d g) \<Longrightarrow> ag_running ag"
  shows "ext d d'"
  using assms by (auto simp: ext_def nth_list_update)

lemma pc_ok_ext:
  assumes "pc_ok C d p" "ext d d'" "\<And>new. owned p = Some new \<Longrightarrow> unstored p \<Longrightarrow> group d' new = group d new \<and> new \<notin> ran (d_groups d')"
  shows "pc_ok C d' p"
proof -
  have fr: "fresh_group C d' c new" if "fresh_group C d c new" "owned p = Some new" "unstored p" for c new
    using that assms(2) assms(3) [OF that(2,3)] by (auto simp: fresh_group_def ext_def)
  have fo: "found C d' c el" if "found C d c el" for c el
    using that assms(2) unfolding found_def ext_def by (metis order_less_le_trans)
  have "gone d' el" "el < length (d_heap d')" if "gone d el" "el < length (d_heap d)" for el using that assms(2) by (auto simp: ext_def)
  then show ?thesis using assms(1,2) by (cases p) (auto simp: ext_def intro: fr fo)
qed


text \<open>A change of one group that keeps what the invariant says of it.\<close>

lemma heap_ok_group:
  assumes "heap_ok C d" "g < length (d_heap d)" "d_heap d' = (d_heap d)[g := ag]" "\<And>h. h \<noteq> g \<Longrightarrow> d_run d' h = d_run d h" "d_ctxDone d \<Longrightarrow> d_ctxDone d'"
    and "store_wf (dc_env C) (ag_alerts ag)" "ag_destroyed ag \<Longrightarrow> as_alerts (ag_alerts ag) = Map.empty \<and> ag_running ag"
    and "ag_running ag \<longleftrightarrow> d_run d' g \<noteq> NotStarted" "ag_cancelled ag \<Longrightarrow> ag_destroyed ag" "d_run d' g = Exited \<Longrightarrow> ag_destroyed ag \<or> d_ctxDone d'"
  shows "heap_ok C d'"
  unfolding heap_ok_def
proof (rule conjI; intro allI impI)
  fix h assume "length (d_heap d') \<le> h"
  then show "d_run d' h = NotStarted" using assms(1-4) by (cases "h = g") (auto simp: heap_ok_def)
next
  fix h assume h: "h < length (d_heap d')"
  show "store_wf (dc_env C) (ag_alerts (group d' h)) \<and> (gone d' h \<longrightarrow> as_alerts (ag_alerts (group d' h)) = Map.empty \<and> ag_running (group d' h))
      \<and> (ag_running (group d' h) \<longleftrightarrow> d_run d' h \<noteq> NotStarted) \<and> (ag_cancelled (group d' h) \<longrightarrow> gone d' h) \<and> (d_run d' h = Exited \<longrightarrow> gone d' h \<or> d_ctxDone d')"
    using h assms by (cases "h = g") (auto simp: heap_ok_def)
qed

lemma heap_ok_D:
  assumes "heap_ok C d" "g < length (d_heap d)"
  shows "store_wf (dc_env C) (ag_alerts (group d g))" "gone d g \<Longrightarrow> as_alerts (ag_alerts (group d g)) = Map.empty" "gone d g \<Longrightarrow> ag_running (group d g)"
    "ag_running (group d g) \<longleftrightarrow> d_run d g \<noteq> NotStarted" "ag_cancelled (group d g) \<Longrightarrow> gone d g" "d_run d g = Exited \<Longrightarrow> gone d g \<or> d_ctxDone d"
  using assms unfolding heap_ok_def by blast+

lemma heap_ok_frame:
  "heap_ok C d \<Longrightarrow> d_heap d' = d_heap d \<Longrightarrow> d_run d' = d_run d \<Longrightarrow> (d_ctxDone d \<Longrightarrow> d_ctxDone d') \<Longrightarrow> heap_ok C d'"
  unfolding heap_ok_def by auto

lemma slots_ok_ext:
  assumes "slots_ok C d" "d_groups d' = d_groups d" "ext d d'"
  shows "slots_ok C d'"
  using assms unfolding slots_ok_def ext_def by (metis order_less_le_trans)

text \<open>What a step of one goroutine leaves alone: the groups that others have created and not yet stored.\<close>

definition spares :: "disp_state \<Rightarrow> disp_state \<Rightarrow> group_ref option \<Rightarrow> bool" where
  "spares d d' own \<longleftrightarrow> (\<forall>new < length (d_heap d). new \<notin> ran (d_groups d) \<and> \<not> ag_running (group d new) \<and> own \<noteq> Some new \<longrightarrow>
     group d' new = group d new \<and> new \<notin> ran (d_groups d'))"

definition step_ok :: "disp_conf \<Rightarrow> disp_state \<Rightarrow> disp_state \<Rightarrow> group_ref option \<Rightarrow> bool" where
  "step_ok C d d' own \<longleftrightarrow> heap_ok C d' \<and> slots_ok C d' \<and> ext d d' \<and> spares d d' own"

lemma step_ok_group:
  assumes "heap_ok C d" "slots_ok C d" "g < length (d_heap d)" "d_heap d' = (d_heap d)[g := ag]" "d_groups d' = d_groups d"
    and "g \<in> ran (d_groups d) \<or> ag_running (group d g) \<or> own = Some g"
    and "\<And>h. h \<noteq> g \<Longrightarrow> d_run d' h = d_run d h" "d_ctxDone d \<Longrightarrow> d_ctxDone d'"
    and "ag_labels ag = ag_labels (group d g)" "gone d g \<Longrightarrow> ag_destroyed ag" "ag_running (group d g) \<Longrightarrow> ag_running ag"
    and "store_wf (dc_env C) (ag_alerts ag)" "ag_destroyed ag \<Longrightarrow> as_alerts (ag_alerts ag) = Map.empty \<and> ag_running ag"
    and "ag_running ag \<longleftrightarrow> d_run d' g \<noteq> NotStarted" "ag_cancelled ag \<Longrightarrow> ag_destroyed ag" "d_run d' g = Exited \<Longrightarrow> ag_destroyed ag \<or> d_ctxDone d'"
  shows "step_ok C d d' own"
proof -
  have e: "ext d d'" by (rule ext_group [OF assms(3-5,9-11)])
  have "heap_ok C d'" by (rule heap_ok_group [OF assms(1,3,4,7,8,12-16)])
  moreover have "spares d d' own" using assms(3-6) by (auto simp: spares_def nth_list_update)
  ultimately show ?thesis using slots_ok_ext [OF assms(2,5) e] e by (simp add: step_ok_def)
qed

lemma step_ok_refl: "heap_ok C d \<Longrightarrow> slots_ok C d \<Longrightarrow> step_ok C d d own"
  by (auto simp: step_ok_def spares_def)

lemma step_ok_frame:
  assumes "heap_ok C d" "slots_ok C d" "d_heap d' = d_heap d" "d_groups d' = d_groups d" "d_run d' = d_run d" "d_ctxDone d \<Longrightarrow> d_ctxDone d'"
  shows "step_ok C d d' own"
proof -
  have "ext d d'" using assms(3,4) by (auto simp: ext_def)
  then show ?thesis using heap_ok_frame [OF assms(1,3,5,6)] slots_ok_ext [OF assms(2,4)] assms(3,4) by (simp add: step_ok_def spares_def)
qed

lemma step_ok_insert:
  assumes "heap_ok C d" "slots_ok C d" "el < length (d_heap d)" "el \<in> ran (d_groups d) \<or> gone d el" "ag_insert (dc_env C) now a (group d el) = (ag, ok)"
  shows "step_ok C d (set_group el ag d) own" "ok \<longleftrightarrow> \<not> gone d el" "ok \<Longrightarrow> as_alerts (ag_alerts ag) (Fingerprint (dc_env C) a) = Some a"
proof -
  note h = heap_ok_D [OF assms(1,3)]
  have ag: "(ag, ok) = (if gone d el then (group d el, False)
      else (invalidateRouteLabels ((group d el)\<lparr>ag_alerts := (ag_alerts (group d el))\<lparr>as_alerts := (as_alerts (ag_alerts (group d el)))(Fingerprint (dc_env C) a \<mapsto> a)\<rparr>\<rparr>), True))"
    using assms(5) ag_insert_eq [OF h(1), of now a] by (simp add: ag_destroyed_def Destroyed_def)
  then show "ok \<longleftrightarrow> \<not> gone d el" by (auto split: if_splits)
  show "ok \<Longrightarrow> as_alerts (ag_alerts ag) (Fingerprint (dc_env C) a) = Some a" using ag by (auto simp: invalidateRouteLabels_def split: if_splits)
  have wf: "store_wf (dc_env C) (ag_alerts ag)" using ag_insert_wf [OF h(1), of now a] assms(5) by simp
  show "step_ok C d (set_group el ag d) own"
    by (rule step_ok_group [OF assms(1-3) set_group_simps(7)]) (use ag h wf assms(4) in \<open>auto simp: invalidateRouteLabels_def ag_destroyed_def Destroyed_def split: if_splits\<close>)
qed


lemma step_ok_alloc:
  assumes "heap_ok C d" "slots_ok C d" "store_wf (dc_env C) (ag_alerts ag)" "\<not> ag_destroyed ag" "\<not> ag_running ag" "\<not> ag_cancelled ag"
  shows "step_ok C d (d\<lparr>d_heap := d_heap d @ [ag]\<rparr>) own"
proof -
  have n: "d_run d (length (d_heap d)) = NotStarted" using assms(1) by (simp add: heap_ok_def)
  have "heap_ok C (d\<lparr>d_heap := d_heap d @ [ag]\<rparr>)"
    unfolding heap_ok_def
  proof (rule conjI; intro allI impI)
    fix h assume "h < length (d_heap (d\<lparr>d_heap := d_heap d @ [ag]\<rparr>))"
    then consider "h < length (d_heap d)" | "h = length (d_heap d)" by fastforce
    then show "store_wf (dc_env C) (ag_alerts (group (d\<lparr>d_heap := d_heap d @ [ag]\<rparr>) h)) \<and>
        (gone (d\<lparr>d_heap := d_heap d @ [ag]\<rparr>) h \<longrightarrow> as_alerts (ag_alerts (group (d\<lparr>d_heap := d_heap d @ [ag]\<rparr>) h)) = Map.empty \<and> ag_running (group (d\<lparr>d_heap := d_heap d @ [ag]\<rparr>) h)) \<and>
        (ag_running (group (d\<lparr>d_heap := d_heap d @ [ag]\<rparr>) h) \<longleftrightarrow> d_run (d\<lparr>d_heap := d_heap d @ [ag]\<rparr>) h \<noteq> NotStarted) \<and>
        (ag_cancelled (group (d\<lparr>d_heap := d_heap d @ [ag]\<rparr>) h) \<longrightarrow> gone (d\<lparr>d_heap := d_heap d @ [ag]\<rparr>) h) \<and>
        (d_run (d\<lparr>d_heap := d_heap d @ [ag]\<rparr>) h = Exited \<longrightarrow> gone (d\<lparr>d_heap := d_heap d @ [ag]\<rparr>) h \<or> d_ctxDone (d\<lparr>d_heap := d_heap d @ [ag]\<rparr>))"
      using heap_ok_D [OF assms(1), of h] assms(3-6) n by cases (auto simp: nth_append)
  qed (use assms(1) in \<open>auto simp: heap_ok_def\<close>)
  moreover have e: "ext d (d\<lparr>d_heap := d_heap d @ [ag]\<rparr>)" by (auto simp: ext_def nth_append)
  moreover have "slots_ok C (d\<lparr>d_heap := d_heap d @ [ag]\<rparr>)" using slots_ok_ext [OF assms(2) _ e] by simp
  ultimately show ?thesis by (auto simp: step_ok_def spares_def nth_append)
qed

lemma step_ok_publish:
  assumes "heap_ok C d" "slots_ok C d" "fresh_group C d c new" "\<And>el. d_groups d (call_slot C c) = Some el \<Longrightarrow> gone d el"
  shows "step_ok C d (d\<lparr>d_groups := (d_groups d)(call_slot C c \<mapsto> new)\<rparr>) (Some new)"
proof -
  let ?d = "d\<lparr>d_groups := (d_groups d)(call_slot C c \<mapsto> new)\<rparr>"
  have s: "snd (call_slot C c) = ae_fp (dc_env C) (ag_labels (group d new))" "new < length (d_heap d)"
    using assms(3) by (simp_all add: fresh_group_def call_slot_def)
  have "heap_ok C ?d" by (rule heap_ok_frame [OF assms(1)]) simp_all
  moreover have "slots_ok C ?d" using assms(2) s by (auto simp: slots_ok_def)
  moreover have "ext d ?d" using assms(4) unfolding ext_def by (auto simp del: split_paired_All)
  moreover have "spares d ?d (Some new)" by (auto simp: spares_def ran_def)
  ultimately show ?thesis by (simp add: step_ok_def)
qed

lemma step_ok_runAG:
  assumes "heap_ok C d" "slots_ok C d" "g < length (d_heap d)" "g \<in> ran (d_groups d) \<or> own = Some g"
  shows "step_ok C d (runAG g d) own"
proof (cases "ag_running (group d g)")
  case True
  then show ?thesis using step_ok_refl [OF assms(1,2)] by (simp add: runAG_def)
next
  case False
  note h = heap_ok_D [OF assms(1,3)]
  have "d_heap (runAG g d) = (d_heap d)[g := (group d g)\<lparr>ag_running := True\<rparr>]" using False by (simp add: runAG_def)
  then show ?thesis
    by (rule step_ok_group [OF assms(1-3)]) (use False h assms(4) in \<open>auto simp: runAG_def ag_destroyed_def\<close>)
qed


section \<open>Steps of the routing goroutines\<close>

lemma ag_insert_new:
  assumes "newAggrGroup quote root p labels now uid = Some ag"
  shows "ag_alerts (fst (ag_insert A now a ag)) = NewAlerts\<lparr>as_alerts := [Fingerprint A a \<mapsto> a]\<rparr>" "ag_labels (fst (ag_insert A now a ag)) = labels"
    "\<not> ag_running (fst (ag_insert A now a ag))" "\<not> ag_cancelled (fst (ag_insert A now a ag))"
  using assms by (auto simp: newAggrGroup_def ag_insert_def Set_alert_def Let_def invalidateRouteLabels_def NewAlerts_def split: option.splits)

lemma fresh_spared:
  assumes "fresh_group C d c new" "ext d d'" "spares d d' own" "own \<noteq> Some new"
  shows "fresh_group C d' c new"
  using assms by (auto simp: fresh_group_def ext_def spares_def)

lemma step_ok_gone: "step_ok C d d' own \<Longrightarrow> g < length (d_heap d) \<Longrightarrow> gone d g \<Longrightarrow> gone d' g"
  by (simp add: step_ok_def ext_def)

lemma groupAlert_step_ok:
  assumes "heap_ok C d" "slots_ok C d" "pc_ok C d pc" "groupAlert_step C now uid d pc = (d', pc')"
  shows "step_ok C d d' (owned pc) \<and> pc_ok C d' pc' \<and> (owned pc' = None \<or> owned pc' = owned pc \<or> owned pc = None \<and> owned pc' = Some (length (d_heap d)))"
proof (cases pc)
  case Idle
  then show ?thesis using assms step_ok_refl by auto
next
  case (AtInsert c el)
  obtain ag ok where i: "ag_insert (dc_env C) now (ca_alert c) (group d el) = (ag, ok)" by force
  have el: "el < length (d_heap d)" "el \<in> ran (d_groups d) \<or> gone d el" using assms(3) AtInsert by (auto simp: found_def ran_def)
  note s = step_ok_insert [OF assms(1,2) el i]
  have d': "d' = set_group el ag d" "pc' = (if ok then Idle else AtLimit c (Some el))" using assms(4) AtInsert i by (auto simp: Let_def)
  have "gone d' el" if "\<not> ok" using that s(2) step_ok_gone [OF s(1) el(1)] by (auto simp: d')
  then show ?thesis using s(1) el(1) AtInsert by (auto simp: d')
next
  case (AtLimit c loaded)
  show ?thesis
  proof (cases "0 < dc_limit C \<and> dc_limit C \<le> d_num d \<or> newAggrGroup (dc_quote C) (dc_root C) (ca_route c) (call_labels C c) now uid = None")
    case True
    then have "d' = d" "pc' = Idle" using assms(4) AtLimit by (auto split: if_splits)
    then show ?thesis using step_ok_refl [OF assms(1,2)] by simp
  next
    case False
    then obtain ag where ag: "newAggrGroup (dc_quote C) (dc_root C) (ca_route c) (call_labels C c) now uid = Some ag" by auto
    note n = ag_insert_new [OF ag, of "dc_env C" "ca_alert c"]
    let ?ag = "fst (ag_insert (dc_env C) now (ca_alert c) ag)"
    have d': "d' = d\<lparr>d_heap := d_heap d @ [?ag]\<rparr>" "pc' = AtStore c (length (d_heap d)) loaded 0" using assms(4) AtLimit ag False by auto
    have nd: "\<not> ag_destroyed ?ag" "store_wf (dc_env C) (ag_alerts ?ag)" by (simp_all add: n ag_destroyed_def Destroyed_def NewAlerts_def store_wf_def)
    have "length (d_heap d) \<notin> ran (d_groups d)" using assms(2) by (force simp: slots_ok_def ran_def)
    then have "fresh_group C d' c (length (d_heap d))" using nd by (simp add: fresh_group_def d' n)
    moreover have s: "step_ok C d d' None" unfolding d' by (rule step_ok_alloc [OF assms(1,2) nd(2,1) n(3,4)])
    ultimately show ?thesis using assms(3) AtLimit by (auto simp: d' nth_append)
  qed
next
  case (AtStore c new e n)
  note fresh = assms(3) [unfolded AtStore pc_ok.simps]
  show ?thesis
  proof (cases e)
    case None
    show ?thesis
    proof (cases "d_groups d (call_slot C c)")
      case empty: None
      then show ?thesis using step_ok_publish [OF assms(1,2), of c new] fresh assms(4) AtStore None by (auto simp: fresh_group_def)
    next
      case (Some el)
      then have "el < length (d_heap d)" using assms(2) by (simp add: slots_ok_def)
      then show ?thesis using assms(4) AtStore None Some fresh step_ok_refl [OF assms(1,2)] by (auto simp: found_def)
    qed
  next
    case (Some el)
    show ?thesis
    proof (cases "d_groups d (call_slot C c) = Some el")
      case True
      then show ?thesis using step_ok_publish [OF assms(1,2), of c new] fresh assms(4) AtStore Some by (auto simp: fresh_group_def)
    next
      case False
      then show ?thesis using assms(4) AtStore Some fresh step_ok_refl [OF assms(1,2)] by (auto simp: retry_or_give_up_def split: if_splits)
    qed
  qed
next
  case (AtInsertExisting c new el n)
  obtain ag ok where i: "ag_insert (dc_env C) now (ca_alert c) (group d el) = (ag, ok)" by force
  have f: "fresh_group C d c new" "n \<le> 100" using assms(3) AtInsertExisting by simp_all
  have el: "el < length (d_heap d)" "el \<in> ran (d_groups d) \<or> gone d el" using assms(3) AtInsertExisting by (auto simp: found_def ran_def)
  note s = step_ok_insert [OF assms(1,2) el i]
  have d': "d' = set_group el ag d" "pc' = (if ok then Idle else retry_or_give_up n (AtStore c new (Some el)))"
    using assms(4) AtInsertExisting i by (auto simp: Let_def)
  have "gone d' el" if "\<not> ok" using that s(2) step_ok_gone [OF s(1) el(1)] by (auto simp: d')
  moreover have "fresh_group C d' c new" using fresh_spared [OF f(1), of d' None] s(1) [of None] by (simp add: step_ok_def d')
  ultimately show ?thesis using s(1) el(1) AtInsertExisting f by (auto simp: d' retry_or_give_up_def)
next
  case (AtCancel c new old)
  then have d': "d' = set_group old ((group d old)\<lparr>ag_cancelled := True\<rparr>) d" "pc' = AtTimer c new" and o: "old < length (d_heap d)" "gone d old" "new < length (d_heap d)"
    using assms(3,4) by auto
  note h = heap_ok_D [OF assms(1) o(1)]
  have "step_ok C d d' (owned pc)" unfolding d'
    by (rule step_ok_group [OF assms(1,2) o(1) set_group_simps(7)]) (use h o in \<open>auto simp: ag_destroyed_def\<close>)
  then show ?thesis using AtCancel o by (simp add: d')
next
  case (AtTimer c new)
  then have n: "new < length (d_heap d)" using assms(3) by simp
  note h = heap_ok_D [OF assms(1) n]
  have "step_ok C d (set_group new (resetTimer now 0 (group d new)) d) (Some new)"
    by (rule step_ok_group [OF assms(1,2) n set_group_simps(7)]) (use h in \<open>auto simp: ag_destroyed_def resetTimer_def\<close>)
  then show ?thesis using AtTimer assms(4) n step_ok_refl [OF assms(1,2)] by (auto split: if_splits)
next
  case (AtRun c new)
  then show ?thesis using assms step_ok_runAG [OF assms(1,2), of new "Some new"] by auto
qed (use assms in \<open>auto simp: Let_def split: disp_status.splits intro!: step_ok_frame\<close>)


section \<open>Steps of the other goroutines\<close>

lemma started_group:
  assumes "heap_ok C d" "d_run d g \<noteq> NotStarted"
  shows "g < length (d_heap d)" "ag_running (group d g)"
proof -
  show g: "g < length (d_heap d)" using assms by (auto simp: heap_ok_def not_less [symmetric])
  show "ag_running (group d g)" using heap_ok_D(4) [OF assms(1) g] assms(2) by simp
qed

lemma run_begin_ok:
  assumes "heap_ok C d" "slots_ok C d" "d_run d g = Waiting"
  shows "step_ok C d (run_begin C now' now'' visit g d) own"
proof -
  have "d_run d g \<noteq> NotStarted" using assms(3) by simp
  note g = started_group [OF assms(1) this]
  note h = heap_ok_D [OF assms(1) g(1)]
  define ag1 where "ag1 = resetTimer now' (ro_GroupInterval (ag_opts (group d g))) ((group d g)\<lparr>ag_flushIdx := ag_flushIdx (group d g) + 1\<rparr>)"
  have f: "ag_alerts ag1 = ag_alerts (group d g)" "ag_labels ag1 = ag_labels (group d g)" "ag_running ag1" "ag_cancelled ag1 = ag_cancelled (group d g)"
    "ag_destroyed ag1 = gone d g" "ag_empty ag1 = ag_empty (group d g)"
    using g(2) by (simp_all add: ag1_def resetTimer_def ag_destroyed_def ag_empty_def)
  have eq: "run_begin C now' now'' visit g d = (if ag_empty ag1 then (if ag_destroyed ag1 then run_exit g (set_group g ag1 d) else set_group g ag1 d)
      else (set_group g ag1 d)\<lparr>d_run := (d_run d)(g := Flushing (snd (flush_slices (dc_env C) now'' (List_alerts visit (ag_alerts ag1)))))\<rparr>)"
    by (simp add: run_begin_def ag1_def Let_def)
  consider (exit) "ag_empty ag1" "ag_destroyed ag1" | (stay) "ag_empty ag1" "\<not> ag_destroyed ag1" | (flush) "\<not> ag_empty ag1" by blast
  then show ?thesis
  proof cases
    case exit
    have "d_heap (run_exit g (set_group g ag1 d)) = (d_heap d)[g := ag1\<lparr>ag_done := True\<rparr>]" using g by (simp add: run_exit_def)
    then have "step_ok C d (run_exit g (set_group g ag1 d)) own"
      by (rule step_ok_group [OF assms(1,2) g(1)]) (use h f g exit in \<open>auto simp: run_exit_def ag_destroyed_def\<close>)
    then show ?thesis using exit eq by simp
  next
    case stay
    have "step_ok C d (set_group g ag1 d) own"
      by (rule step_ok_group [OF assms(1,2) g(1) set_group_simps(7)]) (use h f g stay assms(3) in auto)
    then show ?thesis using stay eq by simp
  next
    case flush
    show ?thesis
      by (rule step_ok_group [OF assms(1,2) g(1), of _ ag1]) (use h f g flush eq in auto)
  qed
qed

lemma run_exit_ok:
  assumes "heap_ok C d" "slots_ok C d" "d_run d g \<noteq> NotStarted" "gone d g \<or> d_ctxDone d"
  shows "step_ok C d (run_exit g d) own"
proof -
  note g = started_group [OF assms(1,3)]
  note h = heap_ok_D [OF assms(1) g(1)]
  have "d_heap (run_exit g d) = (d_heap d)[g := (group d g)\<lparr>ag_done := True\<rparr>]" by (simp add: run_exit_def)
  then show ?thesis
    by (rule step_ok_group [OF assms(1,2) g(1)]) (use h g assms(4) in \<open>auto simp: run_exit_def ag_destroyed_def\<close>)
qed

lemma run_end_ok:
  assumes "heap_ok C d" "slots_ok C d" "d_run d g = Flushing resolved"
  shows "step_ok C d (run_end C ok resolved g d) own"
proof -
  have "d_run d g \<noteq> NotStarted" using assms(3) by simp
  note g = started_group [OF assms(1) this]
  note h = heap_ok_D [OF assms(1) g(1)]
  define ag1 where "ag1 = (if ok then flush_end (dc_env C) resolved (group d g) else group d g)"
  have f: "ag_labels ag1 = ag_labels (group d g)" "ag_running ag1" "ag_cancelled ag1 = ag_cancelled (group d g)" "store_wf (dc_env C) (ag_alerts ag1)"
    using g(2) h(1) flush_end_wf [OF h(1)] by (simp_all add: ag1_def del: flush_end_fields(1))
  have e: "fold (delete_if_same (dc_env C)) resolved Map.empty = Map.empty"
    by (intro ext) (use delete_subset [of "dc_env C" resolved Map.empty] in \<open>metis not_None_eq option.distinct(1)\<close>)
  have de: "gone d g \<Longrightarrow> ag_destroyed ag1" "ag_destroyed ag1 \<Longrightarrow> as_alerts (ag_alerts ag1) = Map.empty"
    using h(2) e by (auto simp: ag1_def ag_destroyed_def Destroyed_def DeleteIfNotModified_def Let_def split: if_splits)
  have heap: "(if ok then set_group g (flush_end (dc_env C) resolved (group d g)) d else d) = set_group g ag1 d"
    by (simp add: ag1_def set_group_def)
  have eq: "run_end C ok resolved g d = (if ag_destroyed ag1 then run_exit g (set_group g ag1 d) else (set_group g ag1 d)\<lparr>d_run := (d_run d)(g := Waiting)\<rparr>)"
    using g by (simp add: run_end_def heap Let_def)
  show ?thesis
  proof (cases "ag_destroyed ag1")
    case True
    have "d_heap (run_end C ok resolved g d) = (d_heap d)[g := ag1\<lparr>ag_done := True\<rparr>]" using g True by (simp add: eq run_exit_def)
    then show ?thesis
      by (rule step_ok_group [OF assms(1,2) g(1)]) (use h f g de True in \<open>auto simp: eq run_exit_def ag_destroyed_def\<close>)
  next
    case False
    show ?thesis by (rule step_ok_group [OF assms(1,2) g(1), of _ ag1]) (use h f g de False in \<open>auto simp: eq\<close>)
  qed
qed

lemma doMaintenance_step_ok:
  assumes "heap_ok C d" "slots_ok C d" "maint_ok C d m" "doMaintenance_step C d m = (d', m')"
  shows "step_ok C d d' None \<and> maint_ok C d' m'"
proof (cases m)
  case (MCheck k g)
  then have g: "g < length (d_heap d)" using assms(3) by simp
  note h = heap_ok_D [OF assms(1) g]
  show ?thesis
  proof (cases "gone d g")
    case True
    then have "step_ok C d (set_group g (ag_stop (group d g)) d) None"
      by (intro step_ok_group [OF assms(1,2) g set_group_simps(7)]) (use h in \<open>auto simp: ag_stop_def ag_destroyed_def\<close>)
    then show ?thesis using True MCheck assms(3,4) g by (auto simp: ag_stop_def ag_destroyed_def)
  next
    case False
    then show ?thesis using MCheck assms step_ok_refl by auto
  qed
next
  case (MDelete k g)
  then have g: "g < length (d_heap d)" "(fst k, ae_fp (dc_env C) (ag_labels (group d g))) = k" "gone d g" using assms(3) by (auto simp: prod_eq_iff)
  let ?d = "d\<lparr>d_groups := (d_groups d)(k := None)\<rparr>"
  have "ext d ?d" if "d_groups d k = Some g" using that g(3) by (auto simp: ext_def)
  moreover have "heap_ok C ?d" by (rule heap_ok_frame [OF assms(1)]) simp_all
  moreover have "slots_ok C ?d" using assms(2) by (auto simp: slots_ok_def)
  moreover have "spares d ?d None" by (auto simp: spares_def ran_def)
  ultimately show ?thesis using MDelete assms(4) g(2) step_ok_refl [OF assms(1,2)] by (auto simp: Let_def step_ok_def split: if_splits)
qed (use assms in \<open>auto intro!: step_ok_frame\<close>)


section \<open>The invariant holds in every reachable state\<close>

definition dinv :: "disp_conf \<Rightarrow> disp_sys \<Rightarrow> bool" where
  "dinv C y \<longleftrightarrow> heap_ok C (y_disp y) \<and> slots_ok C (y_disp y) \<and> workers_ok C (y_disp y) (map snd (y_workers y))
     \<and> maint_ok C (y_disp y) (y_maint y) \<and> start_ok (y_disp y) (map snd (y_workers y)) (y_timer y)"

lemma unstored_fresh: "pc_ok C d p \<Longrightarrow> owned p = Some new \<Longrightarrow> unstored p \<Longrightarrow> new < length (d_heap d) \<and> new \<notin> ran (d_groups d) \<and> \<not> ag_running (group d new)"
  by (cases p) (auto simp: fresh_group_def)

lemma owned_bound: "pc_ok C d p \<Longrightarrow> owned p = Some new \<Longrightarrow> new < length (d_heap d)"
  by (cases p) (auto simp: fresh_group_def)

lemma pc_ok_spared:
  assumes "pc_ok C d p" "step_ok C d d' own" "own = None \<or> own \<noteq> owned p"
  shows "pc_ok C d' p"
proof (rule pc_ok_ext [OF assms(1)])
  show "ext d d'" using assms(2) by (simp add: step_ok_def)
  show "group d' new = group d new \<and> new \<notin> ran (d_groups d')" if "owned p = Some new" "unstored p" for new
    using unstored_fresh [OF assms(1) that] assms(2,3) that(1) by (auto simp: step_ok_def spares_def)
qed

lemma workers_ok_spared: "workers_ok C d pcs \<Longrightarrow> step_ok C d d' None \<Longrightarrow> workers_ok C d' pcs"
  by (auto simp: workers_ok_def intro: pc_ok_spared)

lemma workers_ok_update:
  assumes "workers_ok C d pcs" "step_ok C d d' (owned (pcs ! i))" "i < length pcs" "pc_ok C d' p"
    and "owned p = None \<or> owned p = owned (pcs ! i) \<or> owned (pcs ! i) = None \<and> owned p = Some (length (d_heap d))"
  shows "workers_ok C d' (pcs[i := p])"
proof -
  have ok: "pc_ok C d (pcs ! j)" if "j < length pcs" for j using assms(1) that by (auto simp: workers_ok_def)
  have dist: "owned (pcs ! j) \<noteq> owned (pcs ! k)" if "j < length pcs" "k < length pcs" "j \<noteq> k" "owned (pcs ! j) \<noteq> None" for j k
    using assms(1) that by (auto simp: workers_ok_def)
  have other: "pc_ok C d' (pcs ! j)" if j: "j < length pcs" "j \<noteq> i" for j
    by (rule pc_ok_spared [OF ok [OF j(1)] assms(2)]) (use dist [OF assms(3) j(1)] j(2) in auto)
  have new: "owned p \<noteq> owned (pcs ! j)" if j: "j < length pcs" "j \<noteq> i" "owned p \<noteq> None \<or> owned (pcs ! j) \<noteq> None" for j
  proof
    assume eq: "owned p = owned (pcs ! j)"
    then have n: "owned (pcs ! j) \<noteq> None" using j(3) by auto
    from assms(5) eq n consider "owned (pcs ! j) = owned (pcs ! i)" | "owned (pcs ! j) = Some (length (d_heap d))" by argo
    then show False
      by cases (use dist [OF j(1) assms(3) j(2) n] in blast, use owned_bound [OF ok [OF j(1)], of "length (d_heap d)"] in simp)
  qed
  show ?thesis unfolding workers_ok_def
  proof (intro conjI ballI allI impI)
    fix q assume "q \<in> set (pcs[i := p])"
    then obtain j where "j < length pcs" "q = pcs[i := p] ! j" by (auto simp: in_set_conv_nth)
    then show "pc_ok C d' q" using assms(4) other by (cases "j = i") auto
  next
    fix j k assume jk: "j < length (pcs[i := p])" "k < length (pcs[i := p])" "j \<noteq> k" "owned (pcs[i := p] ! j) \<noteq> None"
    then show "owned (pcs[i := p] ! j) \<noteq> owned (pcs[i := p] ! k)"
      using dist [of j k] new [of k] new [of j] assms(3) by (cases "j = i"; cases "k = i") auto
  qed
qed

lemma maint_ok_ext: "maint_ok C d m \<Longrightarrow> ext d d' \<Longrightarrow> maint_ok C d' m"
  by (cases m) (auto simp: ext_def)

lemma start_ok_other:
  assumes "start_ok d pcs t" "ext d d'" "slots_ok C d" "d_status d' = d_status d" "\<And>k g. d_groups d' k = Some g \<Longrightarrow> d_groups d k = Some g"
  shows "start_ok d' pcs t"
proof -
  have "ag_running (group d' g)" if "ag_running (group d g)" "d_groups d k = Some g" for k g using that assms(2,3) by (auto simp: ext_def slots_ok_def)
  then show ?thesis using assms(1,4,5) unfolding start_ok_def by metis
qed

lemma start_ok_visited:
  assumes "start_ok d pcs (TRange K)" "\<And>g. d_groups d k = Some g \<Longrightarrow> ag_running (group d g)"
  shows "start_ok d pcs (TRange (K - {k}))"
  unfolding start_ok_def
proof (intro conjI allI impI)
  fix j g assume j: "d_status d = DispatcherStateRunning" "d_groups d j = Some g"
  then have "ag_running (group d g) \<or> (\<exists>p \<in> set pcs. owned p = Some g \<and> \<not> unstored p) \<or> j \<in> K" using assms(1) by (simp add: start_ok_def)
  then show "ag_running (group d g) \<or> (\<exists>p \<in> set pcs. owned p = Some g \<and> \<not> unstored p) \<or> (\<exists>K'. TRange (K - {k}) = TRange K' \<and> j \<in> K')"
    using assms(2) [of g] j(2) by (cases "j = k") auto
qed simp

lemma groupAlert_step_start:
  assumes "groupAlert_step C now uid d pc = (d', pc')" "pc_ok C d pc"
  shows "d_status d' = d_status d" "d_groups d' k = Some g \<Longrightarrow> d_groups d k = Some g \<or> owned pc' = Some g \<and> \<not> unstored pc'"
    "d_status d = DispatcherStateRunning \<Longrightarrow> owned pc = Some g \<Longrightarrow> \<not> unstored pc \<Longrightarrow> owned pc' = Some g \<and> \<not> unstored pc' \<or> ag_running (group d' g)"
proof -
  have run: "d_status (runAG h d) = d_status d" "d_groups (runAG h d) = d_groups d" "h < length (d_heap d) \<Longrightarrow> ag_running (group (runAG h d) h)" for h
    by (simp_all add: runAG_def)
  have both: "d_status d' = d_status d \<and> (d_groups d' k = Some g \<longrightarrow> d_groups d k = Some g \<or> owned pc' = Some g \<and> \<not> unstored pc')"
  proof (cases pc)
    case (AtStore c new e n)
    then show ?thesis using assms(1) by (cases e) (auto split: if_splits option.splits)
  qed (use assms(1) run in \<open>auto simp: Let_def split: if_splits option.splits prod.splits\<close>)
  then show "d_status d' = d_status d" "d_groups d' k = Some g \<Longrightarrow> d_groups d k = Some g \<or> owned pc' = Some g \<and> \<not> unstored pc'" by blast+
  show "d_status d = DispatcherStateRunning \<Longrightarrow> owned pc = Some g \<Longrightarrow> \<not> unstored pc \<Longrightarrow> owned pc' = Some g \<and> \<not> unstored pc' \<or> ag_running (group d' g)"
    using assms run by (cases pc) (auto simp: Let_def)
qed


lemma dinv_other:
  assumes "dinv C y" "step_ok C (y_disp y) d' None" "d_status d' = d_status (y_disp y)"
    and "\<And>k g. d_groups d' k = Some g \<Longrightarrow> d_groups (y_disp y) k = Some g"
  shows "dinv C (y\<lparr>y_disp := d'\<rparr>)"
  using assms(1,2) workers_ok_spared [OF _ assms(2)] maint_ok_ext start_ok_other [OF _ _ _ assms(3,4)] unfolding dinv_def step_ok_def by fastforce

lemma dinv_init: "dinv C (disp_init n)"
  by (auto simp: dinv_def disp_init_def disp_Run_def heap_ok_def slots_ok_def workers_ok_def start_ok_def)

lemma run_frame [simp]:
  "d_groups (run_exit g d) = d_groups d" "d_status (run_exit g d) = d_status d" "d_num (run_exit g d) = d_num d" "d_groupsLen (run_exit g d) = d_groupsLen d"
  "d_groups (run_begin C a b v g d) = d_groups d" "d_status (run_begin C a b v g d) = d_status d" "d_num (run_begin C a b v g d) = d_num d"
  "d_groupsLen (run_begin C a b v g d) = d_groupsLen d"
  "d_groups (run_end C ok r g d) = d_groups d" "d_status (run_end C ok r g d) = d_status d" "d_num (run_end C ok r g d) = d_num d"
  "d_groupsLen (run_end C ok r g d) = d_groupsLen d"
  "d_groups (runAG g d) = d_groups d" "d_status (runAG g d) = d_status d" "d_num (runAG g d) = d_num d" "d_groupsLen (runAG g d) = d_groupsLen d"
  by (simp_all add: run_exit_def run_begin_def run_end_def runAG_def Let_def)

lemma dinv_work:
  assumes "dinv C y" "i < length (y_workers y)" "y_workers y ! i = (cs, pc)" "groupAlert_step C now uid (y_disp y) pc = (d', pc')"
  shows "dinv C (y\<lparr>y_disp := d', y_workers := (y_workers y)[i := (cs', pc')]\<rparr>)"
proof -
  let ?d = "y_disp y" and ?pcs = "map snd (y_workers y)"
  have inv: "heap_ok C ?d" "slots_ok C ?d" "workers_ok C ?d ?pcs" "maint_ok C ?d (y_maint y)" "start_ok ?d ?pcs (y_timer y)" using assms(1) by (simp_all add: dinv_def)
  have pi: "?pcs ! i = pc" "i < length ?pcs" using assms(2,3) by simp_all
  then have ok: "pc_ok C ?d pc" using inv(3) unfolding workers_ok_def by (metis nth_mem)
  note s = groupAlert_step_ok [OF inv(1,2) ok assms(4)]
  have st: "step_ok C ?d d' (owned (?pcs ! i))" using s by (simp add: pi)
  have w: "workers_ok C d' (?pcs[i := pc'])" by (rule workers_ok_update [OF inv(3) st pi(2)]) (use s in \<open>simp_all add: pi\<close>)
  have m: "maint_ok C d' (y_maint y)" using maint_ok_ext [OF inv(4)] s by (simp add: step_ok_def)
  note start = groupAlert_step_start [OF assms(4) ok]
  have "ag_running (group d' g) \<or> (\<exists>p \<in> set (?pcs[i := pc']). owned p = Some g \<and> \<not> unstored p) \<or> (\<exists>K. y_timer y = TRange K \<and> k \<in> K)"
    if run: "d_status d' = DispatcherStateRunning" "d_groups d' k = Some g" for k g
  proof (cases "owned pc' = Some g \<and> \<not> unstored pc'")
    case True
    then show ?thesis using pi(2) by (meson set_update_memI)
  next
    case False
    then have g: "d_groups ?d k = Some g" "d_status ?d = DispatcherStateRunning" using start(1) start(2) [OF run(2)] run(1) by auto
    then have len: "g < length (d_heap ?d)" using inv(2) by (simp add: slots_ok_def)
    from g inv(5) consider "ag_running (group ?d g)" | p where "p \<in> set ?pcs" "owned p = Some g" "\<not> unstored p" | K where "y_timer y = TRange K" "k \<in> K"
      unfolding start_ok_def by blast
    then show ?thesis
    proof cases
      case 1
      then show ?thesis using s len by (simp add: step_ok_def ext_def)
    next
      case 2
      then obtain j where j: "j < length ?pcs" "p = ?pcs ! j" by (metis in_set_conv_nth)
      show ?thesis
      proof (cases "j = i")
        case True
        then have "owned pc = Some g" "\<not> unstored pc" using 2 j pi by auto
        from start(3) [OF g(2) this] False show ?thesis by blast
      next
        case False
        then have "p \<in> set (?pcs[i := pc'])" using j by (metis length_list_update nth_list_update_neq nth_mem)
        then show ?thesis using 2 by blast
      qed
    qed blast
  qed
  moreover have "y_timer y = TWait \<Longrightarrow> d_status d' \<noteq> DispatcherStateRunning" using inv(5) start(1) by (simp add: start_ok_def)
  ultimately have "start_ok d' (?pcs[i := pc']) (y_timer y)" unfolding start_ok_def by blast
  then show ?thesis using w m s by (simp add: dinv_def step_ok_def map_update)
qed

lemma dinv_idle:
  assumes "dinv C y" "i < length (y_workers y)" "y_workers y ! i = (cs, Idle)" "pc_ok C (y_disp y) pc" "owned pc = None"
  shows "dinv C (y\<lparr>y_workers := (y_workers y)[i := (cs', pc)]\<rparr>)"
proof -
  let ?d = "y_disp y" and ?pcs = "map snd (y_workers y)"
  have inv: "heap_ok C ?d" "slots_ok C ?d" "workers_ok C ?d ?pcs" "start_ok ?d ?pcs (y_timer y)" using assms(1) by (simp_all add: dinv_def)
  have pi: "?pcs ! i = Idle" "i < length ?pcs" using assms(2,3) by simp_all
  have "workers_ok C ?d (?pcs[i := pc])"
    by (rule workers_ok_update [OF inv(3) _ pi(2) assms(4)]) (use step_ok_refl [OF inv(1,2)] assms(5) in simp_all)
  moreover have "p \<in> set (?pcs[i := pc])" if "p \<in> set ?pcs" "owned p = Some g" for p g
    using that pi by (metis in_set_conv_nth length_list_update nth_list_update_neq option.distinct(1) owned.simps(9))
  then have "start_ok ?d (?pcs[i := pc]) (y_timer y)" using inv(4) unfolding start_ok_def by blast
  ultimately show ?thesis using assms(1) by (simp add: dinv_def map_update)
qed


lemma groupAlert_start_ok: "slots_ok C d \<Longrightarrow> pc_ok C d (groupAlert_start C d c) \<and> owned (groupAlert_start C d c) = None"
  by (auto simp: groupAlert_start_def found_def slots_ok_def split: option.splits)

lemma dinv_step:
  assumes "disp_step C y y'" "dinv C y"
  shows "dinv C y' \<and> ext (y_disp y) (y_disp y')"
  using assms(1)
proof cases
  case (receive i now a)
  then show ?thesis using dinv_idle [OF assms(2) receive(2,3), of Idle] by simp
next
  case (begin_call i c cs)
  have "slots_ok C (y_disp y)" using assms(2) by (simp add: dinv_def)
  then show ?thesis using begin_call dinv_idle [OF assms(2) begin_call(2,3)] groupAlert_start_ok by simp
next
  case (work i cs pc now uid d pc')
  have "pc \<in> set (map snd (y_workers y))" using work(2,3) by (metis in_set_conv_nth length_map nth_map snd_conv)
  then have "pc_ok C (y_disp y) pc" using assms(2) by (auto simp: dinv_def workers_ok_def)
  then have "ext (y_disp y) d" using groupAlert_step_ok [OF _ _ _ work(5)] assms(2) by (simp add: dinv_def step_ok_def)
  then show ?thesis using work dinv_work [OF assms(2) work(2,3,5)] by simp
next
  case (tick g visit now' now'')
  have s: "step_ok C (y_disp y) (run_begin C now' now'' visit g (y_disp y)) None" using run_begin_ok tick assms(2) by (simp add: dinv_def)
  then show ?thesis using dinv_other [OF assms(2) s] tick by (simp add: step_ok_def)
next
  case (flushed g resolved ok)
  have s: "step_ok C (y_disp y) (run_end C ok resolved g (y_disp y)) None" using run_end_ok flushed assms(2) by (simp add: dinv_def)
  then show ?thesis using dinv_other [OF assms(2) s] flushed by (simp add: step_ok_def)
next
  case (canceled g)
  have h: "heap_ok C (y_disp y)" using assms(2) by (simp add: dinv_def)
  have "d_run (y_disp y) g \<noteq> NotStarted" using canceled by simp
  note g = started_group [OF h this]
  have s: "step_ok C (y_disp y) (run_exit g (y_disp y)) None"
    using run_exit_ok [of C "y_disp y" g] heap_ok_D(5) [OF h g(1)] canceled assms(2) by (auto simp: dinv_def)
  then show ?thesis using dinv_other [OF assms(2) s] canceled by (simp add: step_ok_def)
next
  case (maint_visit k g)
  then show ?thesis using assms(2) by (simp add: dinv_def slots_ok_def)
next
  case (maint d m)
  have s: "step_ok C (y_disp y) d None \<and> maint_ok C d m" using doMaintenance_step_ok [OF _ _ _ maint(2)] assms(2) by (simp add: dinv_def)
  have "d_status d = d_status (y_disp y)" "\<And>k g. d_groups d k = Some g \<Longrightarrow> d_groups (y_disp y) k = Some g"
    using maint(2) by (cases "y_maint y"; auto simp: Let_def split: if_splits)+
  then show ?thesis using dinv_other [OF assms(2), of d] s maint by (simp add: step_ok_def dinv_def)
next
  case (timer_start d t)
  have s: "step_ok C (y_disp y) d None" using step_ok_frame timer_start assms(2) by (auto simp: dinv_def start_timer_def split: if_splits)
  have "start_ok d (map snd (y_workers y)) t"
    using timer_start assms(2) by (auto simp: dinv_def start_ok_def start_timer_def split: if_splits)
  then show ?thesis using assms(2) timer_start s workers_ok_spared [OF _ s] maint_ok_ext by (auto simp: dinv_def step_ok_def)
next
  case (timer_visit K k)
  let ?d = "case d_groups (y_disp y) k of Some g \<Rightarrow> runAG g (y_disp y) | None \<Rightarrow> y_disp y"
  have inv: "heap_ok C (y_disp y)" "slots_ok C (y_disp y)" "start_ok (y_disp y) (map snd (y_workers y)) (TRange K)" using assms(2) timer_visit by (simp_all add: dinv_def)
  have len: "g < length (d_heap (y_disp y))" if "d_groups (y_disp y) j = Some g" for j g using that inv(2) by (simp add: slots_ok_def)
  have s: "step_ok C (y_disp y) ?d None"
  proof (cases "d_groups (y_disp y) k")
    case (Some g)
    then have "g \<in> ran (d_groups (y_disp y))" by (rule ranI)
    then show ?thesis using step_ok_runAG [OF inv(1,2) len [OF Some]] Some by simp
  qed (use step_ok_refl [OF inv(1,2)] in simp)
  have f: "d_status ?d = d_status (y_disp y)" "d_groups ?d = d_groups (y_disp y)" by (simp_all split: option.splits)
  have k: "ag_running (group ?d g)" if "d_groups (y_disp y) k = Some g" for g using that len [OF that] by (simp add: runAG_def)
  define d where "d = ?d"
  have "ext (y_disp y) d" using s by (simp add: step_ok_def d_def)
  then have "start_ok d (map snd (y_workers y)) (TRange K)"
    by (rule start_ok_other [OF inv(3) _ inv(2)]) (simp_all add: f d_def)
  then have "start_ok d (map snd (y_workers y)) (TRange (K - {k}))"
    by (rule start_ok_visited) (use k f(2) in \<open>simp add: d_def\<close>)
  then show ?thesis using assms(2) timer_visit s [folded d_def] workers_ok_spared [OF _ s [folded d_def]] maint_ok_ext [of C "y_disp y" "y_maint y" d] by (simp add: dinv_def step_ok_def d_def [symmetric])
next
  case timer_end
  then show ?thesis using assms(2) by (simp add: dinv_def start_ok_def)
next
  case stop
  have s: "step_ok C (y_disp y) (disp_Stop (y_disp y)) None" using step_ok_frame assms(2) by (simp add: dinv_def disp_Stop_def)
  have "start_ok (disp_Stop (y_disp y)) pcs t" for pcs t by (simp add: start_ok_def disp_Stop_def)
  then show ?thesis using assms(2) stop s workers_ok_spared [OF _ s] maint_ok_ext by (auto simp: dinv_def step_ok_def)
qed

lemma dinv_reachable: "disp_reachable C n y \<Longrightarrow> dinv C y"
  unfolding disp_reachable_def by (induction rule: rtranclp_induct) (auto simp: dinv_init dest: dinv_step)

end
