(* ===== verification/Dispatch_Results.thy ===== *)
theory Dispatch_Results
  imports Dispatch_Correct
begin

text \<open>
  What the invariant of the dispatcher gives: no group with alerts is lost, every group runs, every alert is
  grouped, the counters are exact and the limit is kept up to the number of goroutines, and the
  routing of an alert ends after a bounded number of steps.
\<close>

section \<open>Groups are kept and run\<close>

text \<open>
  C3: no group with alerts is lost. Under every interleaving of the routing goroutines, the goroutines of the
  groups, the maintenance and the start timer, a group leaves its slot of the table only if it is
  destroyed, and a destroyed group holds no alerts and accepts none.
\<close>

theorem dispatcher_keeps_groups:
  assumes "disp_reachable C n y" "disp_step C y y'" "d_groups (y_disp y) k = Some g"
  shows "d_groups (y_disp y') k = Some g \<or> as_alerts (ag_alerts (group (y_disp y) g)) = Map.empty \<and>
    (\<forall>now a. ag_insert (dc_env C) now a (group (y_disp y) g) = (group (y_disp y) g, False))"
proof -
  have inv: "dinv C y" using assms(1) by (rule dinv_reachable)
  then have g: "g < length (d_heap (y_disp y))" "heap_ok C (y_disp y)" using assms(3) by (simp_all add: dinv_def slots_ok_def)
  have "d_groups (y_disp y') k = Some g \<or> gone (y_disp y) g" using dinv_step [OF assms(2) inv] assms(3) g(1) by (simp add: ext_def)
  then show ?thesis using heap_ok_D(2) [OF g(2,1)] ag_insert_destroyed by (auto simp: ag_destroyed_def Destroyed_def)
qed

text \<open>
  C4: every group runs. Once the dispatcher is running and the start timer has done its round, the goroutine of
  every group of the table that is not destroyed is alive, unless the goroutine that created the
  group is still on its way to start it; a group created while the dispatcher was waiting to start is
  not forgotten.
\<close>

theorem dispatcher_runs_groups:
  assumes "disp_reachable C n y" "d_status (y_disp y) = DispatcherStateRunning" "y_timer y = TDone" "\<not> d_ctxDone (y_disp y)"
    and "d_groups (y_disp y) k = Some g" "\<not> gone (y_disp y) g" "\<forall>w \<in> set (y_workers y). owned (snd w) \<noteq> Some g"
  shows "d_run (y_disp y) g = Waiting \<or> (\<exists>resolved. d_run (y_disp y) g = Flushing resolved)"
proof -
  have inv: "heap_ok C (y_disp y)" "slots_ok C (y_disp y)" "start_ok (y_disp y) (map snd (y_workers y)) TDone"
    using dinv_reachable [OF assms(1)] assms(3) by (simp_all add: dinv_def)
  then have g: "g < length (d_heap (y_disp y))" using assms(5) by (simp add: slots_ok_def)
  have "ag_running (group (y_disp y) g)" using inv(3) assms(2,5,7) by (fastforce simp: start_ok_def)
  then have "d_run (y_disp y) g \<noteq> NotStarted" "d_run (y_disp y) g \<noteq> Exited" using heap_ok_D(4,6) [OF inv(1) g] assms(4,6) by auto
  then show ?thesis by (cases "d_run (y_disp y) g") auto
qed

section \<open>Every alert is grouped\<close>

fun call_of :: "pc \<Rightarrow> call option" where
  "call_of Idle = None"
| "call_of (AtInsert c el) = Some c"
| "call_of (AtLimit c e) = Some c"
| "call_of (AtStore c new e n) = Some c"
| "call_of (AtInsertExisting c new el n) = Some c"
| "call_of (AtCancel c new old) = Some c"
| "call_of (AtLen c new) = Some c"
| "call_of (AtNum c new) = Some c"
| "call_of (AtTimer c new) = Some c"
| "call_of (AtState c new) = Some c"
| "call_of (AtRun c new) = Some c"

definition valid_call :: "disp_conf \<Rightarrow> call \<Rightarrow> bool" where
  "valid_call C c \<longleftrightarrow> deref (dc_root C) (ca_route c) \<noteq> None"

definition calls_ok :: "disp_conf \<Rightarrow> (call list \<times> pc) list \<Rightarrow> bool" where
  "calls_ok C ws \<longleftrightarrow> (\<forall>w \<in> set ws. \<forall>c. c \<in> set (fst w) \<or> call_of (snd w) = Some c \<longrightarrow> valid_call C c)"

lemma routeAlert_valid: "c \<in> set (routeAlert C now a) \<Longrightarrow> valid_call C c"
  using Match_takes(1) [of "al_labels a" "[]" "dc_root C"] takes_deref by (fastforce simp: routeAlert_def valid_call_def)

lemma groupAlert_step_call: "groupAlert_step C now uid d pc = (d', pc') \<Longrightarrow> call_of pc' = None \<or> call_of pc' = call_of pc"
proof (cases pc)
  case (AtStore c new e n)
  then show "groupAlert_step C now uid d pc = (d', pc') \<Longrightarrow> ?thesis" by (cases e) (auto simp: retry_or_give_up_def split: if_splits option.splits)
qed (auto simp: Let_def retry_or_give_up_def split: if_splits option.splits prod.splits disp_status.splits)

lemma calls_ok_update: "calls_ok C ws \<Longrightarrow> (\<And>c. c \<in> set cs \<or> call_of pc = Some c \<Longrightarrow> valid_call C c) \<Longrightarrow> calls_ok C (ws[i := (cs, pc)])"
  unfolding calls_ok_def using set_update_subset_insert by fastforce

lemma calls_ok_nth: "calls_ok C ws \<Longrightarrow> i < length ws \<Longrightarrow> ws ! i = (cs, pc) \<Longrightarrow> c \<in> set cs \<or> call_of pc = Some c \<Longrightarrow> valid_call C c"
  unfolding calls_ok_def by (metis fst_conv nth_mem snd_conv)

lemma calls_ok_reachable:
  assumes "disp_reachable C n y"
  shows "calls_ok C (y_workers y)"
  using assms unfolding disp_reachable_def
proof (induction rule: rtranclp_induct)
  case (step y z)
  from step(2) show ?case
  proof cases
    case (begin_call i c cs)
    have "call_of (groupAlert_start C (y_disp y) c) = Some c" by (simp add: groupAlert_start_def split: option.splits)
    then show ?thesis using begin_call calls_ok_nth [OF step(3) begin_call(2,3)] by (auto intro!: calls_ok_update [OF step(3)])
  next
    case (work i cs pc now uid d pc')
    then show ?thesis using calls_ok_nth [OF step(3) work(2,3)] groupAlert_step_call [OF work(5)] by (auto intro!: calls_ok_update [OF step(3)])
  qed (use step(3) in \<open>auto intro!: calls_ok_update routeAlert_valid\<close>)
qed (auto simp: calls_ok_def disp_init_def)

lemma newAggrGroup_Some: "deref root p \<noteq> None \<Longrightarrow> newAggrGroup quote root p labels now uid \<noteq> None"
proof -
  assume p: "deref root p \<noteq> None"
  then have "Key quote root p \<noteq> None" by (induction p) (auto split: option.splits if_splits)
  then show ?thesis using p ID_steps [OF p, of quote] by (auto simp: newAggrGroup_def)
qed

text \<open>The alert is in a group of the table that can still accept alerts.\<close>

definition grouped :: "disp_conf \<Rightarrow> disp_state \<Rightarrow> call \<Rightarrow> bool" where
  "grouped C d c \<longleftrightarrow> (\<exists>g. d_groups d (call_slot C c) = Some g \<and> \<not> gone d g
     \<and> as_alerts (ag_alerts (group d g)) (Fingerprint (dc_env C) (ca_alert c)) = Some (ca_alert c))"

fun searching :: "pc \<Rightarrow> bool" where
  "searching (AtInsert c el) = True"
| "searching (AtLimit c e) = True"
| "searching (AtStore c new e n) = True"
| "searching (AtInsertExisting c new el n) = True"
| "searching _ = False"

fun retries_of :: "pc \<Rightarrow> nat" where
  "retries_of (AtStore c new e n) = n"
| "retries_of (AtInsertExisting c new el n) = n"
| "retries_of _ = 0"

lemma grouped_insert:
  assumes "heap_ok C d" "slots_ok C d" "found C d c el" "ag_insert (dc_env C) now (ca_alert c) (group d el) = (ag, True)"
  shows "grouped C (set_group el ag d) c"
proof -
  have el: "el < length (d_heap d)" "el \<in> ran (d_groups d) \<or> gone d el" using assms(3) by (auto simp: found_def ran_def)
  note s = step_ok_insert [OF assms(1,2) el assms(4)]
  have "\<not> ag_destroyed ag"
    using assms(4) s(2) ag_insert_eq [OF heap_ok_D(1) [OF assms(1) el(1)], of now "ca_alert c"]
    by (auto simp: invalidateRouteLabels_def ag_destroyed_def Destroyed_def)
  then show ?thesis using s(2,3) assms(3) el(1) by (auto simp: grouped_def found_def)
qed

text \<open>
  C2: every alert is grouped. Under every interleaving, a goroutine that routes an alert to a group goes on
  until the alert is in a group of the table that is not destroyed; it drops the alert only where the
  number of groups has reached the limit or the creation of the group was retried a hundred times.
\<close>

theorem alert_is_grouped:
  assumes "disp_reachable C n y" "(cs, pc) \<in> set (y_workers y)" "searching pc" "call_of pc = Some c" "groupAlert_step C now uid (y_disp y) pc = (d', pc')"
  shows "searching pc' \<or> grouped C d' c \<or> pc' = Idle \<and> (0 < dc_limit C \<and> dc_limit C \<le> d_num (y_disp y) \<or> retries_of pc = 100)"
proof -
  let ?d = "y_disp y"
  have inv: "heap_ok C ?d" "slots_ok C ?d" "pc_ok C ?d pc" using dinv_reachable [OF assms(1)] assms(2) by (force simp: dinv_def workers_ok_def)+
  have v: "deref (dc_root C) (ca_route c) \<noteq> None" using calls_ok_reachable [OF assms(1)] assms(2,4) by (force simp: calls_ok_def valid_call_def)
  show ?thesis
  proof (cases pc)
    case (AtInsert c' el)
    obtain ag ok where i: "ag_insert (dc_env C) now (ca_alert c) (group ?d el) = (ag, ok)" by force
    show ?thesis using grouped_insert [OF inv(1,2), of c el now ag] assms(4,5) inv(3) AtInsert i by (cases ok) (auto simp: Let_def)
  next
    case (AtLimit c' e)
    then show ?thesis using assms(4,5) newAggrGroup_Some [OF v, of "dc_quote C" "call_labels C c" now uid] by (auto split: if_splits option.splits)
  next
    case (AtStore c' new e r)
    then have f: "fresh_group C ?d c new" "r \<le> 100" using inv(3) assms(4) by auto
    have g: "grouped C (?d\<lparr>d_groups := (d_groups ?d)(call_slot C c \<mapsto> new)\<rparr>) c" using f(1) by (auto simp: grouped_def fresh_group_def)
    show ?thesis using assms(4,5) AtStore f g by (cases e) (auto simp: retry_or_give_up_def split: if_splits option.splits)
  next
    case (AtInsertExisting c' new el r)
    obtain ag ok where i: "ag_insert (dc_env C) now (ca_alert c) (group ?d el) = (ag, ok)" by force
    show ?thesis using grouped_insert [OF inv(1,2), of c el now ag] assms(4,5) inv(3) AtInsertExisting i
      by (cases ok) (auto simp: Let_def retry_or_give_up_def split: if_splits)
  qed (use assms(3) in auto)
qed


section \<open>Routing ends\<close>

fun steps_left :: "pc \<Rightarrow> nat" where
  "steps_left Idle = 0"
| "steps_left (AtRun c new) = 1"
| "steps_left (AtState c new) = 2"
| "steps_left (AtTimer c new) = 3"
| "steps_left (AtNum c new) = 4"
| "steps_left (AtLen c new) = 5"
| "steps_left (AtCancel c new old) = 4"
| "steps_left (AtStore c new e n) = 7 + 2 * (101 - n)"
| "steps_left (AtInsertExisting c new el n) = 6 + 2 * (101 - n)"
| "steps_left (AtLimit c e) = 210"
| "steps_left (AtInsert c el) = 211"

fun own_steps :: "disp_conf \<Rightarrow> (time \<times> string option \<times> disp_state) list \<Rightarrow> pc \<Rightarrow> pc" where
  "own_steps C [] pc = pc"
| "own_steps C ((now, uid, d) # es) pc = own_steps C es (snd (groupAlert_step C now uid d pc))"

lemma groupAlert_step_left: "steps_left (snd (groupAlert_step C now uid d pc)) \<le> steps_left pc - 1"
proof (cases pc)
  case (AtStore c new e n)
  then show ?thesis by (cases e) (auto simp: retry_or_give_up_def split: option.splits)
qed (auto simp: Let_def retry_or_give_up_def split: option.splits prod.splits disp_status.splits)

text \<open>
  C22: routing an alert to a group ends. Whatever the other goroutines do to the shared state between its steps, a
  goroutine has finished the call after at most 211 steps of its own: the loop that competes for
  the slot of the group gives up in the end.
\<close>

theorem groupAlert_terminates:
  assumes "211 \<le> length es"
  shows "own_steps C es (groupAlert_start C d c) = Idle"
proof -
  have "steps_left (own_steps C es pc) \<le> steps_left pc - length es" for pc
  proof (induction es arbitrary: pc)
    case (Cons e es)
    obtain now uid d where e: "e = (now, uid, d)" by (cases e)
    show ?case using Cons.IH [of "snd (groupAlert_step C now uid d pc)"] groupAlert_step_left [of C now uid d pc] by (simp add: e)
  qed simp
  then have "steps_left (own_steps C es (groupAlert_start C d c)) \<le> steps_left (groupAlert_start C d c) - length es" .
  moreover have "steps_left (groupAlert_start C d c) \<le> 211" by (simp add: groupAlert_start_def split: option.splits)
  ultimately have "steps_left (own_steps C es (groupAlert_start C d c)) = 0" using assms by linarith
  then show ?thesis by (cases "own_steps C es (groupAlert_start C d c)") auto
qed

section \<open>Counting\<close>

lemma count_update: "i < length xs \<Longrightarrow> int (length (filter P (xs[i := x]))) = int (length (filter P xs)) + of_bool (P x) - of_bool (P (xs ! i))"
proof (induction xs arbitrary: i)
  case (Cons a xs)
  show ?case
  proof (cases i)
    case (Suc j)
    then show ?thesis using Cons.IH [of j] Cons.prems by simp
  qed simp
qed simp

fun pending_maint :: "mpc \<Rightarrow> bool" where
  "pending_maint (MMark k g) = True"
| "pending_maint (MLen k g) = True"
| "pending_maint (MNum k g) = True"
| "pending_maint _ = False"

definition stored_groups :: "disp_state \<Rightarrow> int" where
  "stored_groups d = int (card (dom (d_groups d)))"

definition count_ok :: "disp_conf \<Rightarrow> disp_sys \<Rightarrow> bool" where
  "count_ok C y \<longleftrightarrow> finite (dom (d_groups (y_disp y)))
     \<and> d_num (y_disp y) = stored_groups (y_disp y) - int (length (filter uncounted (map snd (y_workers y)))) + of_bool (pending_maint (y_maint y))
     \<and> (0 < dc_limit C \<longrightarrow> stored_groups (y_disp y) + int (length (filter unstored (map snd (y_workers y)))) \<le> dc_limit C - 1 + max 1 (int (length (y_workers y))))"

lemma groupAlert_step_count:
  assumes "groupAlert_step C now uid d pc = (d', pc')" "finite (dom (d_groups d))"
  shows "finite (dom (d_groups d'))"
    "d_num d' - stored_groups d' + of_bool (uncounted pc') = d_num d - stored_groups d + of_bool (uncounted pc)"
    "stored_groups d' + of_bool (unstored pc') \<le> stored_groups d + of_bool (unstored pc) \<or>
       d' = d\<lparr>d_heap := d_heap d'\<rparr> \<and> \<not> uncounted pc \<and> \<not> unstored pc \<and> (0 < dc_limit C \<longrightarrow> d_num d < dc_limit C)"
proof -
  have all: "finite (dom (d_groups d')) \<and> d_num d' - stored_groups d' + of_bool (uncounted pc') = d_num d - stored_groups d + of_bool (uncounted pc) \<and>
    (stored_groups d' + of_bool (unstored pc') \<le> stored_groups d + of_bool (unstored pc) \<or>
       d' = d\<lparr>d_heap := d_heap d'\<rparr> \<and> \<not> uncounted pc \<and> \<not> unstored pc \<and> (0 < dc_limit C \<longrightarrow> d_num d < dc_limit C))"
  proof (cases pc)
    case (AtStore c' new e n)
    then show ?thesis using assms
      by (cases e) (auto simp: retry_or_give_up_def stored_groups_def card_insert_if domIff split: if_splits option.splits)
  qed (use assms in \<open>auto simp: Let_def retry_or_give_up_def stored_groups_def split: if_splits option.splits prod.splits disp_status.splits\<close>)
  show "finite (dom (d_groups d'))" "d_num d' - stored_groups d' + of_bool (uncounted pc') = d_num d - stored_groups d + of_bool (uncounted pc)"
    "stored_groups d' + of_bool (unstored pc') \<le> stored_groups d + of_bool (unstored pc) \<or>
       d' = d\<lparr>d_heap := d_heap d'\<rparr> \<and> \<not> uncounted pc \<and> \<not> unstored pc \<and> (0 < dc_limit C \<longrightarrow> d_num d < dc_limit C)"
    using all by blast+
qed


lemma filter_disjoint_le: "(\<And>x. \<not> (P x \<and> Q x)) \<Longrightarrow> length (filter P xs) + length (filter Q xs) \<le> length xs"
proof (induction xs)
  case (Cons x xs)
  then have "length (filter P xs) + length (filter Q xs) \<le> length xs" by simp
  then show ?case using Cons.prems [of x] by auto
qed simp

lemma filter_disjoint_less:
  assumes "\<And>x. \<not> (P x \<and> Q x)" "i < length xs" "\<not> P (xs ! i)" "\<not> Q (xs ! i)"
  shows "length (filter P xs) + length (filter Q xs) < length xs"
proof -
  have xs: "xs = take i xs @ xs ! i # drop (Suc i) xs" using assms(2) by (rule id_take_nth_drop)
  have "length (filter P xs) + length (filter Q xs) =
      length (filter P (take i xs)) + length (filter Q (take i xs)) + (length (filter P (drop (Suc i) xs)) + length (filter Q (drop (Suc i) xs)))"
    using arg_cong [OF xs, of "\<lambda>l. length (filter P l)"] arg_cong [OF xs, of "\<lambda>l. length (filter Q l)"] assms(3,4) by simp
  also have "\<dots> \<le> length (take i xs) + length (drop (Suc i) xs)"
    using filter_disjoint_le [of P Q "take i xs"] filter_disjoint_le [of P Q "drop (Suc i) xs"] assms(1) by (meson add_mono)
  also have "\<dots> < length xs" using assms(2) by simp
  finally show ?thesis .
qed

lemma count_ok_work:
  assumes "count_ok C y" "i < length (y_workers y)" "y_workers y ! i = (cs, pc)" "groupAlert_step C now uid (y_disp y) pc = (d', pc')"
  shows "count_ok C (y\<lparr>y_disp := d', y_workers := (y_workers y)[i := (cs, pc')]\<rparr>)"
proof -
  let ?pcs = "map snd (y_workers y)"
  have pi: "?pcs ! i = pc" "i < length ?pcs" using assms(2,3) by simp_all
  have fin: "finite (dom (d_groups (y_disp y)))" using assms(1) by (simp add: count_ok_def)
  note s = groupAlert_step_count [OF assms(4) fin]
  define u s0 n where "u = int (length (filter uncounted ?pcs))" and "s0 = int (length (filter unstored ?pcs))" and "n = int (length (y_workers y))"
  have u': "int (length (filter uncounted (?pcs[i := pc']))) = u + of_bool (uncounted pc') - of_bool (uncounted pc)"
    and s': "int (length (filter unstored (?pcs[i := pc']))) = s0 + of_bool (unstored pc') - of_bool (unstored pc)"
    using count_update [OF pi(2)] pi(1) by (simp_all add: u_def s0_def)
  have inv: "d_num (y_disp y) = stored_groups (y_disp y) - u + of_bool (pending_maint (y_maint y))"
    "0 < dc_limit C \<Longrightarrow> stored_groups (y_disp y) + s0 \<le> dc_limit C - 1 + max 1 n"
    using assms(1) by (simp_all add: count_ok_def u_def s0_def n_def)
  have "stored_groups d' + (s0 + of_bool (unstored pc') - of_bool (unstored pc)) \<le> dc_limit C - 1 + max 1 n" if lim: "0 < dc_limit C"
    using s(3)
  proof
    assume "stored_groups d' + of_bool (unstored pc') \<le> stored_groups (y_disp y) + of_bool (unstored pc)"
    then show ?thesis using inv(2) [OF lim] by linarith
  next
    assume a: "d' = (y_disp y)\<lparr>d_heap := d_heap d'\<rparr> \<and> \<not> uncounted pc \<and> \<not> unstored pc \<and> (0 < dc_limit C \<longrightarrow> d_num (y_disp y) < dc_limit C)"
    have "\<not> (uncounted p \<and> unstored p)" for p by (cases p) auto
    from filter_disjoint_less [of uncounted unstored, OF this pi(2)] have "u + s0 < n" using a unfolding pi(1) u_def s0_def n_def by simp
    moreover have "stored_groups d' = stored_groups (y_disp y)" unfolding stored_groups_def using a by (metis disp_state.select_convs(2) disp_state.surjective disp_state.update_convs(5))
    moreover have "of_bool (unstored pc') \<le> (1 :: int)" "of_bool (unstored pc) = (0 :: int)" using a by simp_all
    moreover have "stored_groups (y_disp y) \<le> dc_limit C - 1 + u" using a inv(1) lim by (cases "pending_maint (y_maint y)") simp_all
    ultimately show ?thesis by linarith
  qed
  moreover have "d_num d' = stored_groups d' - (u + of_bool (uncounted pc') - of_bool (uncounted pc)) + of_bool (pending_maint (y_maint y))"
    using s(2) inv(1) by linarith
  ultimately show ?thesis using s(1) unfolding count_ok_def by (simp add: map_update u' s' n_def)
qed

lemma count_ok_frame:
  "count_ok C y \<Longrightarrow> d_groups d = d_groups (y_disp y) \<Longrightarrow> d_num d = d_num (y_disp y) \<Longrightarrow> count_ok C (y\<lparr>y_disp := d\<rparr>)"
  by (simp add: count_ok_def stored_groups_def)

lemma count_ok_idle:
  assumes "count_ok C y" "i < length (y_workers y)" "y_workers y ! i = (cs, Idle)" "\<not> uncounted pc" "\<not> unstored pc"
  shows "count_ok C (y\<lparr>y_workers := (y_workers y)[i := (cs', pc)]\<rparr>)"
proof -
  have "map snd (y_workers y) ! i = Idle" "i < length (map snd (y_workers y))" using assms(2,3) by simp_all
  then have "int (length (filter P ((map snd (y_workers y))[i := pc]))) = int (length (filter P (map snd (y_workers y))))" if "P = uncounted \<or> P = unstored" for P
    using that count_update [of i "map snd (y_workers y)" P pc] assms(4,5) by auto
  then show ?thesis using assms(1) unfolding count_ok_def by (simp add: map_update)
qed

lemma count_ok_reachable:
  assumes "disp_reachable C n y"
  shows "count_ok C y \<and> length (y_workers y) = n"
  using assms unfolding disp_reachable_def
proof (induction rule: rtranclp_induct)
  case base
  have "filter P (replicate n Idle) = []" if "\<not> P Idle" for P :: "pc \<Rightarrow> bool" using that by (simp add: filter_replicate)
  then show ?case by (simp add: count_ok_def disp_init_def disp_Run_def stored_groups_def)
next
  case (step y z)
  have inv: "count_ok C y" "length (y_workers y) = n" using step(3) by simp_all
  from step(2) show ?case
  proof cases
    case (receive i now a)
    then show ?thesis using count_ok_idle [OF inv(1) receive(2,3), of Idle] inv(2) by simp
  next
    case (begin_call i c cs)
    have "\<not> uncounted (groupAlert_start C (y_disp y) c)" "\<not> unstored (groupAlert_start C (y_disp y) c)"
      by (simp_all add: groupAlert_start_def split: option.splits)
    then show ?thesis using begin_call count_ok_idle [OF inv(1) begin_call(2,3)] inv(2) by simp
  next
    case (work i cs pc now uid d pc')
    then show ?thesis using count_ok_work [OF inv(1) work(2,3,5)] inv(2) by simp
  next
    case (maint d m)
    have fin: "finite (dom (d_groups (y_disp y)))" using inv(1) by (simp add: count_ok_def)
    have "finite (dom (d_groups d)) \<and> d_num d - stored_groups d - of_bool (pending_maint m) = d_num (y_disp y) - stored_groups (y_disp y) - of_bool (pending_maint (y_maint y))
        \<and> stored_groups d \<le> stored_groups (y_disp y)"
    proof (cases "y_maint y")
      case (MDelete k g)
      have "card (dom m - {x}) = card (dom m) - 1" "0 < card (dom m)" if "finite (dom m)" "m x = Some v" for m :: "group_slot \<rightharpoonup> group_ref" and x v
        using that card_Diff_singleton [of x "dom m"] by (auto simp: card_gt_0_iff domI)
      then show ?thesis using maint(2) MDelete fin by (auto simp: Let_def stored_groups_def of_nat_diff Suc_le_eq split: if_splits)
    next
      case (MStop k g)
      show ?thesis using maint(2) fin unfolding MStop by (auto split: if_splits)
    qed (use maint(2) fin in \<open>auto simp: stored_groups_def split: if_splits\<close>)
    then show ?thesis using inv maint(1) unfolding count_ok_def by auto
  qed (use inv in \<open>auto intro!: count_ok_frame simp: start_timer_def disp_Stop_def count_ok_def stored_groups_def split: if_splits option.splits\<close>)
qed

text \<open>
  C23: the counter of groups is exact and the limit is kept up to the number of goroutines. The counter differs
  from the number of groups in the table only by what routing goroutines have stored and not yet
  counted and what the maintenance has removed and not yet discounted; and with a positive limit
  the table never holds as many groups as the limit plus the number of routing goroutines.
\<close>

theorem group_count_exact:
  assumes "disp_reachable C n y" "0 < n"
  shows "d_num (y_disp y) = int (card (dom (d_groups (y_disp y)))) - int (length (filter (\<lambda>w. uncounted (snd w)) (y_workers y))) + of_bool (pending_maint (y_maint y))
    \<and> (0 < dc_limit C \<longrightarrow> int (card (dom (d_groups (y_disp y)))) < dc_limit C + int n)"
proof -
  have c: "count_ok C y" "length (y_workers y) = n" using count_ok_reachable [OF assms(1)] by simp_all
  have "length (filter uncounted (map snd (y_workers y))) = length (filter (\<lambda>w. uncounted (snd w)) (y_workers y))" by (simp add: filter_map o_def)
  moreover have "int (card (dom (d_groups (y_disp y)))) < dc_limit C + int n" if "0 < dc_limit C"
    using c assms(2) that of_nat_0_le_iff [of "length (filter unstored (map snd (y_workers y)))"] unfolding count_ok_def stored_groups_def by linarith
  ultimately show ?thesis using c by (simp add: count_ok_def stored_groups_def)
qed


section \<open>An example: two goroutines and a limit of one group\<close>

definition race_conf :: disp_conf where
  "race_conf = \<lparr>dc_env = inh_env, dc_root = Route (DefaultRouteOpts\<lparr>ro_GroupByAll := True\<rparr>) [] False [] 0, dc_quote = sample_quote,
     dc_lstr = (\<lambda>_. ''''), dc_limit = 1\<rparr>"

definition race_call :: "nat \<Rightarrow> call" where
  "race_call n = \<lparr>ca_alert = crit n 100, ca_route = [], ca_now = 0\<rparr>"

definition race_group :: "nat \<Rightarrow> aggr_group" where
  "race_group n = fst (ag_insert inh_env 0 (crit n 100) (the (newAggrGroup sample_quote (dc_root race_conf) [] (al_labels (crit n 100)) 0 None)))"

definition race_sys :: "disp_state \<Rightarrow> pc list \<Rightarrow> tpc \<Rightarrow> disp_sys" where
  "race_sys d pcs t = \<lparr>y_disp = d, y_workers = map (Pair []) pcs, y_maint = MIdle, y_timer = t\<rparr>"

lemma race_simps [simp]:
  "call_slot race_conf (race_call n) = (0, 42 + 100 * n)" "routeAlert race_conf 0 (crit n 100) = [race_call n]"
  "newAggrGroup (dc_quote race_conf) (dc_root race_conf) (ca_route (race_call n)) (call_labels race_conf (race_call n)) 0 None =
     Some (the (newAggrGroup sample_quote (dc_root race_conf) [] (al_labels (crit n 100)) 0 None))"
  "dc_limit race_conf = 1" "dc_env race_conf = inh_env" "ca_alert (race_call n) = crit n 100" "ca_now (race_call n) = 0"
proof -
  have l: "getGroupLabels a (DefaultRouteOpts\<lparr>ro_GroupByAll := True\<rparr>) = al_labels a" for a by (simp add: getGroupLabels_def)
  show "call_slot race_conf (race_call n) = (0, 42 + 100 * n)"
    by (simp add: call_slot_def call_labels_def call_opts_def race_conf_def race_call_def l)
  show "routeAlert race_conf 0 (crit n 100) = [race_call n]" by (simp add: routeAlert_def race_conf_def race_call_def matchers_matches_iff)
  show "newAggrGroup (dc_quote race_conf) (dc_root race_conf) (ca_route (race_call n)) (call_labels race_conf (race_call n)) 0 None =
     Some (the (newAggrGroup sample_quote (dc_root race_conf) [] (al_labels (crit n 100)) 0 None))"
    by (simp add: newAggrGroup_def call_labels_def call_opts_def race_conf_def race_call_def l)
qed (simp_all add: race_conf_def race_call_def)

lemma reach_step: "disp_reachable C n y \<Longrightarrow> disp_step C y y' \<Longrightarrow> disp_reachable C n y'"
  unfolding disp_reachable_def by (rule rtranclp.rtrancl_into_rtrancl)

lemma race_begin:
  assumes "disp_reachable race_conf m (race_sys d pcs t)" "i < length pcs" "pcs ! i = Idle" "d_groups d (0, 42 + 100 * n) = None"
  shows "disp_reachable race_conf m (race_sys d (pcs[i := AtLimit (race_call n) None]) t)"
proof -
  have "disp_step race_conf (race_sys d pcs t) ((race_sys d pcs t)\<lparr>y_workers := (y_workers (race_sys d pcs t))[i := (routeAlert race_conf 0 (crit n 100), Idle)]\<rparr>)"
    (is "disp_step _ _ ?y") by (rule receive) (use assms in \<open>simp_all add: race_sys_def\<close>)
  moreover have "disp_step race_conf ?y (?y\<lparr>y_workers := (y_workers ?y)[i := ([], groupAlert_start race_conf (y_disp ?y) (race_call n))]\<rparr>)"
    by (rule begin_call) (use assms in \<open>simp_all add: race_sys_def\<close>)
  moreover have "?y\<lparr>y_workers := (y_workers ?y)[i := ([], groupAlert_start race_conf (y_disp ?y) (race_call n))]\<rparr> = race_sys d (pcs[i := AtLimit (race_call n) None]) t"
    using assms by (simp add: race_sys_def groupAlert_start_def map_update)
  ultimately show ?thesis using reach_step [OF reach_step [OF assms(1)]] by metis
qed

lemma race_work:
  assumes "disp_reachable race_conf m (race_sys d pcs t)" "i < length pcs" "pcs ! i \<noteq> Idle" "groupAlert_step race_conf 0 None d (pcs ! i) = (d', pc')"
  shows "disp_reachable race_conf m (race_sys d' (pcs[i := pc']) t)"
proof -
  have "disp_step race_conf (race_sys d pcs t) ((race_sys d pcs t)\<lparr>y_disp := d', y_workers := (y_workers (race_sys d pcs t))[i := ([], pc')]\<rparr>)"
    by (rule work) (use assms in \<open>simp_all add: race_sys_def\<close>)
  moreover have "(race_sys d pcs t)\<lparr>y_disp := d', y_workers := (y_workers (race_sys d pcs t))[i := ([], pc')]\<rparr> = race_sys d' (pcs[i := pc']) t"
    by (simp add: race_sys_def map_update)
  ultimately show ?thesis using reach_step [OF assms(1)] by metis
qed

lemma race_init: "disp_reachable race_conf m (race_sys disp_Run (replicate m Idle) TWait)"
  by (simp add: disp_reachable_def race_sys_def disp_init_def)

definition race_heap :: "aggr_group list \<Rightarrow> disp_state" where
  "race_heap gs = disp_Run\<lparr>d_heap := gs\<rparr>"

lemma race_alloc [simp]:
  "groupAlert_step race_conf 0 None (race_heap gs) (AtLimit (race_call n) None) = (race_heap (gs @ [race_group n]), AtStore (race_call n) (length gs) None 0)"
  by (simp add: race_heap_def disp_Run_def race_group_def)

lemma race_two: "disp_reachable race_conf 2 (race_sys (race_heap [race_group 3, race_group 4]) [AtStore (race_call 3) 0 None 0, AtStore (race_call 4) 1 None 0] TWait)"
proof -
  have 0: "disp_reachable race_conf 2 (race_sys (race_heap []) [Idle, Idle] TWait)"
    using race_init [of 2] by (simp add: race_heap_def disp_Run_def numeral_2_eq_2)
  have 1: "disp_reachable race_conf 2 (race_sys (race_heap []) [AtLimit (race_call 3) None, Idle] TWait)"
    using race_begin [OF 0, of 0 3] by (simp add: race_heap_def disp_Run_def)
  have 2: "disp_reachable race_conf 2 (race_sys (race_heap []) [AtLimit (race_call 3) None, AtLimit (race_call 4) None] TWait)"
    using race_begin [OF 1, of 1 4] by (simp add: race_heap_def disp_Run_def)
  have 3: "disp_reachable race_conf 2 (race_sys (race_heap [race_group 3]) [AtStore (race_call 3) 0 None 0, AtLimit (race_call 4) None] TWait)"
    using race_work [OF 2, of 0] by (simp del: groupAlert_step.simps)
  show ?thesis using race_work [OF 3, of 1] by (simp del: groupAlert_step.simps)
qed

definition race_one :: disp_state where
  "race_one = (race_heap [race_group 3, race_group 4])\<lparr>d_groups := [(0, 342) \<mapsto> 0]\<rparr>"

definition race_both :: disp_state where
  "race_both = (race_heap [race_group 3, race_group 4])\<lparr>d_groups := [(0, 342) \<mapsto> 0, (0, 442) \<mapsto> 1]\<rparr>"

lemma race_one_reachable: "disp_reachable race_conf 2 (race_sys race_one [AtLen (race_call 3) 0, AtStore (race_call 4) 1 None 0] TWait)"
  using race_work [OF race_two, of 0] by (simp add: race_one_def race_heap_def disp_Run_def)

lemma race_both_step:
  "disp_step race_conf (race_sys race_one [AtLen (race_call 3) 0, AtStore (race_call 4) 1 None 0] TWait) (race_sys race_both [AtLen (race_call 3) 0, AtLen (race_call 4) 1] TWait)"
proof -
  let ?y = "race_sys race_one [AtLen (race_call 3) 0, AtStore (race_call 4) 1 None 0] TWait"
  have "disp_step race_conf ?y (?y\<lparr>y_disp := race_both, y_workers := (y_workers ?y)[1 := ([], AtLen (race_call 4) 1)]\<rparr>)"
    by (rule work [where pc = "AtStore (race_call 4) 1 None 0" and now = 0 and uid = None])
      (simp_all add: race_sys_def race_one_def race_both_def race_heap_def disp_Run_def)
  then show ?thesis by (simp add: race_sys_def)
qed

text \<open>
  C39: the limit on groups can be exceeded: with a limit of one group, two goroutines that test the limit before
  either has counted its group both create one.
\<close>

theorem group_limit_race:
  "\<exists>y. disp_reachable race_conf 2 y \<and> dc_limit race_conf = 1 \<and> card (dom (d_groups (y_disp y))) = 2"
proof -
  have "card (dom (d_groups race_both)) = 2" by (simp add: race_both_def)
  then show ?thesis using reach_step [OF race_one_reachable race_both_step]
    by (intro exI [of _ "race_sys race_both [AtLen (race_call 3) 0, AtLen (race_call 4) 1] TWait"]) (simp add: race_sys_def)
qed

theorem dispatcher_keeps_groups_witness:
  "d_groups race_both (0, 342) = Some 0 \<or> as_alerts (ag_alerts (group race_one 0)) = Map.empty"
  using dispatcher_keeps_groups [OF race_one_reachable race_both_step, of "(0, 342)" 0] by (auto simp: race_sys_def race_one_def)

theorem group_count_exact_witness:
  "d_num race_both = 2 - 2 \<and> int (card (dom (d_groups race_both))) < 1 + 2"
  using group_count_exact [OF reach_step [OF race_one_reachable race_both_step]] by (simp add: race_sys_def race_both_def race_heap_def disp_Run_def)

theorem groupAlert_terminates_witness:
  "own_steps race_conf (replicate 211 (0, None, race_both)) (groupAlert_start race_conf race_one (race_call 4)) = Idle"
  by (rule groupAlert_terminates) simp

theorem alert_is_grouped_witness:
  "grouped race_conf race_both (race_call 4)"
proof -
  let ?y = "race_sys race_one [AtLen (race_call 3) 0, AtStore (race_call 4) 1 None 0] TWait"
  have "groupAlert_step race_conf 0 None (y_disp ?y) (AtStore (race_call 4) 1 None 0) = (race_both, AtLen (race_call 4) 1)"
    by (simp add: race_sys_def race_one_def race_both_def race_heap_def disp_Run_def)
  from alert_is_grouped [OF race_one_reachable _ _ _ this, of "[]" "race_call 4"] show ?thesis by (simp add: race_sys_def)
qed


lemma race_group_parts [simp]:
  "ro_GroupWait (ag_opts (race_group n)) = 30 * second" "\<not> ag_running (race_group n)" "\<not> ag_destroyed (race_group n)" "al_startsAt (crit n e) = 0"
  by (simp_all add: race_group_def newAggrGroup_def race_conf_def ag_insert_def Set_alert_def NewAlerts_def invalidateRouteLabels_def
    DefaultRouteOpts_def ag_destroyed_def Destroyed_def crit_def sample_alert_def)

definition race_stored :: disp_state where
  "race_stored = (race_heap [race_group 3])\<lparr>d_groups := [(0, 342) \<mapsto> 0], d_groupsLen := (\<lambda>_. 0)(0 := 1), d_num := 1\<rparr>"

definition race_running :: disp_state where
  "race_running = race_stored\<lparr>d_status := DispatcherStateRunning, d_heap := [(race_group 3)\<lparr>ag_running := True\<rparr>], d_run := (\<lambda>_. NotStarted)(0 := Waiting)\<rparr>"

lemma race_stored_reachable: "disp_reachable race_conf 1 (race_sys race_stored [Idle] TWait)"
proof -
  let ?c = "race_call 3" and ?d = "race_heap [race_group 3]"
  have 0: "disp_reachable race_conf 1 (race_sys (race_heap []) [Idle] TWait)"
    using race_init [of 1] by (simp add: race_heap_def disp_Run_def)
  have 1: "disp_reachable race_conf 1 (race_sys (race_heap []) [AtLimit ?c None] TWait)"
    using race_begin [OF 0, of 0 3] by (simp add: race_heap_def disp_Run_def)
  have 2: "disp_reachable race_conf 1 (race_sys ?d [AtStore ?c 0 None 0] TWait)" using race_work [OF 1, of 0] by (simp del: groupAlert_step.simps)
  have 3: "disp_reachable race_conf 1 (race_sys (?d\<lparr>d_groups := [(0, 342) \<mapsto> 0]\<rparr>) [AtLen ?c 0] TWait)"
    using race_work [OF 2, of 0] by (simp add: race_heap_def disp_Run_def)
  have 4: "disp_reachable race_conf 1 (race_sys (?d\<lparr>d_groups := [(0, 342) \<mapsto> 0], d_groupsLen := (\<lambda>_. 0)(0 := 1)\<rparr>) [AtNum ?c 0] TWait)"
    using race_work [OF 3, of 0] by (simp add: race_heap_def disp_Run_def)
  have 5: "disp_reachable race_conf 1 (race_sys race_stored [AtTimer ?c 0] TWait)"
    using race_work [OF 4, of 0] by (simp add: race_heap_def disp_Run_def race_stored_def)
  have 6: "disp_reachable race_conf 1 (race_sys race_stored [AtState ?c 0] TWait)"
    using race_work [OF 5, of 0] by (simp add: race_heap_def disp_Run_def race_stored_def second_def)
  show ?thesis using race_work [OF 6, of 0] by (simp add: race_heap_def disp_Run_def race_stored_def)
qed

lemma race_running_reachable: "disp_reachable race_conf 1 (race_sys race_running [Idle] TDone)"
proof -
  let ?d = "race_stored\<lparr>d_status := DispatcherStateRunning\<rparr>"
  have 1: "disp_step race_conf (race_sys race_stored [Idle] TWait) (race_sys ?d [Idle] (TRange {(0, 342)}))"
    using timer_start [of "race_sys race_stored [Idle] TWait" ?d "TRange {(0, 342)}"]
    by (simp add: race_sys_def start_timer_def race_stored_def race_heap_def disp_Run_def)
  have 2: "disp_step race_conf (race_sys ?d [Idle] (TRange {(0, 342)})) (race_sys race_running [Idle] (TRange {}))"
    using timer_visit [of "race_sys ?d [Idle] (TRange {(0, 342)})" "{(0, 342)}" "(0, 342)" race_conf]
    by (simp add: race_sys_def race_stored_def race_heap_def disp_Run_def runAG_def race_running_def set_group_def)
  have 3: "disp_step race_conf (race_sys race_running [Idle] (TRange {})) (race_sys race_running [Idle] TDone)"
    using timer_end [of "race_sys race_running [Idle] (TRange {})" race_conf] by (simp add: race_sys_def)
  show ?thesis using reach_step [OF reach_step [OF reach_step [OF race_stored_reachable 1] 2] 3] .
qed

theorem dispatcher_runs_groups_witness:
  "d_run race_running 0 = Waiting \<or> (\<exists>resolved. d_run race_running 0 = Flushing resolved)"
  using dispatcher_runs_groups [OF race_running_reachable, of "(0, 342)" 0]
  by (simp add: race_sys_def race_running_def race_stored_def race_heap_def disp_Run_def ag_destroyed_def)

end
