(* ===== verification/Dispatch_Groups.thy ===== *)
theory Dispatch_Groups
  imports Dispatch "HOL-Library.Multiset"
begin

text \<open>
  The view of the groups that the API shows, \<^verbatim>\<open>Dispatcher.Groups\<close> of \<^verbatim>\<open>dispatch/dispatch.go\<close>, and the round of a
  group's goroutine as the composition of the two steps the interleavings use.

  The table is given as a list: for each route, in the order of its index, the groups of its snapshot, each
  with the order in which its store lists the alerts. A group carries the cache of its route labels, so the
  groups after the call are returned too. Elements that \<^verbatim>\<open>sort.Sort\<close> may swap keep their order here.
\<close>

section \<open>Listing the groups\<close>

record alert_group =
  gr_Alerts :: "alert list"
  gr_Labels :: labelset
  gr_RouteLabels :: labelset
  gr_Receiver :: string
  gr_GroupKey :: string
  gr_RouteID :: string
  gr_AlertStatuses :: "fingerprint \<rightharpoonup> alert_status"

definition AlertGroups_Less :: "alert_env \<Rightarrow> alert_group \<Rightarrow> alert_group \<Rightarrow> bool" where
  "AlertGroups_Less A a b = (if gr_Labels a = gr_Labels b then gr_Receiver a < gr_Receiver b else ae_labelsBefore A (gr_Labels a) (gr_Labels b))"

type_synonym receivers = "fingerprint \<rightharpoonup> string list"
type_synonym group_snapshot = "aggr_group \<times> fingerprint list"

definition add_receiver :: "fingerprint \<Rightarrow> string \<Rightarrow> receivers \<Rightarrow> receivers" where
  "add_receiver fp receiver rs = rs(fp \<mapsto> (case rs fp of Some r \<Rightarrow> r @ [receiver] | None \<Rightarrow> [receiver]))"

fun Groups_alerts :: "alert_env \<Rightarrow> (alert \<Rightarrow> time \<Rightarrow> bool) \<Rightarrow> time \<Rightarrow> string \<Rightarrow> alert list \<Rightarrow> receivers \<Rightarrow> alert list \<times> receivers" where
  "Groups_alerts A alertFilter now receiver [] rs = ([], rs)"
| "Groups_alerts A alertFilter now receiver (a # as) rs =
     (if \<not> alertFilter a now then Groups_alerts A alertFilter now receiver as rs
      else (let (filtered, rs1) = Groups_alerts A alertFilter now receiver as (add_receiver (Fingerprint A a) receiver rs) in (a # filtered, rs1)))"

definition mk_AlertGroup :: "alert_env \<Rightarrow> (labelset \<Rightarrow> string) \<Rightarrow> string \<Rightarrow> labelset \<Rightarrow> alert list \<Rightarrow> aggr_group \<Rightarrow> alert_group" where
  "mk_AlertGroup A lstr receiver routeLabels filtered ag =
     \<lparr>gr_Alerts = filtered, gr_Labels = ag_labels ag, gr_RouteLabels = routeLabels, gr_Receiver = receiver, gr_GroupKey = GroupKey lstr ag,
      gr_RouteID = ag_routeID ag,
      gr_AlertStatuses = (\<lambda>fp. if fp \<in> Fingerprint A ` set filtered then Some (Status_marker fp (ag_marker ag)) else None)\<rparr>"

fun Groups_snapshot ::
  "alert_env \<Rightarrow> (labelset \<Rightarrow> string) \<Rightarrow> route_label_renderer option \<Rightarrow> (alert \<Rightarrow> time \<Rightarrow> bool) \<Rightarrow> time \<Rightarrow> string \<Rightarrow>
     group_snapshot list \<Rightarrow> receivers \<Rightarrow> alert_group list \<times> receivers \<times> group_snapshot list" where
  "Groups_snapshot A lstr tmpl alertFilter now receiver [] rs = ([], rs, [])"
| "Groups_snapshot A lstr tmpl alertFilter now receiver ((ag, visit) # ags) rs =
     (let (filtered, rs1) = Groups_alerts A alertFilter now receiver (List_alerts visit (ag_alerts ag)) rs
      in if length filtered = 0
         then (let (gs, rs2, ags') = Groups_snapshot A lstr tmpl alertFilter now receiver ags rs1 in (gs, rs2, (ag, visit) # ags'))
         else (let (routeLabels, ag1) = RouteLabels tmpl visit ag;
                   (gs, rs2, ags') = Groups_snapshot A lstr tmpl alertFilter now receiver ags rs1
               in (mk_AlertGroup A lstr receiver routeLabels filtered ag1 # gs, rs2, (ag1, visit) # ags')))"

fun Groups_routes ::
  "alert_env \<Rightarrow> (labelset \<Rightarrow> string) \<Rightarrow> route_label_renderer option \<Rightarrow> (route \<Rightarrow> bool) \<Rightarrow> (alert \<Rightarrow> time \<Rightarrow> bool) \<Rightarrow> time \<Rightarrow>
     (route \<times> group_snapshot list) list \<Rightarrow> receivers \<Rightarrow> alert_group list \<times> receivers \<times> (route \<times> group_snapshot list) list" where
  "Groups_routes A lstr tmpl routeFilter alertFilter now [] rs = ([], rs, [])"
| "Groups_routes A lstr tmpl routeFilter alertFilter now ((r, ags) # rest) rs =
     (if \<not> routeFilter r
      then (let (gs, rs2, rest') = Groups_routes A lstr tmpl routeFilter alertFilter now rest rs in (gs, rs2, (r, ags) # rest'))
      else (let (gs1, rs1, ags') = Groups_snapshot A lstr tmpl alertFilter now (ro_Receiver (rt_RouteOpts r)) ags rs;
                (gs, rs2, rest') = Groups_routes A lstr tmpl routeFilter alertFilter now rest rs1
            in (gs1 @ gs, rs2, (r, ags') # rest')))"

definition Groups ::
  "alert_env \<Rightarrow> (labelset \<Rightarrow> string) \<Rightarrow> route_label_renderer option \<Rightarrow> (route \<Rightarrow> bool) \<Rightarrow> (alert \<Rightarrow> time \<Rightarrow> bool) \<Rightarrow> time \<Rightarrow>
     (route \<times> group_snapshot list) list \<Rightarrow> alert_group list \<times> receivers \<times> (route \<times> group_snapshot list) list" where
  "Groups A lstr tmpl routeFilter alertFilter now table =
     (let (gs, rs, table') = Groups_routes A lstr tmpl routeFilter alertFilter now table Map.empty
      in (map (\<lambda>g. g\<lparr>gr_Alerts := sort_Stable (AlertSlice_Less A) (gr_Alerts g)\<rparr>) (sort_Stable (AlertGroups_Less A) gs),
          \<lambda>fp. map_option sort (rs fp), table'))"

section \<open>The receivers of an alert\<close>

text \<open>Each occurrence of an alert that is shown, with the receiver of its route.\<close>

definition shown_in :: "alert_env \<Rightarrow> (alert \<Rightarrow> time \<Rightarrow> bool) \<Rightarrow> time \<Rightarrow> fingerprint \<Rightarrow> group_snapshot \<Rightarrow> nat" where
  "shown_in A alertFilter now fp s = length (filter (\<lambda>a. alertFilter a now \<and> Fingerprint A a = fp) (List_alerts (snd s) (ag_alerts (fst s))))"

definition receivers_of :: "receivers \<Rightarrow> fingerprint \<Rightarrow> string multiset" where
  "receivers_of rs fp = (case rs fp of None \<Rightarrow> {#} | Some l \<Rightarrow> mset l)"

lemma replicate_mset_sum: "replicate_mset (m + n) x = replicate_mset m x + replicate_mset n x"
  by (induction m) simp_all

lemma Groups_alerts_spec:
  "Groups_alerts A f now receiver as rs = (filtered, rs1) \<Longrightarrow> filtered = filter (\<lambda>a. f a now) as
     \<and> receivers_of rs1 fp = receivers_of rs fp + replicate_mset (length (filter (\<lambda>a. f a now \<and> Fingerprint A a = fp) as)) receiver"
proof (induction as arbitrary: rs filtered)
  case (Cons a as)
  have add: "receivers_of (add_receiver x r rs) fp = receivers_of rs fp + (if x = fp then {#r#} else {#})" for x r
    by (simp add: receivers_of_def add_receiver_def split: option.splits)
  show ?case using Cons add by (fastforce split: if_splits prod.splits)
qed simp

lemma Groups_snapshot_spec:
  "Groups_snapshot A lstr tmpl f now receiver ags rs = (gs, rs1, ags') \<Longrightarrow>
     receivers_of rs1 fp = receivers_of rs fp + replicate_mset (sum_list (map (shown_in A f now fp) ags)) receiver
     \<and> (\<forall>g \<in> set gs. gr_Alerts g \<noteq> [] \<and> gr_Receiver g = receiver \<and> (\<exists>s \<in> set ags. gr_Labels g = ag_labels (fst s)
          \<and> gr_Alerts g = filter (\<lambda>a. f a now) (List_alerts (snd s) (ag_alerts (fst s)))))"
proof (induction ags arbitrary: rs gs rs1 ags')
  case (Cons s ags)
  obtain ag visit where s: "s = (ag, visit)" by force
  obtain filtered rs2 where a: "Groups_alerts A f now receiver (List_alerts visit (ag_alerts ag)) rs = (filtered, rs2)" by force
  obtain gs2 ags2 where g: "Groups_snapshot A lstr tmpl f now receiver ags rs2 = (gs2, rs1, ags2)"
    and gs: "filtered = [] \<and> gs = gs2 \<or> filtered \<noteq> [] \<and> gs = mk_AlertGroup A lstr receiver (fst (RouteLabels tmpl visit ag)) filtered (snd (RouteLabels tmpl visit ag)) # gs2"
    using Cons.prems by (auto simp: s a split: if_splits prod.splits)
  have l: "ag_labels (snd (RouteLabels tmpl visit ag)) = ag_labels ag" by (simp add: RouteLabels_def Let_def split: option.splits)
  have n: "shown_in A f now fp s = length (filter (\<lambda>a. f a now \<and> Fingerprint A a = fp) (List_alerts visit (ag_alerts ag)))" by (simp add: s shown_in_def)
  note A = Groups_alerts_spec [OF a, of fp] and I = Cons.IH [OF g]
  have "receivers_of rs1 fp = receivers_of rs fp + replicate_mset (sum_list (map (shown_in A f now fp) (s # ags))) receiver"
    using A I by (simp add: n replicate_mset_sum)
  moreover have "gr_Alerts g \<noteq> [] \<and> gr_Receiver g = receiver \<and> (\<exists>s' \<in> set (s # ags). gr_Labels g = ag_labels (fst s')
          \<and> gr_Alerts g = filter (\<lambda>a. f a now) (List_alerts (snd s') (ag_alerts (fst s'))))" if "g \<in> set gs" for g
    using gs
  proof
    assume "filtered = [] \<and> gs = gs2"
    then show ?thesis using that I by auto
  next
    assume g: "filtered \<noteq> [] \<and> gs = mk_AlertGroup A lstr receiver (fst (RouteLabels tmpl visit ag)) filtered (snd (RouteLabels tmpl visit ag)) # gs2"
    then show ?thesis using that I A by (auto simp: mk_AlertGroup_def l s)
  qed
  ultimately show ?case by blast
qed simp


definition expected_receivers ::
  "alert_env \<Rightarrow> (route \<Rightarrow> bool) \<Rightarrow> (alert \<Rightarrow> time \<Rightarrow> bool) \<Rightarrow> time \<Rightarrow> (route \<times> group_snapshot list) list \<Rightarrow> fingerprint \<Rightarrow> string multiset" where
  "expected_receivers A routeFilter alertFilter now table fp =
     sum_list (map (\<lambda>(r, ags). replicate_mset (sum_list (map (shown_in A alertFilter now fp) ags)) (ro_Receiver (rt_RouteOpts r)))
       (filter (\<lambda>(r, ags). routeFilter r) table))"

lemma Groups_routes_spec:
  "Groups_routes A lstr tmpl routeFilter f now table rs = (gs, rs1, table') \<Longrightarrow>
     receivers_of rs1 fp = receivers_of rs fp + expected_receivers A routeFilter f now table fp
     \<and> (\<forall>g \<in> set gs. gr_Alerts g \<noteq> [] \<and> (\<exists>(r, ags) \<in> set table. routeFilter r \<and> gr_Receiver g = ro_Receiver (rt_RouteOpts r)
          \<and> (\<exists>s \<in> set ags. gr_Labels g = ag_labels (fst s) \<and> gr_Alerts g = filter (\<lambda>a. f a now) (List_alerts (snd s) (ag_alerts (fst s))))))"
proof (induction table arbitrary: rs gs rs1 table')
  case (Cons x table)
  obtain r ags where x: "x = (r, ags)" by force
  show ?case
  proof (cases "routeFilter r")
    case False
    obtain t where g: "Groups_routes A lstr tmpl routeFilter f now table rs = (gs, rs1, t)" using Cons.prems False by (auto simp: x split: prod.splits)
    show ?thesis using Cons.IH [OF g] False by (auto simp: x expected_receivers_def)
  next
    case True
    obtain g1 rs2 a1 g2 t where s: "Groups_snapshot A lstr tmpl f now (ro_Receiver (rt_RouteOpts r)) ags rs = (g1, rs2, a1)"
      and g: "Groups_routes A lstr tmpl routeFilter f now table rs2 = (g2, rs1, t)" "gs = g1 @ g2"
      using Cons.prems True by (auto simp: x split: prod.splits)
    note S = Groups_snapshot_spec [OF s, of fp] and I = Cons.IH [OF g(1)]
    show ?thesis
    proof (intro conjI ballI)
      show "receivers_of rs1 fp = receivers_of rs fp + expected_receivers A routeFilter f now (x # table) fp"
        using S I True by (simp add: x expected_receivers_def)
    next
      fix h assume "h \<in> set gs"
      then consider "h \<in> set g1" | "h \<in> set g2" using g(2) by auto
      then have "gr_Alerts h \<noteq> [] \<and> (\<exists>(r, ags) \<in> set (x # table). routeFilter r \<and> gr_Receiver h = ro_Receiver (rt_RouteOpts r)
          \<and> (\<exists>s \<in> set ags. gr_Labels h = ag_labels (fst s) \<and> gr_Alerts h = filter (\<lambda>a. f a now) (List_alerts (snd s) (ag_alerts (fst s)))))"
        using S I True by cases (auto simp: x)
      then show "gr_Alerts h \<noteq> []" "\<exists>(r, ags) \<in> set (x # table). routeFilter r \<and> gr_Receiver h = ro_Receiver (rt_RouteOpts r)
          \<and> (\<exists>s \<in> set ags. gr_Labels h = ag_labels (fst s) \<and> gr_Alerts h = filter (\<lambda>a. f a now) (List_alerts (snd s) (ag_alerts (fst s))))" by blast+
    qed
  qed
qed (simp add: expected_receivers_def)


section \<open>A round of the goroutine\<close>

lemma run_round:
  assumes "g < length (d_heap d)" "\<not> ag_empty (group d g)" "d_run (run_begin C now' now'' visit g d) g = Flushing resolved"
  shows "group (run_end C ok resolved g (run_begin C now' now'' visit g d)) g =
    (let (ag, exit) = run_tick (dc_env C) lstr tmpl now now' now'' visit (\<lambda>_ _ ag. (ag, ok)) (group d g) in if exit then ag\<lparr>ag_done := True\<rparr> else ag)"
  using assms by (simp add: run_begin_def run_end_def run_tick_def run_exit_def flush_def Let_def resetTimer_def ag_empty_def flush_slices_def set_group_def split: prod.splits)



end
