(* ===== verification/Provider_Mem.thy ===== *)
theory Provider_Mem
  imports Store
begin

text \<open>
  The alert provider, \<^verbatim>\<open>provider/mem/mem.go\<close>: storing reported alerts, merging them with what is stored, and
  handing them to the subscribers (the dispatcher and the inhibitor) over buffered channels.

  A listener is its channel: everything written to it so far, how much of that the subscriber has read,
  the capacity, and whether the iterator was closed. A listener that is removed has its channel closed. \<^verbatim>\<open>Put\<close> holds the mutex while
  it waits for room in the channels; so the running system has the place in \<^verbatim>\<open>Put\<close> as part of its state, and
  the subscribers read and close between its steps. The callback before storing is the parameter
  \<open>pre\<close>; the tracing headers, metrics and recorded events are left out.
\<close>

section \<open>State\<close>

definition alertChannelLength :: nat where
  "alertChannelLength = 200"

record listening_alerts =
  ln_name :: string
  ln_sent :: "alert list"
  ln_read :: nat
  ln_cap :: nat
  ln_done :: bool

record provider =
  pv_store :: alert_store
  pv_listeners :: "nat \<rightharpoonup> listening_alerts"
  pv_next :: nat

definition NewProvider :: "int \<Rightarrow> provider" where
  "NewProvider perAlertNameLimit = \<lparr>pv_store = WithPerAlertLimit perAlertNameLimit NewAlerts, pv_listeners = Map.empty, pv_next = 0\<rparr>"

section \<open>Operations\<close>

definition Subscribe :: "string \<Rightarrow> fingerprint list \<Rightarrow> provider \<Rightarrow> provider \<times> nat" where
  "Subscribe name visit p =
     (let alerts = List_alerts visit (pv_store p)
      in (p\<lparr>pv_listeners := (pv_listeners p)(pv_next p \<mapsto> \<lparr>ln_name = name, ln_sent = alerts, ln_read = 0,
              ln_cap = max (length alerts) alertChannelLength, ln_done = False\<rparr>),
            pv_next := pv_next p + 1\<rparr>, pv_next p))"

definition SlurpAndSubscribe :: "string \<Rightarrow> fingerprint list \<Rightarrow> provider \<Rightarrow> alert list \<times> provider \<times> nat" where
  "SlurpAndSubscribe name visit p =
     (let alerts = List_alerts visit (pv_store p)
      in (alerts, p\<lparr>pv_listeners := (pv_listeners p)(pv_next p \<mapsto> \<lparr>ln_name = name, ln_sent = [], ln_read = 0,
              ln_cap = alertChannelLength, ln_done = False\<rparr>),
            pv_next := pv_next p + 1\<rparr>, pv_next p))"

definition GetPending :: "fingerprint list \<Rightarrow> provider \<Rightarrow> alert list" where
  "GetPending visit p = List_alerts visit (pv_store p)"

definition Get_provider :: "fingerprint \<Rightarrow> provider \<Rightarrow> store_error + alert" where
  "Get_provider fp p = Get_alert fp (pv_store p)"

definition overlaps_range :: "alert \<Rightarrow> alert \<Rightarrow> bool" where
  "overlaps_range a old \<longleftrightarrow> (after (al_endsAt a) (al_startsAt old) \<and> before (al_endsAt a) (al_endsAt old))
     \<or> (after (al_startsAt a) (al_startsAt old) \<and> before (al_startsAt a) (al_endsAt old))"

text \<open>The alert that one round of \<^verbatim>\<open>Put\<close> stores, and whether one was stored before.\<close>

definition put_merge :: "alert_env \<Rightarrow> time \<Rightarrow> alert \<Rightarrow> alert_store \<Rightarrow> alert \<times> bool" where
  "put_merge A now a s = (case Get_alert (Fingerprint A a) s of
     Inl _ \<Rightarrow> (a, False)
   | Inr old \<Rightarrow> if overlaps_range a old then (Merge_alert A now old a, True) else (a, True))"

text \<open>One round of the loop of \<^verbatim>\<open>Put\<close> up to the sending: the alert to send, or nothing where it was not stored.\<close>

definition put_store :: "alert_env \<Rightarrow> (alert \<Rightarrow> bool \<Rightarrow> bool) \<Rightarrow> time \<Rightarrow> time \<Rightarrow> alert \<Rightarrow> alert_store \<Rightarrow> alert_store \<times> alert option" where
  "put_store A pre now now' a s =
     (let (b, existing) = put_merge A now a s
      in if \<not> pre b existing then (s, None)
         else (case Set_alert A now' b s of
             (s1, Some err) \<Rightarrow> (s1, None)
           | (s1, None) \<Rightarrow> (s1, Some b)))"

definition has_room :: "listening_alerts \<Rightarrow> bool" where
  "has_room l \<longleftrightarrow> length (ln_sent l) - ln_read l < ln_cap l"

definition gcListeners :: "provider \<Rightarrow> provider" where
  "gcListeners p = p\<lparr>pv_listeners := (\<lambda>i. case pv_listeners p i of
     None \<Rightarrow> None
   | Some l \<Rightarrow> if ln_done l then None else Some l)\<rparr>"

definition provider_gc :: "alert_env \<Rightarrow> (string \<Rightarrow> time) \<Rightarrow> (fingerprint \<Rightarrow> time) \<Rightarrow> fingerprint list \<Rightarrow> provider \<Rightarrow> provider \<times> fingerprint list" where
  "provider_gc A lclk clk visit p =
     (let p1 = gcListeners p; (s, deleted) = GC_store A lclk clk visit (pv_store p1)
      in (p1\<lparr>pv_store := s\<rparr>, map (Fingerprint A) deleted))"

section \<open>The running provider\<close>

text \<open>Where \<^verbatim>\<open>Put\<close> is: the alerts still to store, and the message with the listeners it is still to be sent to.\<close>

datatype put_pc = NoPut | Putting "alert list" "(alert \<times> nat set) option"

record prov_sys =
  ps_prov :: provider
  ps_put :: put_pc

inductive prov_step :: "alert_env \<Rightarrow> (alert \<Rightarrow> bool \<Rightarrow> bool) \<Rightarrow> prov_sys \<Rightarrow> prov_sys \<Rightarrow> bool" for A pre where
  put_begin: "ps_put y = NoPut \<Longrightarrow> prov_step A pre y (y\<lparr>ps_put := Putting as None\<rparr>)"
| put_alert: "\<lbrakk>ps_put y = Putting (a # as) None; put_store A pre now now' a (pv_store (ps_prov y)) = (s, m)\<rbrakk> \<Longrightarrow>
    prov_step A pre y (y\<lparr>ps_prov := (ps_prov y)\<lparr>pv_store := s\<rparr>, ps_put := Putting as (map_option (\<lambda>b. (b, dom (pv_listeners (ps_prov y)))) m)\<rparr>)"
| put_send: "\<lbrakk>ps_put y = Putting as (Some (b, I)); i \<in> I; pv_listeners (ps_prov y) i = Some l; has_room l\<rbrakk> \<Longrightarrow>
    prov_step A pre y (y\<lparr>ps_prov := (ps_prov y)\<lparr>pv_listeners := (pv_listeners (ps_prov y))(i \<mapsto> l\<lparr>ln_sent := ln_sent l @ [b]\<rparr>)\<rparr>,
      ps_put := Putting as (Some (b, I - {i}))\<rparr>)"
| put_skip: "\<lbrakk>ps_put y = Putting as (Some (b, I)); i \<in> I; pv_listeners (ps_prov y) i = Some l; ln_done l\<rbrakk> \<Longrightarrow>
    prov_step A pre y (y\<lparr>ps_put := Putting as (Some (b, I - {i}))\<rparr>)"
| put_next: "ps_put y = Putting as (Some (b, {})) \<Longrightarrow> prov_step A pre y (y\<lparr>ps_put := Putting as None\<rparr>)"
| put_end: "ps_put y = Putting [] None \<Longrightarrow> prov_step A pre y (y\<lparr>ps_put := NoPut\<rparr>)"
| subscribe: "\<lbrakk>ps_put y = NoPut; set visit = dom (as_alerts (pv_store (ps_prov y)))\<rbrakk> \<Longrightarrow>
    prov_step A pre y (y\<lparr>ps_prov := fst (Subscribe name visit (ps_prov y))\<rparr>)"
| slurp: "\<lbrakk>ps_put y = NoPut; set visit = dom (as_alerts (pv_store (ps_prov y)))\<rbrakk> \<Longrightarrow>
    prov_step A pre y (y\<lparr>ps_prov := fst (snd (SlurpAndSubscribe name visit (ps_prov y)))\<rparr>)"
| read: "\<lbrakk>pv_listeners (ps_prov y) i = Some l; ln_read l < length (ln_sent l)\<rbrakk> \<Longrightarrow>
    prov_step A pre y (y\<lparr>ps_prov := (ps_prov y)\<lparr>pv_listeners := (pv_listeners (ps_prov y))(i \<mapsto> l\<lparr>ln_read := ln_read l + 1\<rparr>)\<rparr>\<rparr>)"
| close: "pv_listeners (ps_prov y) i = Some l \<Longrightarrow>
    prov_step A pre y (y\<lparr>ps_prov := (ps_prov y)\<lparr>pv_listeners := (pv_listeners (ps_prov y))(i \<mapsto> l\<lparr>ln_done := True\<rparr>)\<rparr>\<rparr>)"
| gc: "ps_put y = NoPut \<Longrightarrow> set visit = dom (as_alerts (pv_store (ps_prov y))) \<Longrightarrow> distinct visit \<Longrightarrow>
    prov_step A pre y (y\<lparr>ps_prov := fst (provider_gc A lclk clk visit (ps_prov y))\<rparr>)"


section \<open>Merging\<close>

text \<open>
  C25: \<^verbatim>\<open>Put\<close> stores the merge of overlapping reports. Where the activity of the new report properly overlaps the stored
  one and the new report is not the older one, the stored result is the merge of the two, also where
  the test for an overlap, which misses a new report that contains the stored one, does not call it.
\<close>

theorem put_merges_overlap:
  assumes "as_alerts s (Fingerprint A a) = Some old" "before (al_startsAt a) (al_endsAt old)" "before (al_startsAt old) (al_endsAt a)"
    and "\<not> before (al_updatedAt a) (al_updatedAt old)"
  shows "put_merge A now a s = (Merge_alert A now old a, True)"
  using assms by (auto simp: put_merge_def Get_alert_def overlaps_range_def Merge_alert_def merge_into_def Let_def)

section \<open>What a subscriber sees\<close>

definition view :: "alert_env \<Rightarrow> alert list \<Rightarrow> (fingerprint \<rightharpoonup> alert)" where
  "view A msgs = fold (\<lambda>a m. m(Fingerprint A a \<mapsto> a)) msgs Map.empty"

lemma view_snoc [simp]: "view A (msgs @ [a]) = (view A msgs)(Fingerprint A a \<mapsto> a)"
  by (simp add: view_def)

definition keyed :: "alert_env \<Rightarrow> (fingerprint \<rightharpoonup> alert) \<Rightarrow> bool" where
  "keyed A m \<longleftrightarrow> (\<forall>fp a. m fp = Some a \<longrightarrow> Fingerprint A a = fp)"

lemma view_List:
  assumes "keyed A (as_alerts s)" "set visit = dom (as_alerts s)"
  shows "view A (List_alerts visit s) = as_alerts s"
proof -
  have "view A (List_alerts v s) fp = (if fp \<in> set v then as_alerts s fp else None)" if "set v \<subseteq> dom (as_alerts s)" for v fp
    using that
  proof (induction v rule: rev_induct)
    case (snoc x v)
    then obtain a where a: "as_alerts s x = Some a" by auto
    have "List_alerts (v @ [x]) s = List_alerts v s @ [a]" by (simp add: List_alerts_def List.map_filter_def a)
    then show ?case using snoc a assms(1) by (auto simp: keyed_def)
  qed (simp add: List_alerts_def view_def List.map_filter_def)
  then show ?thesis using assms(2) by (intro ext) (auto simp: domIff)
qed

lemma Merge_alert_Fingerprint: "Fingerprint A old = fp \<Longrightarrow> Fingerprint A a = fp \<Longrightarrow> Fingerprint A (Merge_alert A now old a) = fp"
  by (auto simp: Merge_alert_def merge_into_def Let_def)

lemma put_store_spec:
  assumes "keyed A (as_alerts s)" "put_store A pre now now' a s = (s', m)"
  shows "as_alerts s' = (case m of None \<Rightarrow> as_alerts s | Some b \<Rightarrow> (as_alerts s)(Fingerprint A b \<mapsto> b))" "keyed A (as_alerts s')"
proof -
  show e: "as_alerts s' = (case m of None \<Rightarrow> as_alerts s | Some b \<Rightarrow> (as_alerts s)(Fingerprint A b \<mapsto> b))"
    using assms(2) by (auto simp: put_store_def Set_alert_def Let_def split: prod.splits if_splits option.splits)
  show "keyed A (as_alerts s')" using assms(1) unfolding e by (auto simp: keyed_def split: option.splits)
qed

text \<open>The message that a listener is still to be sent.\<close>

fun still_to_send :: "put_pc \<Rightarrow> nat \<Rightarrow> alert list" where
  "still_to_send (Putting as (Some (b, I))) i = (if i \<in> I then [b] else [])"
| "still_to_send _ i = []"

definition sub_inv :: "alert_env \<Rightarrow> alert list \<Rightarrow> nat \<Rightarrow> prov_sys \<Rightarrow> bool" where
  "sub_inv A initial i y \<longleftrightarrow> keyed A (as_alerts (pv_store (ps_prov y))) \<and> i < pv_next (ps_prov y)
     \<and> (\<forall>as b I. ps_put y = Putting as (Some (b, I)) \<longrightarrow> I \<subseteq> dom (pv_listeners (ps_prov y)))
     \<and> (\<forall>l. pv_listeners (ps_prov y) i = Some l \<longrightarrow> ln_done l \<or>
          as_alerts (pv_store (ps_prov y)) \<subseteq>\<^sub>m view A (initial @ ln_sent l @ still_to_send (ps_put y) i))"

lemma gc_store_sub:
  assumes "GC_store A lclk clk visit s = (s', deleted)" "distinct visit"
  shows "as_alerts s' \<subseteq>\<^sub>m as_alerts s"
proof -
  obtain m where m: "gc_alerts_loop A clk visit (as_alerts s) = (m, deleted)" "as_alerts s' = m"
    using assms(1) by (auto simp: GC_store_def gcAlerts_def gcLimitBuckets_def split: prod.splits)
  from gc_alerts_loop_spec [OF assms(2) m(1)] m(2) show ?thesis by (auto simp: map_le_def split: if_splits)
qed

lemma keyed_sub: "keyed A m \<Longrightarrow> m' \<subseteq>\<^sub>m m \<Longrightarrow> keyed A m'"
  unfolding keyed_def map_le_def by (metis domI)

lemma sub_inv_step:
  assumes "prov_step A pre y y'" "sub_inv A initial i y"
  shows "sub_inv A initial i y'"
  using assms(1)
proof cases
  case (put_alert a as now now' s m)
  have k: "keyed A (as_alerts (pv_store (ps_prov y)))" using assms(2) by (simp add: sub_inv_def)
  note s = put_store_spec [OF k put_alert(3)]
  have "as_alerts s \<subseteq>\<^sub>m view A (initial @ ln_sent l @ still_to_send (Putting as (map_option (\<lambda>b. (b, dom (pv_listeners (ps_prov y)))) m)) i)"
    if l: "pv_listeners (ps_prov y) i = Some l" "\<not> ln_done l" for l
  proof -
    have v: "as_alerts (pv_store (ps_prov y)) \<subseteq>\<^sub>m view A (initial @ ln_sent l)" using assms(2) l put_alert(2) by (auto simp: sub_inv_def)
    then show ?thesis using l(1) view_snoc [of A "initial @ ln_sent l"] by (cases m) (auto simp: s(1) map_le_def domI)
  qed
  then show ?thesis using assms(2) put_alert(1,2) s(2) by (auto simp: sub_inv_def)
next
  case (gc visit lclk clk)
  obtain s d where g: "GC_store A lclk clk visit (pv_store (ps_prov y)) = (s, d)" by force
  note sub = gc_store_sub [OF g gc(4)]
  have p: "fst (provider_gc A lclk clk visit (ps_prov y)) = (gcListeners (ps_prov y))\<lparr>pv_store := s\<rparr>"
    using g by (simp add: provider_gc_def gcListeners_def Let_def)
  show ?thesis using assms(2) gc(1,2) sub keyed_sub [OF _ sub] map_le_trans [OF sub]
    by (auto simp: sub_inv_def p gcListeners_def split: option.splits if_splits)
qed (use assms(2) in \<open>auto simp: sub_inv_def Subscribe_def SlurpAndSubscribe_def Let_def split: if_splits\<close>)


text \<open>
  C14: a subscriber sees the store. From the subscription on, whatever is put, collected, subscribed, read and closed,
  and however the readers interleave with \<^verbatim>\<open>Put\<close>: whenever no \<^verbatim>\<open>Put\<close> is under way, replaying the alerts handed
  over at the subscription and the messages sent since gives every alert of the store in its
  current version, to a subscriber that has not closed its iterator.
\<close>

theorem subscriber_sees_store:
  assumes "keyed A (as_alerts (pv_store p))" "set visit = dom (as_alerts (pv_store p))" "SlurpAndSubscribe name visit p = (initial, p', i)"
    and "(prov_step A pre)\<^sup>*\<^sup>* \<lparr>ps_prov = p', ps_put = NoPut\<rparr> y" "ps_put y = NoPut" "pv_listeners (ps_prov y) i = Some l" "\<not> ln_done l"
  shows "as_alerts (pv_store (ps_prov y)) \<subseteq>\<^sub>m view A (initial @ ln_sent l)"
proof -
  have p: "initial = List_alerts visit (pv_store p)" "pv_store p' = pv_store p" "i = pv_next p" "pv_next p' = pv_next p + 1"
    "pv_listeners p' i = Some \<lparr>ln_name = name, ln_sent = [], ln_read = 0, ln_cap = alertChannelLength, ln_done = False\<rparr>"
    using assms(3) by (auto simp: SlurpAndSubscribe_def Let_def)
  have "sub_inv A initial i \<lparr>ps_prov = p', ps_put = NoPut\<rparr>"
    using assms(1) view_List [OF assms(1,2)] p by (simp add: sub_inv_def)
  with assms(4) have "sub_inv A initial i y" by (induction rule: rtranclp_induct) (auto intro: sub_inv_step)
  then show ?thesis using assms(5-7) by (auto simp: sub_inv_def)
qed

section \<open>Put does not get stuck\<close>

definition chan_ok :: "listening_alerts \<Rightarrow> bool" where
  "chan_ok l \<longleftrightarrow> ln_read l \<le> length (ln_sent l) \<and> length (ln_sent l) \<le> ln_read l + ln_cap l \<and> 0 < ln_cap l"

definition prov_inv :: "prov_sys \<Rightarrow> bool" where
  "prov_inv y \<longleftrightarrow> (\<forall>i l. pv_listeners (ps_prov y) i = Some l \<longrightarrow> chan_ok l) \<and> finite (dom (pv_listeners (ps_prov y)))
     \<and> (\<forall>as b I. ps_put y = Putting as (Some (b, I)) \<longrightarrow> I \<subseteq> dom (pv_listeners (ps_prov y)))"

lemma chan_ok_send: "chan_ok l \<Longrightarrow> has_room l \<Longrightarrow> chan_ok (l\<lparr>ln_sent := ln_sent l @ [b]\<rparr>)"
  by (auto simp: chan_ok_def has_room_def)

lemma chan_ok_read: "chan_ok l \<Longrightarrow> ln_read l < length (ln_sent l) \<Longrightarrow> chan_ok (l\<lparr>ln_read := Suc (ln_read l)\<rparr>)"
  by (auto simp: chan_ok_def)

lemma chan_ok_close: "chan_ok l \<Longrightarrow> chan_ok (l\<lparr>ln_done := True\<rparr>)"
  by (simp add: chan_ok_def)

lemma chan_ok_new: "length as \<le> c \<Longrightarrow> 200 \<le> c \<Longrightarrow> chan_ok \<lparr>ln_name = name, ln_sent = as, ln_read = 0, ln_cap = c, ln_done = False\<rparr>"
  by (auto simp: chan_ok_def)

lemma prov_inv_step:
  assumes "prov_step A pre y y'" "prov_inv y"
  shows "prov_inv y'"
  using assms(1)
proof cases
  case (gc visit lclk clk)
  have "dom (pv_listeners (gcListeners (ps_prov y))) \<subseteq> dom (pv_listeners (ps_prov y))" by (auto simp: gcListeners_def split: option.splits if_splits)
  then have "finite (dom (pv_listeners (gcListeners (ps_prov y))))" using assms(2) finite_subset by (auto simp: prov_inv_def)
  moreover have "pv_listeners (gcListeners (ps_prov y)) i = Some l \<Longrightarrow> pv_listeners (ps_prov y) i = Some l" for i l
    by (auto simp: gcListeners_def split: option.splits if_splits)
  ultimately show ?thesis using assms(2) gc(1,2) by (auto simp: prov_inv_def provider_gc_def Let_def split: prod.splits)
qed (use assms(2) in \<open>auto simp: prov_inv_def Subscribe_def SlurpAndSubscribe_def alertChannelLength_def Let_def intro!: chan_ok_send chan_ok_read chan_ok_new chan_ok_close\<close>)

lemma pstep1: "prov_step A pre y y' \<Longrightarrow> (prov_step A pre)\<^sup>*\<^sup>* y y'"
  by blast

lemma pstep_into: "prov_step A pre y y' \<Longrightarrow> (prov_step A pre)\<^sup>*\<^sup>* y' z \<Longrightarrow> (prov_step A pre)\<^sup>*\<^sup>* y z"
  by (rule converse_rtranclp_into_rtranclp)

lemma send_or_read:
  assumes "prov_inv y" "ps_put y = Putting as (Some (b, I))" "i \<in> I"
  shows "\<exists>y'. (prov_step A pre)\<^sup>*\<^sup>* y y' \<and> ps_put y' = Putting as (Some (b, I - {i})) \<and> prov_inv y'"
proof -
  obtain l where l: "pv_listeners (ps_prov y) i = Some l" "chan_ok l" using assms by (auto simp: prov_inv_def)
  show ?thesis
  proof (cases "has_room l")
    case True
    note s = put_send [where A = A and pre = pre, OF assms(2,3) l(1) True]
    show ?thesis using pstep1 [OF s] prov_inv_step [OF s assms(1)] by force
  next
    case False
    then have r: "ln_read l < length (ln_sent l)" using l(2) by (auto simp: has_room_def chan_ok_def)
    let ?y = "y\<lparr>ps_prov := (ps_prov y)\<lparr>pv_listeners := (pv_listeners (ps_prov y))(i \<mapsto> l\<lparr>ln_read := ln_read l + 1\<rparr>)\<rparr>\<rparr>"
    have s: "prov_step A pre y ?y" by (rule read [OF l(1) r])
    have inv: "prov_inv ?y" by (rule prov_inv_step [OF s assms(1)])
    have put: "ps_put ?y = Putting as (Some (b, I))" and l2: "pv_listeners (ps_prov ?y) i = Some (l\<lparr>ln_read := ln_read l + 1\<rparr>)"
      and room: "has_room (l\<lparr>ln_read := ln_read l + 1\<rparr>)" using assms(2) l(2) r by (auto simp: has_room_def chan_ok_def)
    note s2 = put_send [where A = A and pre = pre, OF put assms(3) l2 room]
    show ?thesis using pstep_into [OF s pstep1 [OF s2]] prov_inv_step [OF s2 inv] by force
  qed
qed

lemma send_all:
  assumes "finite I" "prov_inv y" "ps_put y = Putting as (Some (b, I))"
  shows "\<exists>y'. (prov_step A pre)\<^sup>*\<^sup>* y y' \<and> ps_put y' = Putting as (Some (b, {})) \<and> prov_inv y'"
  using assms
proof (induction I arbitrary: y rule: finite_psubset_induct)
  case (psubset I)
  show ?case
  proof (cases "I = {}")
    case True
    then show ?thesis using psubset.prems by blast
  next
    case False
    then obtain i where i: "i \<in> I" by blast
    obtain y1 where y1: "(prov_step A pre)\<^sup>*\<^sup>* y y1" "ps_put y1 = Putting as (Some (b, I - {i}))" "prov_inv y1"
      using send_or_read [OF psubset.prems i] by blast
    from psubset.IH [OF _ y1(3,2)] i obtain y2 where "(prov_step A pre)\<^sup>*\<^sup>* y1 y2" "ps_put y2 = Putting as (Some (b, {}))" "prov_inv y2" by blast
    then show ?thesis using y1(1) rtranclp_trans by metis
  qed
qed

lemma put_rest:
  assumes "prov_inv y" "ps_put y = Putting as None"
  shows "\<exists>y'. (prov_step A pre)\<^sup>*\<^sup>* y y' \<and> ps_put y' = NoPut"
  using assms
proof (induction as arbitrary: y)
  case Nil
  then show ?case using pstep1 [OF put_end [OF Nil(2)]] by force
next
  case (Cons a as)
  obtain s m where p: "put_store A pre 0 0 a (pv_store (ps_prov y)) = (s, m)" by force
  note s1 = put_alert [where A = A and pre = pre, OF Cons.prems(2) p]
  note i1 = prov_inv_step [OF s1 Cons.prems(1)]
  show ?case
  proof (cases m)
    case None
    then show ?thesis using Cons.IH [OF i1] pstep_into [OF s1] by auto
  next
    case (Some b)
    let ?y = "y\<lparr>ps_prov := (ps_prov y)\<lparr>pv_store := s\<rparr>, ps_put := Putting as (map_option (\<lambda>b. (b, dom (pv_listeners (ps_prov y)))) m)\<rparr>"
    have "finite (dom (pv_listeners (ps_prov y)))" using Cons.prems(1) by (simp add: prov_inv_def)
    from send_all [OF this i1, of as b] Some obtain y2 where y2: "(prov_step A pre)\<^sup>*\<^sup>* ?y y2" "ps_put y2 = Putting as (Some (b, {}))" "prov_inv y2"
      by auto
    note s3 = put_next [where A = A and pre = pre, OF y2(2)]
    have i3: "prov_inv (y2\<lparr>ps_put := Putting as None\<rparr>)" by (rule prov_inv_step [OF s3 y2(3)])
    obtain y4 where y4: "(prov_step A pre)\<^sup>*\<^sup>* (y2\<lparr>ps_put := Putting as None\<rparr>) y4" "ps_put y4 = NoPut" using Cons.IH [OF i3] by auto
    have "(prov_step A pre)\<^sup>*\<^sup>* y y4"
      using pstep_into [OF s1 y2(1)] pstep_into [OF s3 y4(1)] by (rule rtranclp_trans)
    then show ?thesis using y4(2) by blast
  qed
qed



section \<open>Examples\<close>

definition put_alert_now :: alert where
  "put_alert_now = sample_alert 1 9 5"

theorem put_merges_overlap_witness:
  "put_merge sample_alert_env 6 put_alert_now (NewAlerts\<lparr>as_alerts := [0 \<mapsto> sample_alert 2 7 4]\<rparr>) = (Merge_alert sample_alert_env 6 (sample_alert 2 7 4) put_alert_now, True)"
  by (rule put_merges_overlap) (simp_all add: put_alert_now_def sample_alert_def sample_alert_env_def label_get_def)

definition one_listener :: "alert list \<Rightarrow> listening_alerts" where
  "one_listener sent = \<lparr>ln_name = ''d'', ln_sent = sent, ln_read = 0, ln_cap = alertChannelLength, ln_done = False\<rparr>"

definition one_sub :: "alert_store \<Rightarrow> alert list \<Rightarrow> provider" where
  "one_sub s sent = \<lparr>pv_store = s, pv_listeners = [0 \<mapsto> one_listener sent], pv_next = 1\<rparr>"

definition stored_now :: alert_store where
  "stored_now = (WithPerAlertLimit 0 NewAlerts)\<lparr>as_alerts := [0 \<mapsto> put_alert_now]\<rparr>"

lemma sample_fp0: "Fingerprint sample_alert_env put_alert_now = 0"
  by (simp add: put_alert_now_def sample_alert_def sample_alert_env_def label_get_def)

lemma put_run:
  "(prov_step sample_alert_env (\<lambda>_ _. True))\<^sup>*\<^sup>* \<lparr>ps_prov = one_sub (WithPerAlertLimit 0 NewAlerts) [], ps_put = NoPut\<rparr>
     \<lparr>ps_prov = one_sub stored_now [put_alert_now], ps_put = NoPut\<rparr>"
proof -
  let ?S = "prov_step sample_alert_env (\<lambda>_ _. True)"
  let ?y = "\<lambda>s sent pc. \<lparr>ps_prov = one_sub s sent, ps_put = pc\<rparr>"
  have 1: "?S (?y (WithPerAlertLimit 0 NewAlerts) [] NoPut) (?y (WithPerAlertLimit 0 NewAlerts) [] (Putting [put_alert_now] None))"
    using put_begin [of "?y (WithPerAlertLimit 0 NewAlerts) [] NoPut" sample_alert_env "\<lambda>_ _. True" "[put_alert_now]"] by simp
  have p: "put_store sample_alert_env (\<lambda>_ _. True) 0 0 put_alert_now (WithPerAlertLimit 0 NewAlerts) = (stored_now, Some put_alert_now)"
    by (simp add: put_store_def put_merge_def Get_alert_def WithPerAlertLimit_def NewAlerts_def Set_alert_def Let_def stored_now_def sample_fp0)
  have 2: "?S (?y (WithPerAlertLimit 0 NewAlerts) [] (Putting [put_alert_now] None)) (?y stored_now [] (Putting [] (Some (put_alert_now, {0}))))"
    using put_alert [of "?y (WithPerAlertLimit 0 NewAlerts) [] (Putting [put_alert_now] None)" put_alert_now "[]" sample_alert_env "\<lambda>_ _. True" 0 0] p
    by (simp add: one_sub_def)
  have 3: "?S (?y stored_now [] (Putting [] (Some (put_alert_now, {0})))) (?y stored_now [put_alert_now] (Putting [] (Some (put_alert_now, {}))))"
    using put_send [of "?y stored_now [] (Putting [] (Some (put_alert_now, {0})))" "[]" put_alert_now "{0}" 0 "one_listener []" sample_alert_env "\<lambda>_ _. True"]
    by (simp add: one_sub_def one_listener_def has_room_def alertChannelLength_def)
  have 4: "?S (?y stored_now [put_alert_now] (Putting [] (Some (put_alert_now, {})))) (?y stored_now [put_alert_now] (Putting [] None))"
    using put_next [of "?y stored_now [put_alert_now] (Putting [] (Some (put_alert_now, {})))" "[]" put_alert_now sample_alert_env "\<lambda>_ _. True"] by simp
  have 5: "?S (?y stored_now [put_alert_now] (Putting [] None)) (?y stored_now [put_alert_now] NoPut)"
    using put_end [of "?y stored_now [put_alert_now] (Putting [] None)" sample_alert_env "\<lambda>_ _. True"] by simp
  show ?thesis using pstep_into [OF 1 pstep_into [OF 2 pstep_into [OF 3 pstep_into [OF 4 pstep1 [OF 5]]]]] .
qed

theorem subscriber_sees_store_witness:
  "as_alerts stored_now 0 = Some put_alert_now \<and> view sample_alert_env ([] @ [put_alert_now]) 0 = Some put_alert_now"
proof -
  have e: "as_alerts (pv_store (NewProvider 0)) = Map.empty" by (simp add: NewProvider_def WithPerAlertLimit_def NewAlerts_def)
  have s: "SlurpAndSubscribe ''d'' [] (NewProvider 0) = ([], one_sub (WithPerAlertLimit 0 NewAlerts) [], 0)"
    by (simp add: SlurpAndSubscribe_def NewProvider_def one_sub_def one_listener_def List_alerts_def List.map_filter_def)
  have "as_alerts (pv_store (ps_prov \<lparr>ps_prov = one_sub stored_now [put_alert_now], ps_put = NoPut\<rparr>)) \<subseteq>\<^sub>m view sample_alert_env ([] @ ln_sent (one_listener [put_alert_now]))"
    by (rule subscriber_sees_store [OF _ _ s put_run]) (simp_all add: e keyed_def one_sub_def one_listener_def)
  then show ?thesis by (simp add: one_sub_def one_listener_def stored_now_def map_le_def)
qed


end
