(* ===== verification/Matcher_Lexer.thy ===== *)
theory Matcher_Lexer
  imports Go_Quote
begin

text \<open>
  The lexer of the UTF-8 matchers parser, \<^verbatim>\<open>matcher/parse/lexer.go\<close> and \<^verbatim>\<open>matcher/parse/token.go\<close>. The end
  of the input is the missing rune. The loops over the runes end because each of them consumes one.
  The texts of the errors are not modelled, their kinds and positions are.
\<close>

section \<open>Tokens and positions\<close>

datatype token_kind = TokenEOF | TokenOpenBrace | TokenCloseBrace | TokenComma | TokenEquals | TokenNotEquals
  | TokenMatches | TokenNotMatches | TokenQuoted | TokenUnquoted

record position =
  po_offsetStart :: nat
  po_offsetEnd :: nat
  po_columnStart :: nat
  po_columnEnd :: nat

record token =
  tk_kind :: token_kind
  tk_value :: string
  tk_position :: position

definition no_position :: position where
  "no_position = \<lparr>po_offsetStart = 0, po_offsetEnd = 0, po_columnStart = 0, po_columnEnd = 0\<rparr>"

definition no_token :: token where
  "no_token = \<lparr>tk_kind = TokenEOF, tk_value = [], tk_position = no_position\<rparr>"

definition isEOF :: "token \<Rightarrow> bool" where
  "isEOF t \<longleftrightarrow> tk_kind t = TokenEOF"

definition isOneOf :: "token_kind list \<Rightarrow> token \<Rightarrow> bool" where
  "isOneOf kinds t \<longleftrightarrow> tk_kind t \<in> set kinds"

definition token_unquote :: "token \<Rightarrow> string option" where
  "token_unquote t = (if tk_kind t = TokenQuoted then
      (case Unquote (tk_value t) of
         None \<Rightarrow> None
       | Some s \<Rightarrow> if valid_utf8 s then Some s else None)
    else Some (tk_value t))"

datatype lex_error = ExpectedError position string | InvalidInputError position | UnterminatedError position

record lexer =
  lx_input :: string
  lx_err :: "lex_error option"
  lx_start :: nat
  lx_pos :: nat
  lx_width :: nat
  lx_column :: nat
  lx_cols :: nat

definition new_lexer :: "string \<Rightarrow> lexer" where
  "new_lexer input = \<lparr>lx_input = input, lx_err = None, lx_start = 0, lx_pos = 0, lx_width = 0, lx_column = 0, lx_cols = 0\<rparr>"

section \<open>Moving the cursor\<close>

definition lx_next :: "lexer \<Rightarrow> lexer \<times> nat option" where
  "lx_next l =
     (if length (lx_input l) \<le> lx_pos l then (l\<lparr>lx_width := 0\<rparr>, None)
      else (let s = drop (lx_pos l) (lx_input l); w = next_width s
            in (l\<lparr>lx_width := w, lx_pos := lx_pos l + w, lx_cols := lx_cols l + 1\<rparr>, Some (rune_of (take w s)))))"

definition lx_rewind :: "lexer \<Rightarrow> lexer" where
  "lx_rewind l = l\<lparr>lx_pos := lx_pos l - lx_width l, lx_cols := (if 0 < lx_width l then lx_cols l - 1 else lx_cols l)\<rparr>"

definition lx_skip :: "lexer \<Rightarrow> lexer" where
  "lx_skip l = l\<lparr>lx_start := lx_pos l, lx_column := lx_cols l\<rparr>"

definition lx_position :: "lexer \<Rightarrow> position" where
  "lx_position l = \<lparr>po_offsetStart = lx_start l, po_offsetEnd = lx_pos l, po_columnStart = lx_column l, po_columnEnd = lx_cols l\<rparr>"

definition lx_emit :: "token_kind \<Rightarrow> lexer \<Rightarrow> lexer \<times> token" where
  "lx_emit kind l = (l\<lparr>lx_start := lx_pos l, lx_column := lx_cols l\<rparr>,
     \<lparr>tk_kind = kind, tk_value = drop (lx_start l) (take (lx_pos l) (lx_input l)), tk_position = lx_position l\<rparr>)"

definition contains_rune :: "string \<Rightarrow> nat option \<Rightarrow> bool" where
  "contains_rune valid r = (case r of None \<Rightarrow> False | Some x \<Rightarrow> x \<in> byte ` set valid)"

definition lx_accept :: "string \<Rightarrow> lexer \<Rightarrow> lexer \<times> bool" where
  "lx_accept valid l = (let (l1, r) = lx_next l in if contains_rune valid r then (l1, True) else (lx_rewind l1, False))"

definition lx_expect :: "string \<Rightarrow> lexer \<Rightarrow> lexer \<times> lex_error option" where
  "lx_expect valid l = (let (l1, r) = lx_next l in
     if contains_rune valid r then (l1, None) else (lx_rewind l1, Some (ExpectedError (lx_position (lx_rewind l1)) valid)))"

lemma lx_next_progress: "lx_next l = (l', Some r) \<Longrightarrow> lx_pos l < lx_pos l' \<and> lx_pos l < length (lx_input l) \<and> lx_input l' = lx_input l"
  by (auto simp: lx_next_def Let_def next_width_def split: if_splits)

section \<open>Scanning\<close>

definition scanOperator :: "lexer \<Rightarrow> lexer \<times> (lex_error + token)" where
  "scanOperator l =
     (let (l1, bang) = lx_accept ''!'' l in
      if bang then
        (let (l2, eq) = lx_accept ''='' l1 in
         if eq then (let (l3, t) = lx_emit TokenNotEquals l2 in (l3, Inr t))
         else (let (l3, tilde) = lx_accept ''~'' l2 in
           if tilde then (let (l4, t) = lx_emit TokenNotMatches l3 in (l4, Inr t))
           else (l3, Inl (ExpectedError (lx_position l3) ''=~''))))
      else
        (let (l2, eq) = lx_accept ''='' l1 in
         if eq then (let (l3, tilde) = lx_accept ''~'' l2 in
           if tilde then (let (l4, t) = lx_emit TokenMatches l3 in (l4, Inr t))
           else (let (l4, t) = lx_emit TokenEquals l3 in (l4, Inr t)))
         else (l2, Inl (ExpectedError (lx_position l2) ''!=''))))"

function quoted_loop :: "bool \<Rightarrow> lexer \<Rightarrow> lexer" where
  "quoted_loop isEscaped l = (case lx_next l of
     (l1, None) \<Rightarrow> l1
   | (l1, Some r) \<Rightarrow>
       if isEscaped then quoted_loop False l1
       else if r = byte backslash then quoted_loop True l1
       else if r = byte dquote then lx_rewind l1
       else quoted_loop False l1)"
  by pat_completeness auto
termination
  by (relation "measure (\<lambda>(_, l). length (lx_input l) - lx_pos l)") (auto dest!: lx_next_progress [OF sym])

function unquoted_loop :: "lexer \<Rightarrow> lexer" where
  "unquoted_loop l = (case lx_next l of
     (l1, None) \<Rightarrow> l1
   | (l1, Some r) \<Rightarrow> if isReserved r then lx_rewind l1 else unquoted_loop l1)"
  by pat_completeness auto
termination
  by (relation "measure (\<lambda>l. length (lx_input l) - lx_pos l)") (auto dest!: lx_next_progress [OF sym])

declare quoted_loop.simps [simp del] unquoted_loop.simps [simp del]

definition scanQuoted :: "lexer \<Rightarrow> lexer \<times> (lex_error + token)" where
  "scanQuoted l = (case lx_expect [dquote] l of
     (l1, Some e) \<Rightarrow> (l1, Inl e)
   | (l1, None) \<Rightarrow> (case lx_expect [dquote] (quoted_loop False l1) of
       (l2, Some e) \<Rightarrow> (l2, Inl (UnterminatedError (lx_position l2)))
     | (l2, None) \<Rightarrow> (let (l3, t) = lx_emit TokenQuoted l2 in (l3, Inr t))))"

definition scanUnquoted :: "lexer \<Rightarrow> lexer \<times> (lex_error + token)" where
  "scanUnquoted l = (let (l1, t) = lx_emit TokenUnquoted (unquoted_loop l) in (l1, Inr t))"

definition keep_err :: "lexer \<times> (lex_error + token) \<Rightarrow> lexer \<times> (lex_error + token)" where
  "keep_err r = (case r of (l, Inl e) \<Rightarrow> (l\<lparr>lx_err := Some e\<rparr>, Inl e) | (l, Inr t) \<Rightarrow> (l, Inr t))"

definition emit_ok :: "token_kind \<Rightarrow> lexer \<Rightarrow> lexer \<times> (lex_error + token)" where
  "emit_ok kind l = (let (l1, t) = lx_emit kind l in (l1, Inr t))"

function scan_loop :: "lexer \<Rightarrow> lexer \<times> (lex_error + token)" where
  "scan_loop l = (case lx_next l of
     (l1, None) \<Rightarrow> (l1, Inr no_token)
   | (l1, Some r) \<Rightarrow>
       if r = byte (CHR ''{'') then emit_ok TokenOpenBrace l1
       else if r = byte (CHR ''}'') then emit_ok TokenCloseBrace l1
       else if r = byte (CHR '','') then emit_ok TokenComma l1
       else if r = byte (CHR ''='') \<or> r = byte (CHR ''!'') then keep_err (scanOperator (lx_rewind l1))
       else if r = byte dquote then keep_err (scanQuoted (lx_rewind l1))
       else if \<not> isReserved r then keep_err (scanUnquoted (lx_rewind l1))
       else if is_space r then scan_loop (lx_skip l1)
       else keep_err (l1, Inl (InvalidInputError (lx_position l1))))"
  by pat_completeness auto
termination
  by (relation "measure (\<lambda>l. length (lx_input l) - lx_pos l)") (auto simp: lx_skip_def dest!: lx_next_progress [OF sym])

declare scan_loop.simps [simp del]

definition scan :: "lexer \<Rightarrow> lexer \<times> (lex_error + token)" where
  "scan l = (case lx_err l of Some e \<Rightarrow> (l, Inl e) | None \<Rightarrow> scan_loop l)"

definition peek :: "lexer \<Rightarrow> lexer \<times> (lex_error + token)" where
  "peek l = (let (l1, r) = scan l in (l\<lparr>lx_err := lx_err l1\<rparr>, r))"


section \<open>Progress\<close>

lemma lx_next_pos: "lx_next l = (l', r) \<Longrightarrow> lx_input l' = lx_input l \<and> lx_pos l' = lx_pos l + lx_width l' \<and> lx_start l' = lx_start l \<and> lx_err l' = lx_err l"
  by (auto simp: lx_next_def Let_def split: if_splits)

lemma lx_rewind_next: "lx_next l = (l', r) \<Longrightarrow> lx_pos (lx_rewind l') = lx_pos l \<and> lx_input (lx_rewind l') = lx_input l"
  using lx_next_pos [of l l' r] by (simp add: lx_rewind_def)

lemma lx_accept_pos:
  assumes "lx_accept v l = (l', b)"
  shows "lx_input l' = lx_input l" "if b then lx_pos l < lx_pos l' else lx_pos l' = lx_pos l"
proof -
  obtain l1 r where n: "lx_next l = (l1, r)" by force
  note w = lx_rewind_next [OF n] and p = lx_next_pos [OF n]
  have pr: "lx_pos l < lx_pos l1" if "contains_rune v r" using that lx_next_progress [of l l1] n by (auto simp: contains_rune_def split: option.splits)
  show "lx_input l' = lx_input l" "if b then lx_pos l < lx_pos l' else lx_pos l' = lx_pos l"
    using assms w p pr by (auto simp: lx_accept_def n split: if_splits)
qed

lemma quoted_loop_pos: "lx_pos l \<le> lx_pos (quoted_loop b l) \<and> lx_input (quoted_loop b l) = lx_input l"
proof (induction b l rule: quoted_loop.induct)
  case (1 b l)
  obtain l1 r where n: "lx_next l = (l1, r)" by force
  show ?case
  proof (cases r)
    case None
    then show ?thesis using n lx_next_pos [OF n] by (subst (1 2) quoted_loop.simps) simp
  next
    case (Some x)
    note p = lx_next_progress [OF n [unfolded Some]] and w = lx_rewind_next [OF n]
    show ?thesis using "1.IH"(1) [OF n [symmetric] Some] "1.IH"(2) [OF n [symmetric] Some] "1.IH"(3) [OF n [symmetric] Some] p w n Some
      by (subst (1 2) quoted_loop.simps) (auto intro: order_trans less_imp_le)
  qed
qed

lemma unquoted_loop_pos: "lx_pos l \<le> lx_pos (unquoted_loop l) \<and> lx_input (unquoted_loop l) = lx_input l"
proof (induction l rule: unquoted_loop.induct)
  case (1 l)
  obtain l1 r where n: "lx_next l = (l1, r)" by force
  show ?case
  proof (cases r)
    case None
    then show ?thesis using n lx_next_pos [OF n] by (subst (1 2) unquoted_loop.simps) simp
  next
    case (Some x)
    note p = lx_next_progress [OF n [unfolded Some]] and w = lx_rewind_next [OF n]
    show ?thesis using "1.IH" [OF n [symmetric] Some] p w n Some by (subst (1 2) unquoted_loop.simps) (auto intro: order_trans less_imp_le)
  qed
qed


lemma scanOperator_pos:
  assumes "scanOperator l = (l', Inr t)"
  shows "lx_pos l < lx_pos l' \<and> lx_input l' = lx_input l"
proof -
  obtain l1 b where a1: "lx_accept ''!'' l = (l1, b)" by force
  obtain l2 e where a2: "lx_accept ''='' l1 = (l2, e)" by force
  obtain l3 d where a3: "lx_accept ''~'' l2 = (l3, d)" by force
  have eq: "scanOperator l = (if b then if e then (fst (lx_emit TokenNotEquals l2), Inr (snd (lx_emit TokenNotEquals l2)))
      else if d then (fst (lx_emit TokenNotMatches l3), Inr (snd (lx_emit TokenNotMatches l3))) else (l3, Inl (ExpectedError (lx_position l3) ''=~''))
    else if e then if d then (fst (lx_emit TokenMatches l3), Inr (snd (lx_emit TokenMatches l3))) else (fst (lx_emit TokenEquals l3), Inr (snd (lx_emit TokenEquals l3)))
    else (l2, Inl (ExpectedError (lx_position l2) ''!='')))"
    by (simp add: scanOperator_def a1 a2 a3 case_prod_beta Let_def)
  have em: "lx_pos (fst (lx_emit k x)) = lx_pos x" "lx_input (fst (lx_emit k x)) = lx_input x" for k x by (simp_all add: lx_emit_def)
  have l': "l' = fst (lx_emit TokenNotEquals l2) \<and> b \<and> e \<or> b \<and> d \<and> \<not> e \<and> l' = fst (lx_emit TokenNotMatches l3)
      \<or> \<not> b \<and> e \<and> d \<and> l' = fst (lx_emit TokenMatches l3) \<or> \<not> b \<and> e \<and> \<not> d \<and> l' = fst (lx_emit TokenEquals l3)"
    using assms unfolding eq by (cases b; cases e; cases d) simp_all
  note i = lx_accept_pos(1) [OF a1] lx_accept_pos(1) [OF a2] lx_accept_pos(1) [OF a3]
  have p: "lx_pos l \<le> lx_pos l1" "lx_pos l1 \<le> lx_pos l2" "lx_pos l2 \<le> lx_pos l3" "b \<Longrightarrow> lx_pos l < lx_pos l1" "e \<Longrightarrow> lx_pos l1 < lx_pos l2"
    using lx_accept_pos(2) [OF a1] lx_accept_pos(2) [OF a2] lx_accept_pos(2) [OF a3] by (simp_all split: if_splits)
  from l' show ?thesis by (elim disjE conjE) (use p i em in simp_all)
qed

lemma lx_expect_pos:
  assumes "lx_expect v l = (l', e)"
  shows "lx_input l' = lx_input l" "e = None \<Longrightarrow> lx_pos l < lx_pos l'"
proof -
  obtain l1 r where n: "lx_next l = (l1, r)" by force
  have pr: "lx_pos l < lx_pos l1" if "contains_rune v r" using that lx_next_progress [of l l1] n by (auto simp: contains_rune_def split: option.splits)
  show "lx_input l' = lx_input l" "e = None \<Longrightarrow> lx_pos l < lx_pos l'"
    using assms lx_rewind_next [OF n] lx_next_pos [OF n] pr by (auto simp: lx_expect_def n split: if_splits)
qed

lemma scanQuoted_pos:
  assumes "scanQuoted l = (l', Inr t)"
  shows "lx_pos l < lx_pos l' \<and> lx_input l' = lx_input l"
proof -
  obtain l1 e1 where e1: "lx_expect [dquote] l = (l1, e1)" by force
  obtain l2 e2 where e2: "lx_expect [dquote] (quoted_loop False l1) = (l2, e2)" by force
  have "e1 = None" "e2 = None" "lx_pos l' = lx_pos l2" "lx_input l' = lx_input l2"
    using assms by (auto simp: scanQuoted_def e1 e2 lx_emit_def split: option.splits)
  then show ?thesis using lx_expect_pos [OF e1] lx_expect_pos [OF e2] quoted_loop_pos [of l1 False] by auto
qed

lemma scanUnquoted_pos:
  assumes "scanUnquoted l = (l', Inr t)" "lx_next l = (l1, Some r)" "\<not> isReserved r"
  shows "lx_pos l < lx_pos l' \<and> lx_input l' = lx_input l"
proof -
  have "unquoted_loop l = unquoted_loop l1" using assms(2,3) by (subst unquoted_loop.simps) simp
  then show ?thesis using assms(1) lx_next_progress [OF assms(2)] unquoted_loop_pos [of l1] by (auto simp: scanUnquoted_def lx_emit_def)
qed

lemma lx_next_again: "lx_next l = (l1, Some r) \<Longrightarrow> \<exists>l2. lx_next (lx_rewind l1) = (l2, Some r)"
  using lx_rewind_next [of l l1 "Some r"] by (auto simp: lx_next_def Let_def split: if_splits)

lemma keep_err_ok: "keep_err x = (l', Inr t) \<longleftrightarrow> x = (l', Inr t)"
  by (auto simp: keep_err_def split: prod.splits sum.splits)

lemma scan_loop_pos: "scan_loop l = (l', Inr t) \<Longrightarrow> tk_kind t \<noteq> TokenEOF \<Longrightarrow> lx_pos l < lx_pos l' \<and> lx_pos l < length (lx_input l) \<and> lx_input l' = lx_input l"
proof (induction l rule: scan_loop.induct)
  case (1 l)
  obtain l1 r0 where n0: "lx_next l = (l1, r0)" by force
  then obtain r where n: "lx_next l = (l1, Some r)" using "1.prems" by (subst (asm) scan_loop.simps) (auto simp: no_token_def split: option.splits)
  note p = lx_next_progress [OF n] and w = lx_rewind_next [OF n]
  obtain l2 where again: "lx_next (lx_rewind l1) = (l2, Some r)" using lx_next_again [OF n] by blast
  have em: "lx_pos l < lx_pos l' \<and> lx_input l' = lx_input l" if "emit_ok k l1 = (l', Inr t)" for k
    using that p by (auto simp: emit_ok_def lx_emit_def)
  show ?case
  proof (cases "is_space r \<and> r \<noteq> byte (CHR ''{'') \<and> r \<noteq> byte (CHR ''}'') \<and> r \<noteq> byte (CHR '','') \<and> r \<noteq> byte (CHR ''='') \<and> r \<noteq> byte (CHR ''!'') \<and> r \<noteq> byte dquote \<and> isReserved r")
    case True
    then have "scan_loop (lx_skip l1) = (l', Inr t)" using "1.prems"(1) n by (subst (asm) scan_loop.simps) (simp split: if_splits)
    then show ?thesis using "1.IH" [OF n [symmetric] refl] True "1.prems"(2) p by (auto simp: lx_skip_def)
  next
    case False
    then have "lx_pos l < lx_pos l' \<and> lx_input l' = lx_input l"
      using "1.prems"(1) n em w scanOperator_pos [of "lx_rewind l1" l' t] scanQuoted_pos [of "lx_rewind l1" l' t] scanUnquoted_pos [OF _ again, of l' t]
      by (subst (asm) scan_loop.simps) (auto simp: keep_err_ok split: if_splits)
    then show ?thesis using p by simp
  qed
qed

lemma scan_pos: "scan l = (l', Inr t) \<Longrightarrow> tk_kind t \<noteq> TokenEOF \<Longrightarrow> lx_pos l < lx_pos l' \<and> lx_pos l < length (lx_input l) \<and> lx_input l' = lx_input l"
  by (auto simp: scan_def scan_loop_pos split: option.splits)

end
