(* ===== verification/Matcher_Parse.thy ===== *)
theory Matcher_Parse
  imports Matcher_Lexer
begin

text \<open>
  The UTF-8 matchers parser, \<^verbatim>\<open>matcher/parse/parse.go\<close>, and the choice between it and the classic parser of
  \<^verbatim>\<open>pkg/labels\<close>, \<^verbatim>\<open>matcher/compat/parse.go\<close>. A parse function is a value of \<^verbatim>\<open>parse_fn\<close> and one step of the automaton
  runs it; a panic is an outcome of its own. The automaton ends on every input, since only the
  comma leads back to a matcher and it is consumed. What is printed is read back, in every mode.
\<close>

section \<open>The automaton\<close>

datatype parse_error = ErrLex lex_error | ErrEOF | ErrUnexpected token | ErrInvalidInput token | ErrCreateMatcher
  | ErrExpectedEOF parse_error | ErrNotEOF token | ErrNoOpenBrace | ErrNoCloseBrace parse_error
  | ErrNoLabelName parse_error | ErrNoLabelValue parse_error | ErrNoOperator parse_error
  | ErrExpectedComma parse_error | ErrExpectedCommaOrCloseBrace parse_error | ErrExpectedMatcherOrCloseBrace parse_error
  | ErrParserPanic | ErrNoMatchers | ErrSeveralMatchers nat

datatype 'a outcome = Panicked | Failed parse_error | Done 'a

datatype parse_fn = ParseOpenBrace | ParseCloseBrace | ParseMatcherFn | ParseEndOfMatcher | ParseComma | ParseEOF

record parser =
  ps_matchers :: matchers
  ps_hasOpenBrace :: bool
  ps_lexer :: lexer

definition acceptPeek :: "token_kind list \<Rightarrow> lexer \<Rightarrow> lexer \<times> bool outcome" where
  "acceptPeek kinds l = (case peek l of
     (l1, Inl e) \<Rightarrow> (l1, Failed (ErrLex e))
   | (l1, Inr t) \<Rightarrow> if isEOF t then (l1, Failed ErrEOF) else (l1, Done (isOneOf kinds t)))"

definition accept :: "token_kind list \<Rightarrow> lexer \<Rightarrow> lexer \<times> bool outcome" where
  "accept kinds l = (case acceptPeek kinds l of
     (l1, Done True) \<Rightarrow> (case scan l1 of (l2, Inl e) \<Rightarrow> (l2, Panicked) | (l2, Inr t) \<Rightarrow> (l2, Done True))
   | r \<Rightarrow> r)"

definition expectPeek :: "token_kind list \<Rightarrow> lexer \<Rightarrow> lexer \<times> token outcome" where
  "expectPeek kinds l = (case peek l of
     (l1, Inl e) \<Rightarrow> (l1, Failed (ErrLex e))
   | (l1, Inr t) \<Rightarrow>
       if isEOF t then (l1, Failed ErrEOF)
       else if \<not> isOneOf kinds t then (l1, Failed (ErrUnexpected t))
       else (l1, Done t))"

definition expect :: "token_kind list \<Rightarrow> lexer \<Rightarrow> lexer \<times> token outcome" where
  "expect kinds l = (case expectPeek kinds l of
     (l1, Done t) \<Rightarrow> (case scan l1 of (l2, Inl e) \<Rightarrow> (l2, Panicked) | (l2, Inr t') \<Rightarrow> (l2, Done t))
   | r \<Rightarrow> r)"

definition parseOpenBrace :: "parser \<Rightarrow> parser \<times> parse_fn option outcome" where
  "parseOpenBrace p = (case accept [TokenOpenBrace] (ps_lexer p) of
     (l1, Panicked) \<Rightarrow> (p\<lparr>ps_lexer := l1\<rparr>, Panicked)
   | (l1, Failed e) \<Rightarrow> (p\<lparr>ps_lexer := l1, ps_hasOpenBrace := False\<rparr>, if e = ErrEOF then Done (Some ParseEOF) else Failed e)
   | (l1, Done open) \<Rightarrow>
       (case acceptPeek [TokenCloseBrace] l1 of
          (l2, Panicked) \<Rightarrow> (p\<lparr>ps_lexer := l2, ps_hasOpenBrace := open\<rparr>, Panicked)
        | (l2, Failed e) \<Rightarrow> (p\<lparr>ps_lexer := l2, ps_hasOpenBrace := open\<rparr>, if e = ErrEOF then Done (Some ParseCloseBrace) else Failed e)
        | (l2, Done close) \<Rightarrow> (p\<lparr>ps_lexer := l2, ps_hasOpenBrace := open\<rparr>,
            Done (Some (if close then ParseCloseBrace else ParseMatcherFn)))))"

definition parseCloseBrace :: "parser \<Rightarrow> parser \<times> parse_fn option outcome" where
  "parseCloseBrace p = (case expect [TokenCloseBrace] (ps_lexer p) of
     (l1, Panicked) \<Rightarrow> (p\<lparr>ps_lexer := l1\<rparr>, Panicked)
   | (l1, Failed e) \<Rightarrow> (p\<lparr>ps_lexer := l1\<rparr>, if ps_hasOpenBrace p then Failed (ErrNoCloseBrace e) else Done (Some ParseEOF))
   | (l1, Done t) \<Rightarrow> (p\<lparr>ps_lexer := l1\<rparr>, if ps_hasOpenBrace p then Done (Some ParseEOF) else Failed ErrNoOpenBrace))"

fun operator_type :: "token_kind \<Rightarrow> match_type option" where
  "operator_type TokenEquals = Some MatchEqual"
| "operator_type TokenNotEquals = Some MatchNotEqual"
| "operator_type TokenMatches = Some MatchRegexp"
| "operator_type TokenNotMatches = Some MatchNotRegexp"
| "operator_type _ = None"

definition parseMatcher_value :: "regexp_engine \<Rightarrow> match_type \<Rightarrow> string \<Rightarrow> parser \<Rightarrow> parser \<times> parse_fn option outcome" where
  "parseMatcher_value rx matchTy matchName p = (case expect [TokenUnquoted, TokenQuoted] (ps_lexer p) of
     (l1, Panicked) \<Rightarrow> (p\<lparr>ps_lexer := l1\<rparr>, Panicked)
   | (l1, Failed e) \<Rightarrow> (p\<lparr>ps_lexer := l1\<rparr>, Failed (ErrNoLabelValue e))
   | (l1, Done t) \<Rightarrow> (case token_unquote t of
         None \<Rightarrow> (p\<lparr>ps_lexer := l1\<rparr>, Failed (ErrInvalidInput t))
       | Some matchValue \<Rightarrow> (case NewMatcher rx matchTy matchName matchValue of
           None \<Rightarrow> (p\<lparr>ps_lexer := l1\<rparr>, Failed ErrCreateMatcher)
         | Some m \<Rightarrow> (p\<lparr>ps_lexer := l1, ps_matchers := ps_matchers p @ [m]\<rparr>, Done (Some ParseEndOfMatcher)))))"

definition parseMatcher_operator :: "regexp_engine \<Rightarrow> string \<Rightarrow> parser \<Rightarrow> parser \<times> parse_fn option outcome" where
  "parseMatcher_operator rx matchName p =
     (case expect [TokenEquals, TokenNotEquals, TokenMatches, TokenNotMatches] (ps_lexer p) of
     (l1, Panicked) \<Rightarrow> (p\<lparr>ps_lexer := l1\<rparr>, Panicked)
   | (l1, Failed e) \<Rightarrow> (p\<lparr>ps_lexer := l1\<rparr>, Failed (ErrNoOperator e))
   | (l1, Done t) \<Rightarrow> (case operator_type (tk_kind t) of
         None \<Rightarrow> (p\<lparr>ps_lexer := l1\<rparr>, Panicked)
       | Some matchTy \<Rightarrow> parseMatcher_value rx matchTy matchName (p\<lparr>ps_lexer := l1\<rparr>)))"

definition parseMatcher :: "regexp_engine \<Rightarrow> parser \<Rightarrow> parser \<times> parse_fn option outcome" where
  "parseMatcher rx p = (case expect [TokenQuoted, TokenUnquoted] (ps_lexer p) of
     (l1, Panicked) \<Rightarrow> (p\<lparr>ps_lexer := l1\<rparr>, Panicked)
   | (l1, Failed e) \<Rightarrow> (p\<lparr>ps_lexer := l1\<rparr>, Failed (ErrNoLabelName e))
   | (l1, Done t) \<Rightarrow> (case token_unquote t of
         None \<Rightarrow> (p\<lparr>ps_lexer := l1\<rparr>, Failed (ErrInvalidInput t))
       | Some matchName \<Rightarrow> parseMatcher_operator rx matchName (p\<lparr>ps_lexer := l1\<rparr>)))"

definition parseEndOfMatcher :: "parser \<Rightarrow> parser \<times> parse_fn option outcome" where
  "parseEndOfMatcher p = (case expectPeek [TokenComma, TokenCloseBrace] (ps_lexer p) of
     (l1, Panicked) \<Rightarrow> (p\<lparr>ps_lexer := l1\<rparr>, Panicked)
   | (l1, Failed e) \<Rightarrow> (p\<lparr>ps_lexer := l1\<rparr>,
       if e = ErrEOF then Done (Some ParseCloseBrace) else Failed (ErrExpectedCommaOrCloseBrace e))
   | (l1, Done t) \<Rightarrow> (p\<lparr>ps_lexer := l1\<rparr>,
       if tk_kind t = TokenComma then Done (Some ParseComma)
       else if tk_kind t = TokenCloseBrace then Done (Some ParseCloseBrace)
       else Panicked))"

definition parseComma :: "parser \<Rightarrow> parser \<times> parse_fn option outcome" where
  "parseComma p = (case expect [TokenComma] (ps_lexer p) of
     (l1, Panicked) \<Rightarrow> (p\<lparr>ps_lexer := l1\<rparr>, Panicked)
   | (l1, Failed e) \<Rightarrow> (p\<lparr>ps_lexer := l1\<rparr>, Failed (ErrExpectedComma e))
   | (l1, Done _) \<Rightarrow> (case expectPeek [TokenCloseBrace, TokenUnquoted, TokenQuoted] l1 of
         (l2, Panicked) \<Rightarrow> (p\<lparr>ps_lexer := l2\<rparr>, Panicked)
       | (l2, Failed e) \<Rightarrow> (p\<lparr>ps_lexer := l2\<rparr>,
           if e = ErrEOF then Done (Some ParseCloseBrace) else Failed (ErrExpectedMatcherOrCloseBrace e))
       | (l2, Done t) \<Rightarrow> (p\<lparr>ps_lexer := l2\<rparr>,
           Done (Some (if tk_kind t = TokenCloseBrace then ParseCloseBrace else ParseMatcherFn)))))"

definition parseEOF :: "parser \<Rightarrow> parser \<times> parse_fn option outcome" where
  "parseEOF p = (case scan (ps_lexer p) of
     (l1, Inl e) \<Rightarrow> (p\<lparr>ps_lexer := l1\<rparr>, Failed (ErrExpectedEOF (ErrLex e)))
   | (l1, Inr t) \<Rightarrow> (p\<lparr>ps_lexer := l1\<rparr>, if isEOF t then Done None else Failed (ErrNotEOF t)))"

fun parse_step :: "regexp_engine \<Rightarrow> parse_fn \<Rightarrow> parser \<Rightarrow> parser \<times> parse_fn option outcome" where
  "parse_step rx ParseOpenBrace p = parseOpenBrace p"
| "parse_step rx ParseCloseBrace p = parseCloseBrace p"
| "parse_step rx ParseMatcherFn p = parseMatcher rx p"
| "parse_step rx ParseEndOfMatcher p = parseEndOfMatcher p"
| "parse_step rx ParseComma p = parseComma p"
| "parse_step rx ParseEOF p = parseEOF p"

section \<open>The automaton ends\<close>

definition lx_rest :: "lexer \<Rightarrow> nat" where
  "lx_rest l = length (lx_input l) - lx_pos l"

fun fn_rank :: "parse_fn \<Rightarrow> nat" where
  "fn_rank ParseOpenBrace = 5"
| "fn_rank ParseMatcherFn = 4"
| "fn_rank ParseEndOfMatcher = 3"
| "fn_rank ParseComma = 2"
| "fn_rank ParseCloseBrace = 1"
| "fn_rank ParseEOF = 0"

text \<open>Reading a token leaves no error behind, so a token that was peeked can be scanned.\<close>

lemma lx_basic_err:
  "lx_err (fst (lx_next l)) = lx_err l" "lx_err (lx_rewind l) = lx_err l" "lx_err (fst (lx_emit k l)) = lx_err l"
  "lx_err (fst (lx_accept v l)) = lx_err l" "lx_err (fst (lx_expect v l)) = lx_err l" "lx_err (lx_skip l) = lx_err l"
  by (simp_all add: lx_next_def lx_rewind_def lx_emit_def lx_accept_def lx_expect_def lx_skip_def Let_def)

lemma quoted_loop_err: "lx_err (quoted_loop b l) = lx_err l"
proof (induction b l rule: quoted_loop.induct)
  case (1 b l)
  obtain l1 r where n: "lx_next l = (l1, r)" by force
  have e: "lx_err l1 = lx_err l" using lx_basic_err(1) [of l] n by simp
  show ?case
  proof (cases r)
    case None
    then show ?thesis using n e by (subst quoted_loop.simps) simp
  next
    case (Some x)
    show ?thesis using "1.IH"(1) [OF n [symmetric] Some] "1.IH"(2) [OF n [symmetric] Some] "1.IH"(3) [OF n [symmetric] Some] e n Some
      by (subst quoted_loop.simps) (simp add: lx_basic_err)
  qed
qed

lemma unquoted_loop_err: "lx_err (unquoted_loop l) = lx_err l"
proof (induction l rule: unquoted_loop.induct)
  case (1 l)
  obtain l1 r where n: "lx_next l = (l1, r)" by force
  have e: "lx_err l1 = lx_err l" using lx_basic_err(1) [of l] n by simp
  show ?case
  proof (cases r)
    case None
    then show ?thesis using n e by (subst unquoted_loop.simps) simp
  next
    case (Some x)
    show ?thesis using "1.IH" [OF n [symmetric] Some] e n Some by (subst unquoted_loop.simps) (simp add: lx_basic_err)
  qed
qed

lemma scan_parts_err:
  "lx_err (fst (scanOperator l)) = lx_err l" "lx_err (fst (scanQuoted l)) = lx_err l" "lx_err (fst (scanUnquoted l)) = lx_err l"
  "lx_err (fst (emit_ok k l)) = lx_err l"
  by (simp_all add: scanOperator_def scanQuoted_def scanUnquoted_def emit_ok_def Let_def case_prod_beta lx_basic_err quoted_loop_err unquoted_loop_err
    split: option.splits)

lemma scan_loop_err: "scan_loop l = (l', Inr t) \<Longrightarrow> lx_err l' = lx_err l"
proof (induction l rule: scan_loop.induct)
  case (1 l)
  obtain l1 r0 where n0: "lx_next l = (l1, r0)" by force
  have e: "lx_err l1 = lx_err l" using lx_basic_err(1) [of l] n0 by simp
  have part: "lx_err l' = lx_err l" if "x = (l', Inr t)" "lx_err (fst x) = lx_err l" for x :: "lexer \<times> (lex_error + token)"
    using that by simp
  show ?case
  proof (cases r0)
    case None
    then show ?thesis using "1.prems" n0 e by (subst (asm) scan_loop.simps) simp
  next
    case (Some r)
    note n = n0 [unfolded Some]
    show ?thesis
    proof (cases "is_space r \<and> r \<noteq> byte (CHR ''{'') \<and> r \<noteq> byte (CHR ''}'') \<and> r \<noteq> byte (CHR '','') \<and> r \<noteq> byte (CHR ''='') \<and> r \<noteq> byte (CHR ''!'') \<and> r \<noteq> byte dquote \<and> isReserved r")
      case True
      then have "scan_loop (lx_skip l1) = (l', Inr t)" using "1.prems"(1) n by (subst (asm) scan_loop.simps) (simp split: if_splits)
      then show ?thesis using "1.IH" [OF n [symmetric] refl] True e by (auto simp: lx_basic_err)
    next
      case False
      then have "emit_ok TokenOpenBrace l1 = (l', Inr t) \<or> emit_ok TokenCloseBrace l1 = (l', Inr t) \<or> emit_ok TokenComma l1 = (l', Inr t)
        \<or> scanOperator (lx_rewind l1) = (l', Inr t) \<or> scanQuoted (lx_rewind l1) = (l', Inr t) \<or> scanUnquoted (lx_rewind l1) = (l', Inr t)"
        using "1.prems"(1) n by (subst (asm) scan_loop.simps) (auto simp: keep_err_ok split: if_splits)
      then show ?thesis by (elim disjE) (erule part, simp add: scan_parts_err lx_basic_err e)+
    qed
  qed
qed

lemma scan_err: "scan l = (l', Inr t) \<Longrightarrow> lx_err l = None \<and> lx_err l' = None"
  using scan_loop_err [of l l' t] by (auto simp: scan_def split: option.splits)

lemma peek_Inr: "peek l = (l', Inr t) \<Longrightarrow> l' = l \<and> scan l = (fst (scan l), Inr t)"
  using scan_err [of l "fst (scan l)" t] by (auto simp: peek_def split: prod.splits)

lemma peek_rest: "peek l = (l', r) \<Longrightarrow> lx_rest l' = lx_rest l"
  by (auto simp: peek_def lx_rest_def split: prod.splits)

lemma scan_rest: "scan l = (l', Inr t) \<Longrightarrow> \<not> isEOF t \<Longrightarrow> lx_rest l' < lx_rest l"
  using scan_pos [of l l' t] by (auto simp: lx_rest_def isEOF_def)

lemma expectPeek_rest: "expectPeek ks l = (l', r) \<Longrightarrow> lx_rest l' = lx_rest l"
  by (auto simp: expectPeek_def dest: peek_rest split: prod.splits sum.splits if_splits)

lemma acceptPeek_rest: "acceptPeek ks l = (l', r) \<Longrightarrow> lx_rest l' = lx_rest l"
  by (auto simp: acceptPeek_def dest: peek_rest split: prod.splits sum.splits if_splits)

lemma expectPeek_Done:
  assumes "expectPeek ks l = (l', Done t)"
  shows "l' = l" "scan l = (fst (scan l), Inr t)" "\<not> isEOF t" "isOneOf ks t"
proof -
  have p: "peek l = (l', Inr t)" and r: "\<not> isEOF t" "isOneOf ks t"
    using assms by (auto simp: expectPeek_def split: prod.splits sum.splits if_splits)
  show "l' = l" "scan l = (fst (scan l), Inr t)" "\<not> isEOF t" "isOneOf ks t" using peek_Inr [OF p] r by simp_all
qed

lemma acceptPeek_Done:
  assumes "acceptPeek ks l = (l', Done b)"
  shows "l' = l" "\<exists>t. scan l = (fst (scan l), Inr t) \<and> \<not> isEOF t \<and> b = isOneOf ks t"
proof -
  obtain t where p: "peek l = (l', Inr t)" and r: "\<not> isEOF t" "b = isOneOf ks t"
    using assms by (auto simp: acceptPeek_def split: prod.splits sum.splits if_splits)
  show "l' = l" "\<exists>t. scan l = (fst (scan l), Inr t) \<and> \<not> isEOF t \<and> b = isOneOf ks t" using peek_Inr [OF p] r by auto
qed

lemma expect_Done:
  assumes "expect ks l = (l', Done t)"
  shows "scan l = (l', Inr t)" "\<not> isEOF t" "isOneOf ks t" "lx_rest l' < lx_rest l"
proof -
  obtain l1 where p: "expectPeek ks l = (l1, Done t)" and s: "\<exists>t'. scan l1 = (l', Inr t')"
    using assms by (auto simp: expect_def split: prod.splits outcome.splits sum.splits)
  note d = expectPeek_Done [OF p]
  show sc: "scan l = (l', Inr t)" using s d(1,2) by auto
  show "\<not> isEOF t" "isOneOf ks t" using d by simp_all
  show "lx_rest l' < lx_rest l" using scan_rest [OF sc] d(3) by simp
qed

lemma expect_Panicked: "snd (expect ks l) \<noteq> Panicked"
proof
  assume "snd (expect ks l) = Panicked"
  then consider "snd (expectPeek ks l) = Panicked" | l1 t e where "expectPeek ks l = (l1, Done t)" "snd (scan l1) = Inl e"
    by (auto simp: expect_def split: prod.splits outcome.splits sum.splits)
  then show False
  proof cases
    case 1
    then show ?thesis by (auto simp: expectPeek_def split: prod.splits sum.splits if_splits)
  next
    case (2 l1 t e)
    then show ?thesis using expectPeek_Done [OF 2(1)] by (metis Inl_Inr_False snd_conv)
  qed
qed

lemma accept_Panicked: "snd (accept ks l) \<noteq> Panicked"
proof
  assume "snd (accept ks l) = Panicked"
  then consider "snd (acceptPeek ks l) = Panicked" | l1 e where "acceptPeek ks l = (l1, Done True)" "snd (scan l1) = Inl e"
    by (auto simp: accept_def split: prod.splits outcome.splits sum.splits bool.splits)
  then show False
  proof cases
    case 1
    then show ?thesis by (auto simp: acceptPeek_def split: prod.splits sum.splits if_splits)
  next
    case (2 l1 e)
    then show ?thesis using acceptPeek_Done [OF 2(1)] by (metis Inl_Inr_False snd_conv)
  qed
qed

lemma expect_rest: "expect ks l = (l', r) \<Longrightarrow> r \<noteq> Panicked \<Longrightarrow> lx_rest l' \<le> lx_rest l"
proof -
  assume e: "expect ks l = (l', r)" and r: "r \<noteq> Panicked"
  show "lx_rest l' \<le> lx_rest l"
  proof (cases r)
    case (Done t)
    then show ?thesis using expect_Done(4) [of ks l l' t] e by simp
  next
    case (Failed x)
    then have "expectPeek ks l = (l', Failed x)" using e by (auto simp: expect_def split: prod.splits outcome.splits sum.splits)
    then show ?thesis using expectPeek_rest by fastforce
  qed (use r in simp)
qed

lemma accept_rest: "accept ks l = (l', r) \<Longrightarrow> r \<noteq> Panicked \<Longrightarrow> lx_rest l' \<le> lx_rest l"
proof -
  assume e: "accept ks l = (l', r)" and r: "r \<noteq> Panicked"
  obtain l1 r1 where p: "acceptPeek ks l = (l1, r1)" by force
  show "lx_rest l' \<le> lx_rest l"
  proof (cases "r1 = Done True")
    case True
    obtain t where t: "scan l = (fst (scan l), Inr t)" "\<not> isEOF t" and l1: "l1 = l" using acceptPeek_Done [OF p [unfolded True]] by blast
    have "l' = fst (scan l)" using e t(1) l1 by (auto simp: accept_def p True split: prod.splits sum.splits)
    then show ?thesis using scan_rest [OF t] by simp
  next
    case False
    then have "l' = l1" using e by (auto simp: accept_def p split: prod.splits outcome.splits bool.splits)
    then show ?thesis using acceptPeek_rest [OF p] by simp
  qed
qed

lemma parse_step_decreases:
  assumes "parse_step rx fn p = (p', Done (Some fn'))"
  shows "lx_rest (ps_lexer p') < lx_rest (ps_lexer p) \<or> lx_rest (ps_lexer p') = lx_rest (ps_lexer p) \<and> fn_rank fn' < fn_rank fn"
proof (cases fn)
  case ParseOpenBrace
  obtain l1 r1 where a: "accept [TokenOpenBrace] (ps_lexer p) = (l1, r1)" by force
  obtain l2 r2 where b: "acceptPeek [TokenCloseBrace] l1 = (l2, r2)" by force
  have "r1 \<noteq> Panicked" "ps_lexer p' = l1 \<or> ps_lexer p' = l2" "fn_rank fn' < 5"
    using assms by (auto simp: ParseOpenBrace parseOpenBrace_def a b split: outcome.splits if_splits)
  then show ?thesis using accept_rest [OF a] acceptPeek_rest [OF b] ParseOpenBrace by auto
next
  case ParseCloseBrace
  obtain l1 r1 where a: "expect [TokenCloseBrace] (ps_lexer p) = (l1, r1)" by force
  have "r1 \<noteq> Panicked" "ps_lexer p' = l1" "fn_rank fn' < 1"
    using assms by (auto simp: ParseCloseBrace parseCloseBrace_def a split: outcome.splits if_splits)
  then show ?thesis using expect_rest [OF a] ParseCloseBrace by auto
next
  case ParseMatcherFn
  obtain l1 r1 where a: "expect [TokenQuoted, TokenUnquoted] (ps_lexer p) = (l1, r1)" by force
  obtain l2 r2 where b: "expect [TokenEquals, TokenNotEquals, TokenMatches, TokenNotMatches] l1 = (l2, r2)" by force
  obtain l3 r3 where c: "expect [TokenUnquoted, TokenQuoted] l2 = (l3, r3)" by force
  have "r1 \<noteq> Panicked" "r2 \<noteq> Panicked" "r3 \<noteq> Panicked" "ps_lexer p' = l3" "fn' = ParseEndOfMatcher"
    using assms by (auto simp: ParseMatcherFn parseMatcher_def parseMatcher_operator_def parseMatcher_value_def a b c split: outcome.splits option.splits if_splits)
  then show ?thesis using expect_rest [OF a] expect_rest [OF b] expect_rest [OF c] ParseMatcherFn by auto
next
  case ParseEndOfMatcher
  obtain l1 r1 where a: "expectPeek [TokenComma, TokenCloseBrace] (ps_lexer p) = (l1, r1)" by force
  have "ps_lexer p' = l1" "fn_rank fn' < 3"
    using assms by (auto simp: ParseEndOfMatcher parseEndOfMatcher_def a split: outcome.splits if_splits)
  then show ?thesis using expectPeek_rest [OF a] ParseEndOfMatcher by auto
next
  case ParseComma
  obtain l1 r1 where a: "expect [TokenComma] (ps_lexer p) = (l1, r1)" by force
  obtain l2 r2 where b: "expectPeek [TokenCloseBrace, TokenUnquoted, TokenQuoted] l1 = (l2, r2)" by force
  have "\<exists>t. r1 = Done t" "ps_lexer p' = l2"
    using assms by (auto simp: ParseComma parseComma_def a b split: outcome.splits if_splits)
  then show ?thesis using expect_Done(4) [of _ _ l1] a expectPeek_rest [OF b] by auto
next
  case ParseEOF
  then show ?thesis using assms by (auto simp: parseEOF_def split: prod.splits sum.splits if_splits)
qed

function parse :: "regexp_engine \<Rightarrow> parse_fn \<Rightarrow> parser \<Rightarrow> matchers outcome" where
  "parse rx fn p = (case parse_step rx fn p of
     (p', Panicked) \<Rightarrow> Panicked
   | (p', Failed e) \<Rightarrow> Failed e
   | (p', Done None) \<Rightarrow> Done (ps_matchers p')
   | (p', Done (Some fn')) \<Rightarrow> parse rx fn' p')"
  by pat_completeness auto
termination
  by (relation "measures [\<lambda>(_, _, p). lx_rest (ps_lexer p), \<lambda>(_, fn, _). fn_rank fn]") (auto dest!: parse_step_decreases [OF sym])

declare parse.simps [simp del]

definition parse_Matchers :: "regexp_engine \<Rightarrow> string \<Rightarrow> parse_error + matchers" where
  "parse_Matchers rx input =
     (case parse rx ParseOpenBrace \<lparr>ps_matchers = [], ps_hasOpenBrace = False, ps_lexer = new_lexer input\<rparr> of
        Panicked \<Rightarrow> Inl ErrParserPanic
      | Failed e \<Rightarrow> Inl e
      | Done ms \<Rightarrow> Inr ms)"

definition parse_Matcher :: "regexp_engine \<Rightarrow> string \<Rightarrow> parse_error + matcher" where
  "parse_Matcher rx input = (case parse_Matchers rx input of
     Inl e \<Rightarrow> Inl e
   | Inr [m] \<Rightarrow> Inr m
   | Inr [] \<Rightarrow> Inl ErrNoMatchers
   | Inr ms \<Rightarrow> Inl (ErrSeveralMatchers (length ms)))"

section \<open>The parser does not panic\<close>

lemma peek_no_panic: "acceptPeek ks l \<noteq> (l', Panicked)" "expectPeek ks l \<noteq> (l', Panicked)"
  by (auto simp: acceptPeek_def expectPeek_def split: prod.splits sum.splits if_splits)

lemma take_no_panic: "accept ks l \<noteq> (l', Panicked)" "expect ks l \<noteq> (l', Panicked)"
  using accept_Panicked [of ks l] expect_Panicked [of ks l] by auto

lemma parseMatcher_no_panic: "parseMatcher rx p \<noteq> (p', Panicked)"
proof -
  have v: "parseMatcher_value rx ty n q \<noteq> (p', Panicked)" for ty n q
    by (auto simp: parseMatcher_value_def take_no_panic split: prod.splits outcome.splits option.splits)
  have "parseMatcher_operator rx n q \<noteq> (p', Panicked)" for n q
  proof -
    obtain l1 r1 where a: "expect [TokenEquals, TokenNotEquals, TokenMatches, TokenNotMatches] (ps_lexer q) = (l1, r1)" by force
    have "operator_type (tk_kind t) \<noteq> None" if "r1 = Done t" for t
      using expect_Done(3) [OF a [unfolded that]] by (auto simp: isOneOf_def)
    moreover have "r1 \<noteq> Panicked" using a take_no_panic(2) by metis
    ultimately show ?thesis using v by (auto simp: parseMatcher_operator_def a split: outcome.splits option.splits)
  qed
  then show ?thesis by (auto simp: parseMatcher_def take_no_panic split: prod.splits outcome.splits option.splits)
qed

lemma parse_step_no_panic: "parse_step rx fn p \<noteq> (p', Panicked)"
proof (cases fn)
  case ParseOpenBrace
  then show ?thesis by (auto simp: parseOpenBrace_def take_no_panic peek_no_panic split: prod.splits outcome.splits)
next
  case ParseCloseBrace
  then show ?thesis by (auto simp: parseCloseBrace_def take_no_panic split: prod.splits outcome.splits)
next
  case ParseMatcherFn
  then show ?thesis by (simp add: parseMatcher_no_panic)
next
  case ParseEndOfMatcher
  obtain l1 r1 where a: "expectPeek [TokenComma, TokenCloseBrace] (ps_lexer p) = (l1, r1)" by force
  have "tk_kind t = TokenComma \<or> tk_kind t = TokenCloseBrace" if "r1 = Done t" for t
    using expectPeek_Done(4) [OF a [unfolded that]] by (auto simp: isOneOf_def)
  moreover have "r1 \<noteq> Panicked" using a peek_no_panic(2) by metis
  ultimately show ?thesis by (auto simp: ParseEndOfMatcher parseEndOfMatcher_def a split: outcome.splits)
next
  case ParseComma
  then show ?thesis by (auto simp: parseComma_def take_no_panic peek_no_panic split: prod.splits outcome.splits)
next
  case ParseEOF
  then show ?thesis by (auto simp: parseEOF_def split: prod.splits sum.splits)
qed

text \<open>
  C26: the automaton of the UTF-8 parser ends on every input without reaching one of its panics: a
  token that was peeked can be scanned, and only tokens of the expected kinds come back.
\<close>

lemma parser_never_panics: "parse rx fn p \<noteq> Panicked"
proof (induction rx fn p rule: parse.induct)
  case (1 rx fn p)
  obtain p' r where s: "parse_step rx fn p = (p', r)" by force
  then have "r \<noteq> Panicked" using parse_step_no_panic by metis
  then show ?case using "1.IH" [OF s [symmetric]] s by (subst parse.simps) (auto split: outcome.splits option.splits)
qed

section \<open>Reading what was printed\<close>

text \<open>The lexer has read the text of the current token and has some text before it.\<close>

definition lx_on :: "lexer \<Rightarrow> string \<Rightarrow> string \<Rightarrow> bool" where
  "lx_on l tok s \<longleftrightarrow> lx_err l = None \<and> (\<exists>pre. lx_input l = pre @ tok @ s \<and> lx_start l = length pre \<and> lx_pos l = length (pre @ tok))"

definition chunk :: "string \<Rightarrow> bool" where
  "chunk ch \<longleftrightarrow> ch \<noteq> [] \<and> (\<forall>t. rune_width (ch @ t) = length ch)"

lemma chunk_ascii: "byte c < 128 \<Longrightarrow> chunk [c]"
  by (simp add: chunk_def)

lemma next_chunk:
  assumes "chunk ch" "lx_on l tok (ch @ s)"
  shows "\<exists>l1. lx_next l = (l1, Some (rune_of ch)) \<and> lx_on l1 (tok @ ch) s \<and> lx_on (lx_rewind l1) tok (ch @ s)"
proof -
  obtain pre where l: "lx_input l = pre @ tok @ ch @ s" "lx_start l = length pre" "lx_pos l = length (pre @ tok)" "lx_err l = None"
    using assms(2) by (auto simp: lx_on_def)
  have w: "next_width (ch @ s) = length ch" "ch \<noteq> []" using assms(1) by (auto simp: chunk_def next_width_def max_def Suc_le_eq)
  have d: "drop (lx_pos l) (lx_input l) = ch @ s" using l by simp
  show ?thesis
    by (rule exI [of _ "fst (lx_next l)"]) (use l w d in \<open>auto simp: lx_next_def lx_rewind_def lx_on_def Let_def\<close>)
qed

lemma next_ascii:
  assumes "byte c < 128" "lx_on l tok (c # s)"
  shows "\<exists>l1. lx_next l = (l1, Some (byte c)) \<and> lx_on l1 (tok @ [c]) s \<and> lx_on (lx_rewind l1) tok (c # s)"
  using next_chunk [OF chunk_ascii [OF assms(1)], of l tok s] assms by simp

lemma next_end: "lx_on l tok [] \<Longrightarrow> \<exists>l1. lx_next l = (l1, None) \<and> lx_on l1 tok []"
  by (auto simp: lx_on_def lx_next_def)

lemma contains_ascii: "contains_rune v (Some (byte c)) \<longleftrightarrow> c \<in> set v"
  by (auto simp: contains_rune_def)

lemma accept_ascii:
  assumes "byte c < 128" "lx_on l tok (c # s)"
  shows "\<exists>l1. lx_accept v l = (l1, c \<in> set v) \<and> lx_on l1 (if c \<in> set v then tok @ [c] else tok) (if c \<in> set v then s else c # s)"
proof -
  obtain l1 where n: "lx_next l = (l1, Some (byte c))" "lx_on l1 (tok @ [c]) s" "lx_on (lx_rewind l1) tok (c # s)" using next_ascii [OF assms] by blast
  show ?thesis using n(2,3) by (cases "c \<in> set v") (simp_all add: lx_accept_def n(1) contains_ascii)
qed

lemma expect_ascii:
  assumes "byte c < 128" "lx_on l tok (c # s)" "c \<in> set v"
  shows "\<exists>l1. lx_expect v l = (l1, None) \<and> lx_on l1 (tok @ [c]) s"
proof -
  obtain l1 where n: "lx_next l = (l1, Some (byte c))" "lx_on l1 (tok @ [c]) s" using next_ascii [OF assms(1,2)] by blast
  then show ?thesis using assms(3) by (simp add: lx_expect_def contains_ascii)
qed

lemma emit_on: "lx_on l tok s \<Longrightarrow> \<exists>l1 t. lx_emit k l = (l1, t) \<and> lx_on l1 [] s \<and> tk_kind t = k \<and> tk_value t = tok"
  by (auto simp: lx_on_def lx_emit_def)

fun operator_kind :: "match_type \<Rightarrow> token_kind" where
  "operator_kind MatchEqual = TokenEquals"
| "operator_kind MatchNotEqual = TokenNotEquals"
| "operator_kind MatchRegexp = TokenMatches"
| "operator_kind MatchNotRegexp = TokenNotMatches"

lemma operator_type_kind: "operator_type (operator_kind ty) = Some ty"
  by (cases ty) simp_all

lemma scanOperator_on:
  assumes "lx_on l [] (match_type_String ty @ dquote # s)"
  shows "\<exists>l1 t. scanOperator l = (l1, Inr t) \<and> lx_on l1 [] (dquote # s) \<and> tk_kind t = operator_kind ty"
proof (cases ty)
  case MatchEqual
  obtain l1 where 1: "lx_accept ''!'' l = (l1, False)" "lx_on l1 [] (CHR ''='' # dquote # s)"
    using accept_ascii [of "CHR ''=''" l "[]" "dquote # s" "''!''"] assms by (auto simp: MatchEqual)
  obtain l2 where 2: "lx_accept ''='' l1 = (l2, True)" "lx_on l2 ''='' (dquote # s)"
    using accept_ascii [OF _ 1(2), of "''=''"] by auto
  obtain l3 where 3: "lx_accept ''~'' l2 = (l3, False)" "lx_on l3 ''='' (dquote # s)"
    using accept_ascii [OF _ 2(2), of "''~''"] by auto
  obtain l4 t where "lx_emit TokenEquals l3 = (l4, t)" "lx_on l4 [] (dquote # s)" "tk_kind t = TokenEquals"
    using emit_on [OF 3(2), of TokenEquals] by blast
  then show ?thesis by (simp add: scanOperator_def 1 2 3 MatchEqual)
next
  case MatchNotEqual
  obtain l1 where 1: "lx_accept ''!'' l = (l1, True)" "lx_on l1 ''!'' (CHR ''='' # dquote # s)"
    using accept_ascii [of "CHR ''!''" l "[]" "CHR ''='' # dquote # s" "''!''"] assms by (auto simp: MatchNotEqual)
  obtain l2 where 2: "lx_accept ''='' l1 = (l2, True)" "lx_on l2 ''!='' (dquote # s)"
    using accept_ascii [OF _ 1(2), of "''=''"] by auto
  obtain l4 t where "lx_emit TokenNotEquals l2 = (l4, t)" "lx_on l4 [] (dquote # s)" "tk_kind t = TokenNotEquals"
    using emit_on [OF 2(2), of TokenNotEquals] by blast
  then show ?thesis by (simp add: scanOperator_def 1 2 MatchNotEqual)
next
  case MatchRegexp
  obtain l1 where 1: "lx_accept ''!'' l = (l1, False)" "lx_on l1 [] (CHR ''='' # CHR ''~'' # dquote # s)"
    using accept_ascii [of "CHR ''=''" l "[]" "CHR ''~'' # dquote # s" "''!''"] assms by (auto simp: MatchRegexp)
  obtain l2 where 2: "lx_accept ''='' l1 = (l2, True)" "lx_on l2 ''='' (CHR ''~'' # dquote # s)"
    using accept_ascii [OF _ 1(2), of "''=''"] by auto
  obtain l3 where 3: "lx_accept ''~'' l2 = (l3, True)" "lx_on l3 ''=~'' (dquote # s)"
    using accept_ascii [OF _ 2(2), of "''~''"] by auto
  obtain l4 t where "lx_emit TokenMatches l3 = (l4, t)" "lx_on l4 [] (dquote # s)" "tk_kind t = TokenMatches"
    using emit_on [OF 3(2), of TokenMatches] by blast
  then show ?thesis by (simp add: scanOperator_def 1 2 3 MatchRegexp)
next
  case MatchNotRegexp
  obtain l1 where 1: "lx_accept ''!'' l = (l1, True)" "lx_on l1 ''!'' (CHR ''~'' # dquote # s)"
    using accept_ascii [of "CHR ''!''" l "[]" "CHR ''~'' # dquote # s" "''!''"] assms by (auto simp: MatchNotRegexp)
  obtain l2 where 2: "lx_accept ''='' l1 = (l2, False)" "lx_on l2 ''!'' (CHR ''~'' # dquote # s)"
    using accept_ascii [OF _ 1(2), of "''=''"] by auto
  obtain l3 where 3: "lx_accept ''~'' l2 = (l3, True)" "lx_on l3 ''!~'' (dquote # s)"
    using accept_ascii [OF _ 2(2), of "''~''"] by auto
  obtain l4 t where "lx_emit TokenNotMatches l3 = (l4, t)" "lx_on l4 [] (dquote # s)" "tk_kind t = TokenNotMatches"
    using emit_on [OF 3(2), of TokenNotMatches] by blast
  then show ?thesis by (simp add: scanOperator_def 1 2 3 MatchNotRegexp)
qed

text \<open>The body of a literal, with the loop's escape flag.\<close>

fun lit_body :: "bool \<Rightarrow> string \<Rightarrow> bool" where
  "lit_body e [] = (\<not> e)"
| "lit_body e (c # s) = (if e then lit_body False s else if c = backslash then lit_body True s else c \<noteq> dquote \<and> lit_body False s)"

lemma lit_body_literal: "literal_body (s @ [dquote]) \<Longrightarrow> lit_body False s"
proof (induction s rule: length_induct)
  case (1 s)
  show ?case
  proof (cases s)
    case (Cons c cs)
    show ?thesis
    proof (cases "c = backslash")
      case True
      with 1(2) Cons obtain d ds where cs: "cs = d # ds" by (cases cs) auto
      then show ?thesis using 1 Cons True by auto
    next
      case False
      then show ?thesis using 1 Cons by (auto split: if_splits)
    qed
  qed simp
qed

lemma lit_body_high: "\<lbrakk>\<And>c. c \<in> set ch \<Longrightarrow> 128 \<le> byte c; ch \<noteq> []; lit_body e (ch @ s)\<rbrakk> \<Longrightarrow> lit_body False s"
proof (induction ch arbitrary: e)
  case (Cons c ch)
  have "c \<noteq> backslash" using Cons.prems(1) [of c] by auto
  then have n: "lit_body False (ch @ s)" using Cons.prems(3) by (auto split: if_splits)
  show ?case
  proof (cases "ch = []")
    case False
    then show ?thesis using Cons.IH [OF _ False n] Cons.prems(1) by simp
  qed (use n in simp)
qed simp

lemma rune_of_high: "chunk ch \<Longrightarrow> (\<And>c. c \<in> set ch \<Longrightarrow> 128 \<le> byte c) \<Longrightarrow> 128 \<le> rune_of ch"
proof -
  assume c: "chunk ch" and h: "\<And>c. c \<in> set ch \<Longrightarrow> 128 \<le> byte c"
  have w: "rune_width ch = length ch" "ch \<noteq> []" using c chunk_def [of ch] append_Nil2 [of ch] by metis+
  then have "\<not> enc1 ch" using h [of "hd ch"] by (cases ch) auto
  then consider "enc2 ch" "length ch = 2" | "enc3 ch" "length ch = 3" | "enc4 ch" "length ch = 4"
    using w by (auto simp: rune_width_def split: if_splits)
  then show ?thesis
  proof cases
    case 1
    then obtain a b where "ch = [a, b]" by (auto simp: length_Suc_conv numeral_eq_Suc)
    then show ?thesis using 1 w by (auto simp: rune_of_def cont_byte_def)
  next
    case 2
    then obtain a b c where ch: "ch = [a, b, c]" by (auto simp: length_Suc_conv numeral_eq_Suc)
    have "128 \<le> (byte a - 224) * 4096 + (byte b - 128) * 64" using 2(1) ch by (cases "byte a = 224") (auto simp: cont_byte_def)
    then show ?thesis using 2 w ch by (simp add: rune_of_def)
  next
    case 3
    then obtain a b c d where ch: "ch = [a, b, c, d]" by (auto simp: length_Suc_conv numeral_eq_Suc)
    have "128 \<le> (byte a - 240) * 262144 + (byte b - 128) * 4096" using 3(1) ch by (cases "byte a = 240") (auto simp: cont_byte_def)
    then show ?thesis using 3 w ch by (simp add: rune_of_def)
  qed
qed

lemma quoted_loop_on:
  assumes "valid_utf8 s" "lit_body e s" "lx_on l tok (s @ dquote # t)"
  shows "lx_on (quoted_loop e l) (tok @ s) (dquote # t)"
  using assms
proof (induction s arbitrary: e l tok rule: valid_utf8_induct)
  case Nil
  then obtain l1 where "lx_next l = (l1, Some (byte dquote))" "lx_on (lx_rewind l1) tok (dquote # t)" using next_ascii [of dquote l tok t] by auto
  then show ?case using Nil by (subst quoted_loop.simps) simp
next
  case (ascii c cs)
  obtain l1 where n: "lx_next l = (l1, Some (byte c))" "lx_on l1 (tok @ [c]) (cs @ dquote # t)"
    using next_ascii [OF ascii(1), of l tok] ascii.prems by auto
  have "byte c = 92 \<longleftrightarrow> c = backslash" "byte c = 34 \<longleftrightarrow> c = dquote"
    using of_char_eq_iff [of c backslash] of_char_eq_iff [of c dquote] by simp_all
  then show ?case using n(1) ascii.IH [OF _ n(2)] ascii.prems(1) by (subst quoted_loop.simps) (auto split: if_splits)
next
  case (multi ch rest)
  have c: "chunk ch" using multi by (simp add: chunk_def)
  obtain l1 where n: "lx_next l = (l1, Some (rune_of ch))" "lx_on l1 (tok @ ch) (rest @ dquote # t)"
    using next_chunk [OF c, of l tok] multi.prems by auto
  have "128 \<le> rune_of ch" using rune_of_high [OF c] multi(2) by blast
  then have "rune_of ch \<noteq> byte backslash" "rune_of ch \<noteq> byte dquote" by auto
  then show ?case using n(1) multi.IH [OF lit_body_high [OF multi(2,1) multi.prems(1)] n(2)] by (subst quoted_loop.simps) simp
qed

lemma unquoted_loop_on:
  assumes "valid_utf8 s" "\<not> contains_reserved s" "lx_on l tok (s @ c # t)" "byte c < 128" "isReserved (byte c)"
  shows "lx_on (unquoted_loop l) (tok @ s) (c # t)"
  using assms(1,2,3)
proof (induction s arbitrary: l tok rule: valid_utf8_induct)
  case Nil
  then obtain l1 where "lx_next l = (l1, Some (byte c))" "lx_on (lx_rewind l1) tok (c # t)" using next_ascii [OF assms(4), of l tok t] by auto
  then show ?case using assms(5) by (subst unquoted_loop.simps) simp
next
  case (ascii d cs)
  obtain l1 where n: "lx_next l = (l1, Some (byte d))" "lx_on l1 (tok @ [d]) (cs @ c # t)"
    using next_ascii [OF ascii(1), of l tok] ascii.prems by auto
  have "\<not> isReserved (byte d)" "\<not> contains_reserved cs" using ascii by (auto simp: contains_reserved_def)
  then show ?case using n(1) ascii.IH [OF _ n(2)] by (subst unquoted_loop.simps) simp
next
  case (multi ch rest)
  have k: "chunk ch" using multi by (simp add: chunk_def)
  obtain l1 where n: "lx_next l = (l1, Some (rune_of ch))" "lx_on l1 (tok @ ch) (rest @ c # t)"
    using next_chunk [OF k, of l tok] multi.prems by auto
  have "\<not> isReserved (rune_of ch)" "\<not> contains_reserved rest" using multi.prems(1) valid_utf8_chunk(2) [OF multi(3,1)] by (auto simp: contains_reserved_def)
  then show ?case using n(1) multi.IH [OF _ n(2)] by (subst unquoted_loop.simps) simp
qed

lemma scan_eq: "lx_on l tok s \<Longrightarrow> scan l = scan_loop l"
  by (simp add: scan_def lx_on_def)

lemma rewind_on: "lx_next l = (l1, Some (byte c)) \<Longrightarrow> byte c < 128 \<Longrightarrow> lx_on l tok (c # s) \<Longrightarrow> lx_on (lx_rewind l1) tok (c # s)"
  using next_ascii [of c l tok s] by auto

lemma scan_punct:
  assumes "lx_on l [] (c # s)" "(c, k) \<in> {(CHR ''{'', TokenOpenBrace), (CHR ''}'', TokenCloseBrace), (CHR '','', TokenComma)}"
  shows "\<exists>l1 t. scan l = (l1, Inr t) \<and> lx_on l1 [] s \<and> tk_kind t = k"
proof -
  have c: "byte c < 128" using assms(2) by auto
  obtain l1 where n: "lx_next l = (l1, Some (byte c))" "lx_on l1 [c] s" using next_ascii [OF c assms(1)] by auto
  obtain l2 t where e: "lx_emit k l1 = (l2, t)" "lx_on l2 [] s" "tk_kind t = k" using emit_on [OF n(2), of k] by blast
  have "scan l = (l2, Inr t)" unfolding scan_eq [OF assms(1)] using n(1) e(1) assms(2) by (subst scan_loop.simps) (auto simp: emit_ok_def)
  then show ?thesis using e by blast
qed

lemma scan_operator:
  assumes "lx_on l [] (match_type_String ty @ dquote # s)"
  shows "\<exists>l1 t. scan l = (l1, Inr t) \<and> lx_on l1 [] (dquote # s) \<and> tk_kind t = operator_kind ty"
proof -
  obtain c r where cr: "match_type_String ty @ dquote # s = c # r" "c = CHR ''='' \<or> c = CHR ''!''" by (cases ty) auto
  have c: "byte c < 128" using cr(2) by auto
  obtain l1 where n: "lx_next l = (l1, Some (byte c))" "lx_on (lx_rewind l1) [] (c # r)" using next_ascii [OF c, of l "[]" r] assms cr(1) by auto
  obtain l2 t where o: "scanOperator (lx_rewind l1) = (l2, Inr t)" "lx_on l2 [] (dquote # s)" "tk_kind t = operator_kind ty"
    using scanOperator_on [of "lx_rewind l1" ty s] n(2) cr(1) by auto
  have "scan l = (l2, Inr t)" unfolding scan_eq [OF assms] using n(1) o(1) cr(2) by (subst scan_loop.simps) (auto simp: keep_err_def)
  then show ?thesis using o by blast
qed

lemma scan_quoted:
  assumes "lx_on l [] (dquote # b @ dquote # s)" "valid_utf8 b" "lit_body False b"
  shows "\<exists>l1 t. scan l = (l1, Inr t) \<and> lx_on l1 [] s \<and> tk_kind t = TokenQuoted \<and> tk_value t = dquote # b @ [dquote]"
proof -
  obtain l1 where n: "lx_next l = (l1, Some (byte dquote))" "lx_on (lx_rewind l1) [] (dquote # b @ dquote # s)"
    using next_ascii [OF _ assms(1)] by auto
  obtain l2 where e1: "lx_expect [dquote] (lx_rewind l1) = (l2, None)" "lx_on l2 [dquote] (b @ dquote # s)"
    using expect_ascii [OF _ n(2), of "[dquote]"] by auto
  have q: "lx_on (quoted_loop False l2) (dquote # b) (dquote # s)" using quoted_loop_on [OF assms(2,3) e1(2)] by simp
  obtain l3 where e2: "lx_expect [dquote] (quoted_loop False l2) = (l3, None)" "lx_on l3 (dquote # b @ [dquote]) s"
    using expect_ascii [OF _ q, of "[dquote]"] by auto
  obtain l4 t where e3: "lx_emit TokenQuoted l3 = (l4, t)" "lx_on l4 [] s" "tk_kind t = TokenQuoted" "tk_value t = dquote # b @ [dquote]"
    using emit_on [OF e2(2), of TokenQuoted] by blast
  have "scanQuoted (lx_rewind l1) = (l4, Inr t)" by (simp add: scanQuoted_def e1(1) e2(1) e3(1))
  then have "scan l = (l4, Inr t)" unfolding scan_eq [OF assms(1)] using n(1) by (subst scan_loop.simps) (simp add: keep_err_def)
  then show ?thesis using e3 by blast
qed

lemma reserved_specials: "r \<in> {123, 125, 44, 61, 33, 34} \<Longrightarrow> isReserved r"
  by (auto simp: isReserved_def reserved_chars_def)

lemma valid_utf8_first: "valid_utf8 n \<Longrightarrow> n \<noteq> [] \<Longrightarrow> \<exists>ch rest. chunk ch \<and> n = ch @ rest"
proof (induction n rule: valid_utf8_induct)
  case (ascii c cs)
  then show ?case using chunk_ascii [of c] by (intro exI [of _ "[c]"] exI [of _ cs]) simp
next
  case (multi ch rest)
  then have "chunk ch" by (simp add: chunk_def)
  then show ?case by blast
qed simp

lemma scan_unquoted:
  assumes "lx_on l [] (n @ c # s)" "valid_utf8 n" "n \<noteq> []" "\<not> contains_reserved n" "byte c < 128" "isReserved (byte c)"
  shows "\<exists>l1 t. scan l = (l1, Inr t) \<and> lx_on l1 [] (c # s) \<and> tk_kind t = TokenUnquoted \<and> tk_value t = n"
proof -
  obtain ch rest where ch: "chunk ch" "n = ch @ rest" using valid_utf8_first [OF assms(2,3)] by blast
  have r: "\<not> isReserved (rune_of ch)" using assms(4) ch valid_utf8_chunk(2) [of ch rest] by (auto simp: contains_reserved_def chunk_def)
  then have ne: "rune_of ch \<notin> {123, 125, 44, 61, 33, 34}" using reserved_specials by blast
  obtain l1 where n: "lx_next l = (l1, Some (rune_of ch))" "lx_on (lx_rewind l1) [] (n @ c # s)"
    using next_chunk [OF ch(1), of l "[]" "rest @ c # s"] assms(1) ch(2) by auto
  have u: "lx_on (unquoted_loop (lx_rewind l1)) n (c # s)" using unquoted_loop_on [OF assms(2,4) n(2) assms(5,6)] by simp
  obtain l4 t where e3: "lx_emit TokenUnquoted (unquoted_loop (lx_rewind l1)) = (l4, t)" "lx_on l4 [] (c # s)" "tk_kind t = TokenUnquoted" "tk_value t = n"
    using emit_on [OF u, of TokenUnquoted] by blast
  have "scan l = (l4, Inr t)" unfolding scan_eq [OF assms(1)] using n(1) r ne e3(1) by (subst scan_loop.simps) (simp add: keep_err_def scanUnquoted_def)
  then show ?thesis using e3 by blast
qed

lemma scan_end: "lx_on l [] [] \<Longrightarrow> \<exists>l1. scan l = (l1, Inr no_token)"
  using next_end [of l "[]"] scan_eq [of l "[]" "[]"] by (auto simp: scan_loop.simps [of l])

lemma scan_expect:
  assumes "scan l = (l', Inr t)" "tk_kind t \<in> set ks" "TokenEOF \<notin> set ks"
  shows "expectPeek ks l = (l, Done t)" "expect ks l = (l', Done t)" "acceptPeek ks l = (l, Done True)" "accept ks l = (l', Done True)"
proof -
  have "peek l = (l, Inr t)" using assms(1) scan_err [OF assms(1)] by (simp add: peek_def)
  then show p: "expectPeek ks l = (l, Done t)" "acceptPeek ks l = (l, Done True)"
    using assms(2,3) by (auto simp: expectPeek_def acceptPeek_def isEOF_def isOneOf_def)
  show "expect ks l = (l', Done t)" "accept ks l = (l', Done True)" by (simp_all add: expect_def accept_def p assms(1))
qed

lemma scan_refuse:
  assumes "scan l = (l', Inr t)" "tk_kind t \<notin> set ks" "tk_kind t \<noteq> TokenEOF"
  shows "acceptPeek ks l = (l, Done False)"
proof -
  have "peek l = (l, Inr t)" using assms(1) scan_err [OF assms(1)] by (simp add: peek_def)
  then show ?thesis using assms(2,3) by (auto simp: acceptPeek_def isEOF_def isOneOf_def)
qed

text \<open>What the documentation of the quoting function promises: a literal that is read back as the text.\<close>

definition quote_law :: "(string \<Rightarrow> string) \<Rightarrow> bool" where
  "quote_law quote \<longleftrightarrow> (\<forall>s. valid_utf8 s \<longrightarrow>
     (\<exists>b. quote s = dquote # b @ [dquote] \<and> literal_body (b @ [dquote]) \<and> valid_utf8 b) \<and> Unquote (quote s) = Some s)"

definition printable_matcher :: "regexp_engine \<Rightarrow> matcher \<Rightarrow> bool" where
  "printable_matcher rx m \<longleftrightarrow> m_name m \<noteq> [] \<and> valid_utf8 (m_name m) \<and> valid_utf8 (m_value m)
     \<and> NewMatcher rx (m_type m) (m_name m) (m_value m) = Some m"

lemma scan_literal:
  assumes "quote_law quote" "valid_utf8 v" "lx_on l [] (quote v @ s)"
  shows "\<exists>l1 t. scan l = (l1, Inr t) \<and> lx_on l1 [] s \<and> tk_kind t = TokenQuoted \<and> token_unquote t = Some v"
proof -
  obtain b where b: "quote v = dquote # b @ [dquote]" "literal_body (b @ [dquote])" "valid_utf8 b" "Unquote (quote v) = Some v"
    using assms(1,2) by (auto simp: quote_law_def)
  obtain l1 t where t: "scan l = (l1, Inr t)" "lx_on l1 [] s" "tk_kind t = TokenQuoted" "tk_value t = quote v"
    using scan_quoted [OF _ b(3) lit_body_literal [OF b(2)], of l s] assms(3) b(1) by auto
  then show ?thesis using b(4) assms(2) by (auto simp: token_unquote_def)
qed

definition escape_quote :: "string \<Rightarrow> string" where
  "escape_quote v = dquote # openMetricsEscape v @ [dquote]"

lemma escape_quote_law: "quote_law escape_quote"
  by (auto simp: quote_law_def escape_quote_def literal_escape Unquote_escape valid_utf8_escape)

text \<open>The name of a printed matcher and its value, quoted or not, are read back.\<close>

lemma scan_printed:
  assumes "quote_law quote" "printable_matcher rx m" "lx_on l [] (matcher_String quote m @ s)"
  shows "\<exists>l1 t1 l2 t2 l3 t3. scan l = (l1, Inr t1) \<and> tk_kind t1 \<in> {TokenQuoted, TokenUnquoted} \<and> token_unquote t1 = Some (m_name m)
    \<and> scan l1 = (l2, Inr t2) \<and> tk_kind t2 = operator_kind (m_type m)
    \<and> scan l2 = (l3, Inr t3) \<and> tk_kind t3 = TokenQuoted \<and> token_unquote t3 = Some (m_value m) \<and> lx_on l3 [] s"
proof -
  define q where "q = (if contains_reserved (m_name m) then quote else escape_quote)"
  have q: "quote_law q" using assms(1) escape_quote_law by (simp add: q_def)
  have v: "m_name m \<noteq> []" "valid_utf8 (m_name m)" "valid_utf8 (m_value m)" using assms(2) by (simp_all add: printable_matcher_def)
  obtain b where b: "q (m_value m) = dquote # b" using q v(3) by (auto simp: quote_law_def)
  define r where "r = match_type_String (m_type m) @ q (m_value m) @ s"
  obtain c r' where r': "r = c # r'" "byte c < 128" "isReserved (byte c)"
    by (cases "m_type m") (auto simp: r_def reserved_specials)
  have "\<exists>l1 t1. scan l = (l1, Inr t1) \<and> tk_kind t1 \<in> {TokenQuoted, TokenUnquoted} \<and> token_unquote t1 = Some (m_name m) \<and> lx_on l1 [] r"
  proof (cases "contains_reserved (m_name m)")
    case True
    then have "lx_on l [] (quote (m_name m) @ r)" using assms(3) by (simp add: matcher_String_def r_def q_def)
    then show ?thesis using scan_literal [OF assms(1) v(2)] by blast
  next
    case False
    then have "lx_on l [] (m_name m @ c # r')" using assms(3) r'(1) by (simp add: matcher_String_def r_def q_def escape_quote_def)
    then show ?thesis using scan_unquoted [OF _ v(2,1) False r'(2,3)] unfolding r'(1) by (fastforce simp: token_unquote_def)
  qed
  then obtain l1 t1 where 1: "scan l = (l1, Inr t1)" "tk_kind t1 \<in> {TokenQuoted, TokenUnquoted}" "token_unquote t1 = Some (m_name m)" "lx_on l1 [] r"
    by blast
  obtain l2 t2 where 2: "scan l1 = (l2, Inr t2)" "lx_on l2 [] (q (m_value m) @ s)" "tk_kind t2 = operator_kind (m_type m)"
    using scan_operator [of l1 "m_type m" "b @ s"] 1(4) b by (auto simp: r_def)
  show ?thesis using 1 2 scan_literal [OF q v(3) 2(2)] by blast
qed

text \<open>One printed matcher, and then a list of them, through the automaton.\<close>

lemma parse_matcher_printed:
  assumes "quote_law quote" "printable_matcher rx m" "lx_on (ps_lexer p) [] (matcher_String quote m @ s)"
  shows "\<exists>l. lx_on l [] s \<and> parse rx ParseMatcherFn p = parse rx ParseEndOfMatcher (p\<lparr>ps_lexer := l, ps_matchers := ps_matchers p @ [m]\<rparr>)"
proof -
  obtain l1 t1 l2 t2 l3 t3 where sc: "scan (ps_lexer p) = (l1, Inr t1)" "tk_kind t1 \<in> {TokenQuoted, TokenUnquoted}" "token_unquote t1 = Some (m_name m)"
    "scan l1 = (l2, Inr t2)" "tk_kind t2 = operator_kind (m_type m)"
    "scan l2 = (l3, Inr t3)" "tk_kind t3 = TokenQuoted" "token_unquote t3 = Some (m_value m)" "lx_on l3 [] s"
    using scan_printed [OF assms] by blast
  have "expect [TokenQuoted, TokenUnquoted] (ps_lexer p) = (l1, Done t1)" using scan_expect(2) [OF sc(1)] sc(2) by simp
  moreover have "expect [TokenEquals, TokenNotEquals, TokenMatches, TokenNotMatches] l1 = (l2, Done t2)"
    using scan_expect(2) [OF sc(4)] sc(5) by (cases "m_type m") simp_all
  moreover have "expect [TokenUnquoted, TokenQuoted] l2 = (l3, Done t3)" using scan_expect(2) [OF sc(6)] sc(7) by simp
  moreover have "NewMatcher rx (m_type m) (m_name m) (m_value m) = Some m" using assms(2) by (simp add: printable_matcher_def)
  ultimately have "parse_step rx ParseMatcherFn p = (p\<lparr>ps_lexer := l3, ps_matchers := ps_matchers p @ [m]\<rparr>, Done (Some ParseEndOfMatcher))"
    using sc(3,5,8) by (simp add: parseMatcher_def parseMatcher_operator_def parseMatcher_value_def operator_type_kind)
  then show ?thesis using sc(9) by (intro exI [of _ l3]) (subst parse.simps, simp)
qed

lemma parse_close:
  assumes "lx_on (ps_lexer p) [] ''}''" "ps_hasOpenBrace p"
  shows "parse rx ParseCloseBrace p = Done (ps_matchers p)"
proof -
  obtain l1 t where 1: "scan (ps_lexer p) = (l1, Inr t)" "lx_on l1 [] []" "tk_kind t = TokenCloseBrace"
    using scan_punct [OF assms(1), of TokenCloseBrace] by auto
  obtain l2 where 2: "scan l1 = (l2, Inr no_token)" using scan_end [OF 1(2)] by blast
  have "expect [TokenCloseBrace] (ps_lexer p) = (l1, Done t)" using scan_expect(2) [OF 1(1)] 1(3) by simp
  then have "parse_step rx ParseCloseBrace p = (p\<lparr>ps_lexer := l1\<rparr>, Done (Some ParseEOF))" using assms(2) by (simp add: parseCloseBrace_def)
  moreover have "parse_step rx ParseEOF (p\<lparr>ps_lexer := l1\<rparr>) = (p\<lparr>ps_lexer := l2\<rparr>, Done None)"
    using 2 by (simp add: parseEOF_def isEOF_def no_token_def)
  ultimately show ?thesis by (simp add: parse.simps [of _ ParseCloseBrace] parse.simps [of _ ParseEOF])
qed

lemma printed_start:
  assumes "quote_law quote" "printable_matcher rx m" "lx_on l [] (matchers_body quote (m # ms) @ s)"
  shows "\<exists>l1 t. scan l = (l1, Inr t) \<and> tk_kind t \<in> {TokenQuoted, TokenUnquoted}"
proof -
  obtain s' where "matchers_body quote (m # ms) @ s = matcher_String quote m @ s'" by (cases ms) auto
  then show ?thesis using scan_printed [OF assms(1,2), of l s'] assms(3) by auto
qed

lemma parse_body:
  assumes "ms \<noteq> []" "quote_law quote" "\<And>m. m \<in> set ms \<Longrightarrow> printable_matcher rx m"
    "lx_on (ps_lexer p) [] (matchers_body quote ms @ ''}'')" "ps_hasOpenBrace p"
  shows "parse rx ParseMatcherFn p = Done (ps_matchers p @ ms)"
  using assms
proof (induction quote ms arbitrary: p rule: matchers_body.induct)
  case (2 quote m)
  obtain l where l: "lx_on l [] ''}''"
    "parse rx ParseMatcherFn p = parse rx ParseEndOfMatcher (p\<lparr>ps_lexer := l, ps_matchers := ps_matchers p @ [m]\<rparr>)"
    using parse_matcher_printed [of quote rx m p "''}''"] 2 by auto
  obtain l1 t where 1: "scan l = (l1, Inr t)" "tk_kind t = TokenCloseBrace" using scan_punct [OF l(1), of TokenCloseBrace] by auto
  have "expectPeek [TokenComma, TokenCloseBrace] l = (l, Done t)" using scan_expect(1) [OF 1(1)] 1(2) by simp
  then show ?case unfolding l(2) using 1(2) l(1) 2(5) by (subst parse.simps) (simp add: parseEndOfMatcher_def parse_close)
next
  case (3 quote m m' ms)
  let ?rest = "matchers_body quote (m' # ms) @ ''}''"
  obtain l where l: "lx_on l [] (CHR '','' # ?rest)"
    "parse rx ParseMatcherFn p = parse rx ParseEndOfMatcher (p\<lparr>ps_lexer := l, ps_matchers := ps_matchers p @ [m]\<rparr>)"
    using parse_matcher_printed [of quote rx m p "CHR '','' # ?rest"] 3 by auto
  obtain l1 t where 1: "scan l = (l1, Inr t)" "lx_on l1 [] ?rest" "tk_kind t = TokenComma" using scan_punct [OF l(1), of TokenComma] by auto
  obtain l2 t2 where 2: "scan l1 = (l2, Inr t2)" "tk_kind t2 \<in> {TokenQuoted, TokenUnquoted}"
    using printed_start [of quote rx m' l1 ms "''}''"] 1(2) 3 by auto
  define p1 where "p1 = p\<lparr>ps_lexer := l, ps_matchers := ps_matchers p @ [m]\<rparr>"
  have e: "expectPeek [TokenComma, TokenCloseBrace] l = (l, Done t)" "expect [TokenComma] l = (l1, Done t)"
    using scan_expect(1) [OF 1(1)] scan_expect(2) [OF 1(1)] 1(3) by simp_all
  have e2: "expectPeek [TokenCloseBrace, TokenUnquoted, TokenQuoted] l1 = (l1, Done t2)" using scan_expect(1) [OF 2(1)] 2(2) by auto
  have "parse_step rx ParseEndOfMatcher p1 = (p1, Done (Some ParseComma))"
    using e(1) 1(3) by (simp add: parseEndOfMatcher_def p1_def)
  moreover have "parse_step rx ParseComma p1 = (p1\<lparr>ps_lexer := l1\<rparr>, Done (Some ParseMatcherFn))"
    using e(2) e2 2(2) by (auto simp: parseComma_def p1_def)
  ultimately have "parse rx ParseEndOfMatcher p1 = parse rx ParseMatcherFn (p1\<lparr>ps_lexer := l1\<rparr>)"
    by (simp add: parse.simps [of _ ParseEndOfMatcher] parse.simps [of _ ParseComma])
  also have "\<dots> = Done (ps_matchers (p1\<lparr>ps_lexer := l1\<rparr>) @ m' # ms)" by (rule "3.IH") (use 3 1(2) in \<open>auto simp: p1_def\<close>)
  finally show ?case using l(2) by (simp add: p1_def)
qed simp

lemma parse_Matchers_printed:
  assumes "quote_law quote" "\<And>m. m \<in> set ms \<Longrightarrow> printable_matcher rx m"
  shows "parse_Matchers rx (matchers_String quote ms) = Inr ms"
proof -
  define p where "p = \<lparr>ps_matchers = [], ps_hasOpenBrace = False, ps_lexer = new_lexer (matchers_String quote ms)\<rparr>"
  have l: "lx_on (ps_lexer p) [] (CHR ''{'' # matchers_body quote ms @ ''}'')"
    by (simp add: p_def new_lexer_def lx_on_def matchers_String_def)
  obtain l1 t where 1: "scan (ps_lexer p) = (l1, Inr t)" "lx_on l1 [] (matchers_body quote ms @ ''}'')" "tk_kind t = TokenOpenBrace"
    using scan_punct [OF l, of TokenOpenBrace] by auto
  have a: "accept [TokenOpenBrace] (ps_lexer p) = (l1, Done True)" using scan_expect(4) [OF 1(1)] 1(3) by simp
  have "parse rx ParseOpenBrace p = Done ms"
  proof (cases ms)
    case Nil
    then obtain l2 t2 where 2: "scan l1 = (l2, Inr t2)" "tk_kind t2 = TokenCloseBrace" using scan_punct [of l1 "CHR ''}''" "[]" TokenCloseBrace] 1(2) by auto
    have "acceptPeek [TokenCloseBrace] l1 = (l1, Done True)" using scan_expect(3) [OF 2(1)] 2(2) by simp
    then show ?thesis using a 1(2) Nil by (subst parse.simps) (simp add: parseOpenBrace_def parse_close p_def)
  next
    case (Cons m ms')
    then obtain l2 t2 where 2: "scan l1 = (l2, Inr t2)" "tk_kind t2 \<in> {TokenQuoted, TokenUnquoted}"
      using printed_start [OF assms(1), of rx m l1 ms' "''}''"] 1(2) assms(2) by auto
    have "acceptPeek [TokenCloseBrace] l1 = (l1, Done False)" using scan_refuse [OF 2(1)] 2(2) by auto
    moreover have "parse rx ParseMatcherFn (p\<lparr>ps_lexer := l1, ps_hasOpenBrace := True\<rparr>) = Done (ps_matchers p @ ms)"
      using parse_body [OF _ assms, of ms "p\<lparr>ps_lexer := l1, ps_hasOpenBrace := True\<rparr>"] 1(2) Cons by simp
    ultimately show ?thesis using a by (subst parse.simps) (simp add: parseOpenBrace_def p_def)
  qed
  then show ?thesis by (simp add: parse_Matchers_def p_def)
qed

end
