(* ===== verification/Matcher_Compat.thy ===== *)
theory Matcher_Compat
  imports Matcher_Parse
begin

text \<open>
  The choice of the matchers parser, \<^verbatim>\<open>matcher/compat/parse.go\<close>, and the feature flags that decide it,
  \<^verbatim>\<open>featurecontrol/featurecontrol.go\<close>. The parsers are given by the mode that \<^verbatim>\<open>InitFromFlags\<close> sets; the warning
  that the fallback parsers log is part of their result.
\<close>

section \<open>Feature flags\<close>

record flags =
  fl_AlertNamesInMetrics :: bool
  fl_ReceiverNamesInMetrics :: bool
  fl_GroupKeyInMetrics :: bool
  fl_ClassicMode :: bool
  fl_UTF8StrictMode :: bool
  fl_AutoGOMEMLIMIT :: bool
  fl_EventRecorder :: bool

definition NoopFlags :: flags where
  "NoopFlags = \<lparr>fl_AlertNamesInMetrics = False, fl_ReceiverNamesInMetrics = False, fl_GroupKeyInMetrics = False, fl_ClassicMode = False,
     fl_UTF8StrictMode = False, fl_AutoGOMEMLIMIT = False, fl_EventRecorder = False\<rparr>"

datatype flags_error = UnknownOption string | BothModes

definition flag_option :: "string \<Rightarrow> (flags \<Rightarrow> flags) option" where
  "flag_option feature =
     (if feature = ''alert-names-in-metrics'' then Some (\<lambda>f. f\<lparr>fl_AlertNamesInMetrics := True\<rparr>)
      else if feature = ''receiver-name-in-metrics'' then Some (\<lambda>f. f\<lparr>fl_ReceiverNamesInMetrics := True\<rparr>)
      else if feature = ''group-key-in-metrics'' then Some (\<lambda>f. f\<lparr>fl_GroupKeyInMetrics := True\<rparr>)
      else if feature = ''classic-mode'' then Some (\<lambda>f. f\<lparr>fl_ClassicMode := True\<rparr>)
      else if feature = ''utf8-strict-mode'' then Some (\<lambda>f. f\<lparr>fl_UTF8StrictMode := True\<rparr>)
      else if feature = ''auto-gomemlimit'' then Some (\<lambda>f. f\<lparr>fl_AutoGOMEMLIMIT := True\<rparr>)
      else if feature = ''event-recorder'' then Some (\<lambda>f. f\<lparr>fl_EventRecorder := True\<rparr>)
      else None)"

fun apply_options :: "string list \<Rightarrow> flags \<Rightarrow> flags_error + flags" where
  "apply_options [] f = Inr f"
| "apply_options (x # xs) f = (case flag_option x of None \<Rightarrow> Inl (UnknownOption x) | Some g \<Rightarrow> apply_options xs (g f))"

definition NewFlags :: "string \<Rightarrow> flags_error + flags" where
  "NewFlags features =
     (if features = [] then Inr NoopFlags
      else (case apply_options (split_on (CHR '','') features) NoopFlags of
          Inl e \<Rightarrow> Inl e
        | Inr f \<Rightarrow> if fl_ClassicMode f \<and> fl_UTF8StrictMode f then Inl BothModes else Inr f))"

section \<open>The parsers\<close>

datatype compat_mode = Classic | UTF8Strict | Fallback

datatype compat_error = UnexpectedBrace | NewError parse_error | ClassicError matcher_parse_error

datatype compat_warning = NoWarning | Incompatible string | Disagreement

type_synonym 'a compat_result = "(compat_error + 'a) \<times> compat_warning"

definition InitFromFlags :: "flags \<Rightarrow> compat_mode" where
  "InitFromFlags f = (if fl_ClassicMode f then Classic else if fl_UTF8StrictMode f then UTF8Strict else Fallback)"

definition ClassicMatcherParser :: "regexp_engine \<Rightarrow> string \<Rightarrow> compat_error + matcher" where
  "ClassicMatcherParser rx input = map_sum ClassicError id (ParseMatcher rx input)"

definition ClassicMatchersParser :: "regexp_engine \<Rightarrow> string \<Rightarrow> compat_error + matchers" where
  "ClassicMatchersParser rx input = map_sum ClassicError id (ParseMatchers rx input)"

definition has_brace :: "string \<Rightarrow> bool" where
  "has_brace input \<longleftrightarrow> input \<noteq> [] \<and> (hd input = CHR ''{'' \<or> last input = CHR ''}'')"

definition UTF8MatcherParser :: "regexp_engine \<Rightarrow> string \<Rightarrow> compat_error + matcher" where
  "UTF8MatcherParser rx input = (if has_brace input then Inl UnexpectedBrace else map_sum NewError id (parse_Matcher rx input))"

definition UTF8MatchersParser :: "regexp_engine \<Rightarrow> string \<Rightarrow> compat_error + matchers" where
  "UTF8MatchersParser rx input = map_sum NewError id (parse_Matchers rx input)"

definition FallbackMatcherParser :: "regexp_engine \<Rightarrow> (string \<Rightarrow> string) \<Rightarrow> string \<Rightarrow> matcher compat_result" where
  "FallbackMatcherParser rx quote input =
     (if has_brace input then (Inl UnexpectedBrace, NoWarning)
      else (case parse_Matcher rx input of
          Inl nErr \<Rightarrow> (case ParseMatcher rx input of
              Inl cErr \<Rightarrow> (Inl (ClassicError cErr), NoWarning)
            | Inr cMatcher \<Rightarrow> (Inr cMatcher, Incompatible (matcher_String quote cMatcher)))
        | Inr nMatcher \<Rightarrow> (case ParseMatcher rx input of
              Inl cErr \<Rightarrow> (Inr nMatcher, NoWarning)
            | Inr cMatcher \<Rightarrow> if matcher_key nMatcher \<noteq> matcher_key cMatcher then (Inr cMatcher, Disagreement) else (Inr nMatcher, NoWarning))))"

text \<open>
  The comparison of two lists of matchers with \<^verbatim>\<open>reflect.DeepEqual\<close>: the new parser's list is nil when it holds
  nothing, the classic parser's never is, and a nil slice is not deeply equal to an empty one. The
  compiled expression of a matcher is determined by its other fields.
\<close>

definition deep_equal :: "matchers \<Rightarrow> matchers \<Rightarrow> bool" where
  "deep_equal nMatchers cMatchers \<longleftrightarrow> nMatchers \<noteq> [] \<and> map matcher_key nMatchers = map matcher_key cMatchers"

definition FallbackMatchersParser :: "regexp_engine \<Rightarrow> (string \<Rightarrow> string) \<Rightarrow> string \<Rightarrow> matchers compat_result" where
  "FallbackMatchersParser rx quote input =
     (case parse_Matchers rx input of
          Inl nErr \<Rightarrow> (case ParseMatchers rx input of
              Inl cErr \<Rightarrow> (Inl (ClassicError cErr), NoWarning)
            | Inr cMatchers \<Rightarrow> (Inr cMatchers, Incompatible (matchers_body quote cMatchers)))
        | Inr nMatchers \<Rightarrow> (case ParseMatchers rx input of
              Inl cErr \<Rightarrow> (Inr nMatchers, NoWarning)
            | Inr cMatchers \<Rightarrow> if \<not> deep_equal nMatchers cMatchers then (Inr cMatchers, Disagreement) else (Inr nMatchers, NoWarning)))"

fun compat_Matcher :: "compat_mode \<Rightarrow> regexp_engine \<Rightarrow> (string \<Rightarrow> string) \<Rightarrow> string \<Rightarrow> matcher compat_result" where
  "compat_Matcher Classic rx quote input = (ClassicMatcherParser rx input, NoWarning)"
| "compat_Matcher UTF8Strict rx quote input = (UTF8MatcherParser rx input, NoWarning)"
| "compat_Matcher Fallback rx quote input = FallbackMatcherParser rx quote input"

fun compat_Matchers :: "compat_mode \<Rightarrow> regexp_engine \<Rightarrow> (string \<Rightarrow> string) \<Rightarrow> string \<Rightarrow> matchers compat_result" where
  "compat_Matchers Classic rx quote input = (ClassicMatchersParser rx input, NoWarning)"
| "compat_Matchers UTF8Strict rx quote input = (UTF8MatchersParser rx input, NoWarning)"
| "compat_Matchers Fallback rx quote input = FallbackMatchersParser rx quote input"

text \<open>The names: the classic rule is that of the \<^verbatim>\<open>model\<close> package, a parameter.\<close>

definition isValidUTF8LabelName :: "string \<Rightarrow> bool" where
  "isValidUTF8LabelName n \<longleftrightarrow> n \<noteq> [] \<and> valid_utf8 n"

fun IsValidLabelName :: "(string \<Rightarrow> bool) \<Rightarrow> compat_mode \<Rightarrow> string \<Rightarrow> bool" where
  "IsValidLabelName legacy Classic n = legacy n"
| "IsValidLabelName legacy _ n = isValidUTF8LabelName n"

section \<open>What the modes agree on\<close>

lemma classic_printable: "classic_matcher rx m \<Longrightarrow> printable_matcher rx m"
  using classic_name_chars [of "m_name m"] label_char_ascii
  by (auto simp: classic_matcher_def printable_matcher_def classic_name_def intro: valid_utf8_all_ascii)

text \<open>The flags never ask for both modes.\<close>

lemma NewFlags_mode: "NewFlags s = Inr f \<Longrightarrow> \<not> (fl_ClassicMode f \<and> fl_UTF8StrictMode f)"
  by (auto simp: NewFlags_def NoopFlags_def split: if_splits sum.splits)

section \<open>The classic parser refuses what it cannot represent\<close>

lemma token_loop_first: "\<exists>x. hd (fst (token_loop q e tok chs) @ [snd (token_loop q e tok chs)]) = tok @ x"
proof (induction chs arbitrary: q e tok)
  case (Cons ch chs)
  show ?case
  proof (cases "ch = '','' \<and> \<not> q")
    case False
    obtain q' e' where "token_loop q e tok (ch # chs) = token_loop q' e' (tok @ write_rune ch) chs"
      using False by (cases "ch = '',''"; cases "ch = [dquote]"; cases "ch = [backslash]"; cases e) auto
    then show ?thesis using Cons [of q' e' "tok @ write_rune ch"] by auto
  qed simp
qed simp

text \<open>A text that no token of the classic parser can start with.\<close>

definition bad_lead :: "string \<Rightarrow> bool" where
  "bad_lead s \<longleftrightarrow> valid_utf8 s \<and> s \<noteq> [] \<and> \<not> is_space (rune_of (hd (runes s))) \<and> \<not> is_space (rune_of (last (runes s)))
     \<and> (\<forall>x. find_submatch (s @ x) = None)"

lemma runes_nonempty: "s \<noteq> [] \<Longrightarrow> runes s \<noteq> []"
  by (subst runes.simps) simp

lemma trim_bad_lead:
  assumes "bad_lead s"
  shows "\<exists>y. trim_space (s @ x) = s @ y"
proof -
  define sp where "sp = (\<lambda>ch. is_space (rune_of ch))"
  have r: "runes (s @ x) = runes s @ runes x" "runes s \<noteq> []" using assms by (simp_all add: bad_lead_def runes_append runes_nonempty)
  have h: "\<not> sp (hd (runes s))" "\<not> sp (last (runes s))" using assms by (simp_all add: bad_lead_def sp_def)
  have 1: "dropWhile sp (runes s @ runes x) = runes s @ runes x" using r(2) h(1) by (cases "runes s") simp_all
  have 2: "dropWhile sp (rev (runes s)) = rev (runes s)"  using h(2) r(2) by (simp add: dropWhile_eq_self_iff hd_rev)
  obtain ys where "dropWhile sp (rev (runes x) @ rev (runes s)) = ys @ rev (runes s)"
  proof (cases "\<forall>c \<in> set (rev (runes x)). sp c")
    case True
    then have "dropWhile sp (rev (runes x) @ rev (runes s)) = dropWhile sp (rev (runes s))" by (intro dropWhile_append2) simp
    then show ?thesis using that [of "[]"] 2 by simp
  next
    case False
    then show ?thesis using that [of "dropWhile sp (rev (runes x))"] by (auto simp: dropWhile_append1)
  qed
  then have "trim_space (s @ x) = concat (runes s) @ concat (rev ys)" unfolding trim_space_def sp_def [symmetric] r(1) Let_def 1 by simp
  then show ?thesis by auto
qed

lemma parse_all_fails: "t \<in> set ts \<Longrightarrow> ParseMatcher rx t = Inl e \<Longrightarrow> \<exists>e'. parse_all rx ts = Inl e'"
  by (induction ts) (auto split: sum.splits)

lemma bad_lead_rejected: "bad_lead s \<Longrightarrow> \<exists>e. ParseMatcher rx (s @ x) = Inl e"
  by (auto simp: bad_lead_def ParseMatcher_def)

lemma tokens_rejected:
  assumes "token_loop False False [] (runes s) = (map f pre @ fst (token_loop True False lead chs), snd (token_loop True False lead chs))" "bad_lead lead"
  shows "\<exists>e. parse_all rx (matcher_tokens s) = Inl e"
proof -
  obtain ts t where tl: "token_loop True False lead chs = (ts, t)" by force
  obtain x where x: "hd (ts @ [t]) = lead @ x" using token_loop_first [of True False lead chs] tl by auto
  have "\<exists>y. lead @ y \<in> set (matcher_tokens s)"
  proof (cases ts)
    case Nil
    then obtain y where "trim_space t = lead @ y" using trim_bad_lead [OF assms(2)] x by auto
    then show ?thesis using assms tl by (auto simp: matcher_tokens_def bad_lead_def)
  next
    case (Cons a as)
    then show ?thesis using assms tl x by (auto simp: matcher_tokens_def Let_def)
  qed
  then show ?thesis using parse_all_fails bad_lead_rejected [OF assms(2)] by blast
qed

lemma token_loop_prefix:
  assumes "\<And>m. m \<in> set pre \<Longrightarrow> classic_matcher rx m" "token_loop False False [] (runes s) = (ts, t)"
  shows "token_loop False False [] (runes (concat (map (\<lambda>m. matcher_String quote m @ '','') pre) @ s)) = (map (matcher_String quote) pre @ ts, t)"
  using assms(1)
proof (induction pre)
  case (Cons m pre)
  have c: "classic_matcher rx m" using Cons by simp
  have "runes (matcher_String quote m @ CHR '','' # r) = runes (matcher_String quote m) @ '','' # runes r" for r
    using runes_matcher_String(1) [OF c] by (simp add: runes_append)
  then show ?case using Cons token_loop_matcher [OF c, of "[]" quote] by simp
qed (simp add: assms(2))

lemma find_submatch_bad:
  assumes "valid_utf8 n" "n \<noteq> []" "\<not> contains_reserved n" "\<not> classic_name n" "c = CHR ''='' \<or> c = CHR ''!''"
  shows "find_submatch (n @ c # x) = None"
proof -
  have res: "\<not> isReserved (byte d)" if "d \<in> set n" "byte d < 128" for d
    using assms(3) ascii_rune [OF that] that(2) by (auto simp: contains_reserved_def list_ex_iff)
  have sp: "\<not> re_space d" if "d \<in> set n" for d
  proof
    assume "re_space d"
    then have "byte d < 128" "isReserved (byte d)" by (auto simp: re_space_def isReserved_def is_space_def)
    then show False using res that by blast
  qed
  have op: "d \<noteq> CHR ''=''" "d \<noteq> CHR ''!''" if "d \<in> set n" for d
    using res [OF that] reserved_specials [of 61] reserved_specials [of 33] by auto
  obtain a as where n: "n = a # as" using assms(2) by (cases n) auto
  have 1: "dropWhile re_space (n @ c # x) = n @ c # x" using sp n by simp
  show ?thesis
  proof (cases "label_start a")
    case True
    then obtain ys d zs where s: "n = ys @ d # zs" "list_all label_char ys" "\<not> label_char d"
      using assms(4) n split_list_first_prop [of n "\<lambda>d. \<not> label_char d"] by (auto simp: classic_name_def list_all_iff)
    then have "dropWhile label_char (n @ c # x) = d # zs @ c # x" by (simp add: list_all_iff)
    moreover have "dropWhile re_space (d # zs @ c # x) = d # zs @ c # x" using sp [of d] s(1) by simp
    moreover have "find_op (d # zs @ c # x) = None" using op [of d] s(1) by (simp add: find_op_def)
    ultimately show ?thesis unfolding find_submatch_def 1 Let_def by simp
  qed (use 1 n in \<open>simp add: find_submatch_def Let_def\<close>)
qed

lemma printed_bad_lead:
  assumes "quote_law quote" "printable_matcher rx m" "\<not> classic_matcher rx m"
  shows "\<exists>lead chs. bad_lead lead \<and> token_loop False False [] (runes (matcher_String quote m @ s)) = token_loop True False lead chs"
proof (cases "contains_reserved (m_name m)")
  case True
  obtain b where b: "quote (m_name m) = dquote # b" using assms(1,2) by (auto simp: quote_law_def printable_matcher_def)
  have "bad_lead [dquote]" by (simp add: bad_lead_def is_space_def find_submatch_def re_space_def label_start_def less_eq_char_def)
  moreover have "matcher_String quote m @ s = dquote # (b @ match_type_String (m_type m) @ quote (m_value m) @ s)" using True b by (simp add: matcher_String_def)
  then have "token_loop False False [] (runes (matcher_String quote m @ s)) = token_loop True False [dquote] (runes (b @ match_type_String (m_type m) @ quote (m_value m) @ s))"
    by (simp add: write_rune_def)
  ultimately show ?thesis by blast
next
  case False
  define op lead where "op = match_type_String (m_type m)" and "lead = m_name m @ op @ [dquote]"
  have v: "m_name m \<noteq> []" "valid_utf8 (m_name m)" "\<not> classic_name (m_name m)" using assms(2,3) by (auto simp: printable_matcher_def classic_matcher_def)
  have o: "byte c < 128 \<and> plain_rune [c]" if "c \<in> set op" for c using that by (cases "m_type m") (auto simp: plain_rune_def op_def)
  have ov: "valid_utf8 op" using o by (intro valid_utf8_all_ascii) blast
  obtain c op' where c: "op = c # op'" "c = CHR ''='' \<or> c = CHR ''!''" by (cases "m_type m") (auto simp: op_def)
  have rl: "runes lead = runes (m_name m) @ runes op @ [[dquote]]" using v(2) ov by (simp add: lead_def runes_append)
  have pl: "plain_rune ch \<and> \<not> is_space (rune_of ch)" if "ch \<in> set (runes (m_name m))" for ch
  proof -
    have "\<not> isReserved (rune_of ch)" using False that by (auto simp: contains_reserved_def list_ex_iff)
    then show ?thesis by (auto simp: plain_rune_def isReserved_def reserved_chars_def)
  qed
  have "find_submatch (lead @ x) = None" for x
    using find_submatch_bad [OF v(2,1) False v(3) c(2), of "op' @ dquote # x"] c(1) by (simp add: lead_def)
  moreover have "valid_utf8 lead" using v(2) ov by (simp add: lead_def valid_utf8_append)
  moreover have "\<not> is_space (rune_of (hd (runes lead)))" "\<not> is_space (rune_of (last (runes lead)))"
    using pl rl runes_nonempty [OF v(1)] by (auto simp: is_space_def)
  ultimately have bad: "bad_lead lead" by (simp add: bad_lead_def lead_def)
  define r where "r = openMetricsEscape (m_value m) @ dquote # s"
  have "matcher_String quote m @ s = m_name m @ op @ dquote # r" using False by (simp add: matcher_String_def op_def r_def)
  then have "runes (matcher_String quote m @ s) = runes (m_name m) @ runes op @ [dquote] # runes r" using v(2) ov by (simp add: runes_append)
  moreover have "token_loop False False [] (runes (m_name m) @ z) = token_loop False False (m_name m) z" for z
    using token_loop_plain [of "runes (m_name m)" False "[]" z] pl write_runes [OF v(2)] by simp
  ultimately have "token_loop False False [] (runes (matcher_String quote m @ s)) = token_loop True False lead (runes r)"
    using token_loop_ascii [of op, OF o] by (simp add: lead_def write_rune_def)
  then show ?thesis using bad by blast
qed

lemma body_split:
  "matchers_body quote (pre @ m # post) = concat (map (\<lambda>m. matcher_String quote m @ '','') pre) @ matchers_body quote (m # post)"
proof (induction pre)
  case (Cons a pre)
  then show ?case by (cases pre) simp_all
qed simp

lemma classic_rejects:
  assumes "quote_law quote" "\<And>m. m \<in> set ms \<Longrightarrow> printable_matcher rx m" "\<exists>m \<in> set ms. \<not> classic_matcher rx m"
  shows "\<exists>e. ParseMatchers rx (matchers_String quote ms) = Inl e"
proof -
  obtain pre m post where s: "ms = pre @ m # post" "\<not> classic_matcher rx m" "\<And>x. x \<in> set pre \<Longrightarrow> classic_matcher rx x"
    using split_list_first_prop [OF assms(3)] by blast
  obtain tail where t: "matchers_body quote (m # post) = matcher_String quote m @ tail" by (cases post) auto
  obtain lead chs where l: "bad_lead lead" "token_loop False False [] (runes (matcher_String quote m @ tail)) = token_loop True False lead chs"
    using printed_bad_lead [OF assms(1) _ s(2), of tail] assms(2) [of m] s(1) by auto
  have trim: "trim_suffix (trim_prefix (matchers_String quote ms) (CHR ''{'')) (CHR ''}'') = matchers_body quote ms"
    by (simp add: matchers_String_def trim_prefix_def trim_suffix_def)
  have "token_loop False False [] (runes (matchers_body quote ms)) =
      (map (matcher_String quote) pre @ fst (token_loop True False lead chs), snd (token_loop True False lead chs))"
    unfolding s(1) body_split t using token_loop_prefix [where pre = pre and quote = quote, OF s(3)] l(2) by simp
  then show ?thesis unfolding ParseMatchers_def trim using tokens_rejected l(1) by blast
qed

section \<open>The round trip\<close>

text \<open>The matchers that the parser of a mode can represent.\<close>

fun mode_matcher :: "compat_mode \<Rightarrow> regexp_engine \<Rightarrow> matcher \<Rightarrow> bool" where
  "mode_matcher Classic rx m = classic_matcher rx m"
| "mode_matcher _ rx m = printable_matcher rx m"

text \<open>
  C15: matchers printed by \<^verbatim>\<open>String\<close> are read back as they were by the parser of every mode: by the UTF-8
  parser and the fallback parser for every name and value that is valid UTF-8, quoted where it must
  be, and by the classic parser for every classic name; and the fallback parser finds nothing to
  warn about, unless there is no matcher at all.
\<close>

lemma Matchers_String_roundtrip:
  assumes "quote_law quote" "\<And>m. m \<in> set ms \<Longrightarrow> mode_matcher mode rx m"
  shows "fst (compat_Matchers mode rx quote (matchers_String quote ms)) = Inr ms
    \<and> (ms \<noteq> [] \<longrightarrow> snd (compat_Matchers mode rx quote (matchers_String quote ms)) = NoWarning)"
proof -
  have p: "printable_matcher rx m" if "m \<in> set ms" for m using assms(2) [OF that] classic_printable by (cases mode) auto
  note n = parse_Matchers_printed [OF assms(1) p]
  have c: "ParseMatchers rx (matchers_String quote ms) = Inr ms \<or> mode \<noteq> Classic \<and> (\<exists>e. ParseMatchers rx (matchers_String quote ms) = Inl e)"
  proof (cases "\<forall>m \<in> set ms. classic_matcher rx m")
    case True
    then show ?thesis using ParseMatchers_String [of ms rx quote] by blast
  next
    case False
    then have "mode \<noteq> Classic" using assms(2) by auto
    then show ?thesis using classic_rejects [OF assms(1) p] False by blast
  qed
  show ?thesis using n c by (cases mode) (auto simp: ClassicMatchersParser_def UTF8MatchersParser_def FallbackMatchersParser_def deep_equal_def)
qed

definition utf8_matchers :: matchers where
  "utf8_matchers =
     [\<lparr>m_type = MatchEqual, m_name = [CHR 0xC3, CHR 0xA9], m_value = [CHR ''a'', CHR '','', dquote, backslash, newline_char], m_re = (\<lambda>_. False)\<rparr>,
      \<lparr>m_type = MatchRegexp, m_name = ''b c'', m_value = ''x'', m_re = (\<lambda>s. s = ''x'')\<rparr>]"

theorem Matchers_String_roundtrip_witness:
  "compat_Matchers Fallback sample_rx escape_quote (matchers_String escape_quote utf8_matchers) = (Inr utf8_matchers, NoWarning)"
proof -
  have v: "valid_utf8 [CHR 0xC3, CHR 0xA9]" by (subst valid_utf8.simps) (simp add: next_width_def rune_width_def cont_byte_def)
  have "mode_matcher Fallback sample_rx m" if "m \<in> set utf8_matchers" for m
    using that v by (auto simp: utf8_matchers_def printable_matcher_def NewMatcher_def sample_rx_def)
  then show ?thesis using Matchers_String_roundtrip [OF escape_quote_law, of utf8_matchers Fallback sample_rx] by (simp add: utf8_matchers_def prod_eq_iff)
qed

text \<open>
  Two ways in which the fallback parsers depart from their comments: an input without matchers is
  reported as a disagreement, and a single matcher that ends with a brace is refused although the
  classic parser takes it.
\<close>

lemma fallback_empty_warns: "quote_law quote \<Longrightarrow> FallbackMatchersParser rx quote (matchers_String quote []) = (Inr [], Disagreement)"
  using parse_Matchers_printed [of quote "[]" rx] ParseMatchers_String [of "[]" rx quote] by (simp add: FallbackMatchersParser_def deep_equal_def)

lemma fallback_refuses_brace:
  "ClassicMatcherParser (\<lambda>_. None) ''a=b}'' = Inr \<lparr>m_type = MatchEqual, m_name = ''a'', m_value = ''b}'', m_re = (\<lambda>_. False)\<rparr>
    \<and> FallbackMatcherParser (\<lambda>_. None) quote ''a=b}'' = (Inl UnexpectedBrace, NoWarning)"
  by (simp add: ClassicMatcherParser_def ParseMatcher_def find_submatch_def re_space_def label_start_def label_char_def less_eq_char_def find_op_def rtrim_def
    NewMatcher_def FallbackMatcherParser_def has_brace_def Let_def)

end
