(* ===== verification/Config.thy ===== *)
theory Config
  imports Route Matcher_Compat
begin

text \<open>
  The configuration, \<^verbatim>\<open>config/config.go\<close> and \<^verbatim>\<open>config/common\<close>: what the \<^verbatim>\<open>UnmarshalYAML\<close> methods make of the decoded
  document. Decoding of YAML is third-party code, so the input is the document as
  structures: pointers are options, the null elements of lists included. The checks run in the order of the
  fields; where several parts are wrong, which of the errors is reported first depends on the order
  of the keys in the document.

  A result is a value, an error, or a panic where the code follows a nil pointer. The opaque rest of
  the HTTP and TLS client configurations, which belong to a third-party package, is a string.
\<close>

section \<open>Results\<close>

datatype config_error = AtMostOneOf string string | NameNotUnique string | MissingConfig string | NotSet string
  | AuthorizationSet | NoRoutes | NoRouteProvided | RootReceiver | RootMatchers | RootMuteIntervals | RootActiveIntervals | RootContinue
  | UndefinedReceiver string | UndefinedInterval string | IntervalNotUnique string | MissingName
  | BadLabelName string | BadRegexp string | InvalidMatchers compat_error | WildcardAndLabels | DuplicateGroupBy string
  | ZeroGroupInterval | ZeroRepeatInterval | ReceiverLabelName string

datatype 'a load_result = Loaded 'a | Rejected config_error | LoadPanic

fun and_then :: "'a load_result \<Rightarrow> ('a \<Rightarrow> 'b load_result) \<Rightarrow> 'b load_result" where
  "and_then (Loaded x) f = f x"
| "and_then (Rejected e) f = Rejected e"
| "and_then LoadPanic f = LoadPanic"

definition ensure :: "bool \<Rightarrow> config_error \<Rightarrow> unit load_result" where
  "ensure b e = (if b then Loaded () else Rejected e)"

lemma and_then_Loaded [simp]: "and_then r f = Loaded y \<longleftrightarrow> (\<exists>x. r = Loaded x \<and> f x = Loaded y)"
  by (cases r) simp_all

lemma ensure_Loaded [simp]: "ensure b e = Loaded u \<longleftrightarrow> b"
  by (simp add: ensure_def)

text \<open>A loop over a list that stops at the first failure.\<close>

fun load_map :: "('a \<Rightarrow> 'b load_result) \<Rightarrow> 'a list \<Rightarrow> 'b list load_result" where
  "load_map f [] = Loaded []"
| "load_map f (x # xs) = and_then (f x) (\<lambda>y. and_then (load_map f xs) (\<lambda>ys. Loaded (y # ys)))"

fun load_fold :: "('s \<Rightarrow> 'a \<Rightarrow> ('s \<times> 'b) load_result) \<Rightarrow> 's \<Rightarrow> 'a list \<Rightarrow> ('s \<times> 'b list) load_result" where
  "load_fold f s [] = Loaded (s, [])"
| "load_fold f s (x # xs) = and_then (f s x) (\<lambda>(s1, y). and_then (load_fold f s1 xs) (\<lambda>(s2, ys). Loaded (s2, y # ys)))"

lemma load_map_Loaded: "load_map f xs = Loaded ys \<Longrightarrow> list_all2 (\<lambda>x y. f x = Loaded y) xs ys"
  by (induction xs arbitrary: ys) auto

section \<open>Routes\<close>

record config_env =
  ce_rx :: regexp_engine
  ce_mode :: compat_mode
  ce_quote :: "string \<Rightarrow> string"
  ce_legacy :: "string \<Rightarrow> bool"
  ce_labelNameRE :: "string \<Rightarrow> bool"

definition label_ok :: "config_env \<Rightarrow> string \<Rightarrow> bool" where
  "label_ok E = IsValidLabelName (ce_legacy E) (ce_mode E)"

definition Regexp_UnmarshalYAML :: "config_env \<Rightarrow> string \<Rightarrow> string load_result" where
  "Regexp_UnmarshalYAML E s = (case ce_rx E (anchored s) of None \<Rightarrow> Rejected (BadRegexp s) | Some _ \<Rightarrow> Loaded (anchored s))"

text \<open>A map from names to expressions; the text of a compiled expression is the anchored one.\<close>

definition MatchRegexps_UnmarshalYAML :: "config_env \<Rightarrow> (string \<times> string option) list \<Rightarrow> (string \<times> string) list load_result" where
  "MatchRegexps_UnmarshalYAML E res =
     and_then (load_map (\<lambda>(k, v). case v of
         None \<Rightarrow> Loaded (k, None)
       | Some s \<Rightarrow> and_then (Regexp_UnmarshalYAML E s) (\<lambda>t. Loaded (k, Some t))) res)
       (load_map (\<lambda>(k, v). and_then (ensure (ce_labelNameRE E k) (BadLabelName k)) (\<lambda>_. case v of
           None \<Rightarrow> Rejected (BadRegexp k)
         | Some t \<Rightarrow> Loaded (k, t))))"

definition Matchers_UnmarshalYAML :: "config_env \<Rightarrow> string list \<Rightarrow> matchers load_result" where
  "Matchers_UnmarshalYAML E lines =
     and_then (load_map (\<lambda>line. case fst (compat_Matchers (ce_mode E) (ce_rx E) (ce_quote E) line) of
         Inl e \<Rightarrow> Rejected (InvalidMatchers e)
       | Inr pm \<Rightarrow> Loaded pm) lines) (\<lambda>mss. Loaded (sort_matchers (concat mss)))"

record raw_route_opts =
  rr_Receiver :: string
  rr_GroupByStr :: "string list option"
  rr_Match :: "(string \<times> string) list"
  rr_MatchRE :: "(string \<times> string option) list"
  rr_Matchers :: "string list"
  rr_MuteTimeIntervals :: "string list"
  rr_ActiveTimeIntervals :: "string list"
  rr_Continue :: bool
  rr_GroupWait :: "duration option"
  rr_GroupInterval :: "duration option"
  rr_RepeatInterval :: "duration option"
  rr_Labels :: "(string \<times> string) list"

datatype raw_route = RawRoute raw_route_opts "raw_route option list"

text \<open>A decoded route, whose children may still be nil.\<close>

datatype pre_route = PreRoute (pre_opts: config_route_opts) (pre_routes: "pre_route option list")

fun group_by_loop :: "config_env \<Rightarrow> string list \<Rightarrow> (string list \<times> bool) load_result" where
  "group_by_loop E [] = Loaded ([], False)"
| "group_by_loop E (l # ls) =
     (if l = ''...'' then and_then (group_by_loop E ls) (\<lambda>(g, a). Loaded (g, True))
      else if \<not> label_ok E l then Rejected (BadLabelName l)
      else and_then (group_by_loop E ls) (\<lambda>(g, a). Loaded (l # g, a)))"

fun no_duplicates :: "string list \<Rightarrow> string list \<Rightarrow> unit load_result" where
  "no_duplicates seen [] = Loaded ()"
| "no_duplicates seen (l # ls) = (if l \<in> set seen then Rejected (DuplicateGroupBy l) else no_duplicates (l # seen) ls)"

definition Route_UnmarshalYAML :: "config_env \<Rightarrow> raw_route_opts \<Rightarrow> config_route_opts load_result" where
  "Route_UnmarshalYAML E r =
     and_then (MatchRegexps_UnmarshalYAML E (rr_MatchRE r)) (\<lambda>res.
     and_then (Matchers_UnmarshalYAML E (rr_Matchers r)) (\<lambda>ms.
     and_then (load_map (\<lambda>(k, v). ensure (ce_labelNameRE E k) (BadLabelName k)) (rr_Match r)) (\<lambda>_.
     and_then (load_map (\<lambda>(k, v). ensure (label_ok E k) (BadLabelName k)) (rr_Labels r)) (\<lambda>_.
     and_then (group_by_loop E (case rr_GroupByStr r of None \<Rightarrow> [] | Some ls \<Rightarrow> ls)) (\<lambda>(names, wildcard).
     and_then (ensure (\<not> (names \<noteq> [] \<and> wildcard)) WildcardAndLabels) (\<lambda>_.
     and_then (no_duplicates [] names) (\<lambda>_.
     and_then (ensure (rr_GroupInterval r \<noteq> Some 0) ZeroGroupInterval) (\<lambda>_.
     and_then (ensure (rr_RepeatInterval r \<noteq> Some 0) ZeroRepeatInterval) (\<lambda>_.
       Loaded \<lparr>cr_Receiver = rr_Receiver r,
         cr_GroupBy = (if names \<noteq> [] then Some names else if rr_GroupByStr r = Some [] then Some [] else None),
         cr_GroupByAll = wildcard, cr_Match = rr_Match r, cr_MatchRE = res, cr_Matchers = ms,
         cr_MuteTimeIntervals = rr_MuteTimeIntervals r, cr_ActiveTimeIntervals = rr_ActiveTimeIntervals r, cr_Continue = rr_Continue r,
         cr_GroupWait = rr_GroupWait r, cr_GroupInterval = rr_GroupInterval r, cr_RepeatInterval = rr_RepeatInterval r,
         cr_Labels = map_of (rr_Labels r)\<rparr>)))))))))"

text \<open>The decoder fills the children of a route before the checks of the route itself.\<close>

fun decode_route :: "config_env \<Rightarrow> raw_route \<Rightarrow> pre_route load_result"
and decode_routes :: "config_env \<Rightarrow> raw_route option list \<Rightarrow> pre_route option list load_result" where
  "decode_route E (RawRoute r rs) =
     and_then (decode_routes E rs) (\<lambda>cs. and_then (Route_UnmarshalYAML E r) (\<lambda>opts. Loaded (PreRoute opts cs)))"
| "decode_routes E [] = Loaded []"
| "decode_routes E (None # rs) = and_then (decode_routes E rs) (\<lambda>cs. Loaded (None # cs))"
| "decode_routes E (Some r # rs) = and_then (decode_route E r) (\<lambda>c. and_then (decode_routes E rs) (\<lambda>cs. Loaded (Some c # cs)))"

text \<open>The checks of the tree follow every child pointer, so a nil child is a panic.\<close>

fun checkReceiver :: "pre_route \<Rightarrow> string set \<Rightarrow> unit load_result"
and checkReceivers :: "pre_route option list \<Rightarrow> string set \<Rightarrow> unit load_result" where
  "checkReceiver (PreRoute o1 rs) names =
     and_then (checkReceivers rs names) (\<lambda>_.
       if cr_Receiver o1 = '''' then Loaded ()
       else ensure (cr_Receiver o1 \<in> names) (UndefinedReceiver (cr_Receiver o1)))"
| "checkReceivers [] names = Loaded ()"
| "checkReceivers (None # rs) names = LoadPanic"
| "checkReceivers (Some r # rs) names = and_then (checkReceiver r names) (\<lambda>_. checkReceivers rs names)"

definition all_defined :: "string list \<Rightarrow> string set \<Rightarrow> unit load_result" where
  "all_defined ns names = and_then (load_map (\<lambda>n. ensure (n \<in> names) (UndefinedInterval n)) ns) (\<lambda>_. Loaded ())"

fun checkTimeInterval :: "pre_route \<Rightarrow> string set \<Rightarrow> unit load_result"
and checkTimeIntervals :: "pre_route option list \<Rightarrow> string set \<Rightarrow> unit load_result" where
  "checkTimeInterval (PreRoute o1 rs) names =
     and_then (checkTimeIntervals rs names) (\<lambda>_. and_then (all_defined (cr_ActiveTimeIntervals o1) names) (\<lambda>_. all_defined (cr_MuteTimeIntervals o1) names))"
| "checkTimeIntervals [] names = Loaded ()"
| "checkTimeIntervals (None # rs) names = LoadPanic"
| "checkTimeIntervals (Some r # rs) names = and_then (checkTimeInterval r names) (\<lambda>_. checkTimeIntervals rs names)"

text \<open>The tree without pointers, once it is known that none is nil.\<close>

fun route_of :: "pre_route \<Rightarrow> config_route option"
and routes_of :: "pre_route option list \<Rightarrow> config_route list option" where
  "route_of (PreRoute o1 rs) = map_option (ConfigRoute o1) (routes_of rs)"
| "routes_of [] = Some []"
| "routes_of (None # rs) = None"
| "routes_of (Some r # rs) = (case (route_of r, routes_of rs) of (Some c, Some cs) \<Rightarrow> Some (c # cs) | _ \<Rightarrow> None)"

end
