(* ===== verification/Config_Receivers.thy ===== *)
theory Config_Receivers
  imports Config
begin

text \<open>
  The global section and the receivers of the configuration, \<^verbatim>\<open>config/config.go\<close>: the checks of the global section,
  and the filling of every integration of a receiver from it. An integration keeps the fields that
  these methods read or write.

  The pointers to URLs are shared: where an integration takes the URL of the global section and a slash is added
  to its path, the global section sees it, so the filling of an integration returns the global
  section too. A nil element of the lists of Slack, OpsGenie, WeChat and Rocket.Chat integrations is replaced in
  the loop variable only, and stays in the list.
\<close>

section \<open>Types\<close>

type_synonym tls_config = string

record url =
  u_Prefix :: string
  u_Path :: string

record authorization =
  au_Type :: string
  au_Credentials :: string
  au_CredentialsFile :: string

record http_config =
  hc_Authorization :: "authorization option"
  hc_ProxyURL :: "url option"
  hc_rest :: string

record host_port =
  hp_Host :: string
  hp_Port :: string

definition no_host :: host_port where
  "no_host = \<lparr>hp_Host = '''', hp_Port = ''''\<rparr>"

text \<open>\<^verbatim>\<open>net.JoinHostPort\<close> brackets a host that has a colon.\<close>

definition HostPort_String :: "host_port \<Rightarrow> string" where
  "HostPort_String hp =
     (if hp_Host hp = '''' \<and> hp_Port hp = '''' then ''''
      else if CHR '':'' \<in> set (hp_Host hp) then ''['' @ hp_Host hp @ '']:'' @ hp_Port hp
      else hp_Host hp @ '':'' @ hp_Port hp)"

record global_config =
  gl_ResolveTimeout :: duration
  gl_HTTPConfig :: "http_config option"
  gl_JiraAPIURL :: "url option"
  gl_SMTPFrom :: string
  gl_SMTPHello :: string
  gl_SMTPSmarthost :: host_port
  gl_SMTPAuthUsername :: string
  gl_SMTPAuthPassword :: string
  gl_SMTPAuthPasswordFile :: string
  gl_SMTPAuthSecret :: string
  gl_SMTPAuthSecretFile :: string
  gl_SMTPAuthIdentity :: string
  gl_SMTPRequireTLS :: bool
  gl_SMTPTLSConfig :: "tls_config option"
  gl_SMTPForceImplicitTLS :: "bool option"
  gl_SlackAPIURL :: "url option"
  gl_SlackAPIURLFile :: string
  gl_SlackAppToken :: string
  gl_SlackAppTokenFile :: string
  gl_SlackAppURL :: "url option"
  gl_PagerdutyURL :: "url option"
  gl_OpsGenieAPIURL :: "url option"
  gl_OpsGenieAPIKey :: string
  gl_OpsGenieAPIKeyFile :: string
  gl_WeChatAPIURL :: "url option"
  gl_WeChatAPISecret :: string
  gl_WeChatAPISecretFile :: string
  gl_WeChatAPICorpID :: string
  gl_VictorOpsAPIURL :: "url option"
  gl_VictorOpsAPIKey :: string
  gl_VictorOpsAPIKeyFile :: string
  gl_TelegramAPIUrl :: "url option"
  gl_TelegramBotToken :: string
  gl_TelegramBotTokenFile :: string
  gl_WebexAPIURL :: "url option"
  gl_RocketchatAPIURL :: "url option"
  gl_RocketchatToken :: "string option"
  gl_RocketchatTokenFile :: string
  gl_RocketchatTokenID :: "string option"
  gl_RocketchatTokenIDFile :: string
  gl_MattermostWebhookURL :: "url option"
  gl_MattermostWebhookURLFile :: string

definition DefaultGlobalConfig :: "http_config \<Rightarrow> tls_config \<Rightarrow> global_config" where
  "DefaultGlobalConfig http tls = \<lparr>gl_ResolveTimeout = 5 * 60 * second, gl_HTTPConfig = Some http, gl_JiraAPIURL = None, gl_SMTPFrom = '''',
     gl_SMTPHello = ''localhost'', gl_SMTPSmarthost = no_host, gl_SMTPAuthUsername = '''', gl_SMTPAuthPassword = '''', gl_SMTPAuthPasswordFile = '''',
     gl_SMTPAuthSecret = '''', gl_SMTPAuthSecretFile = '''', gl_SMTPAuthIdentity = '''', gl_SMTPRequireTLS = True, gl_SMTPTLSConfig = Some tls,
     gl_SMTPForceImplicitTLS = None, gl_SlackAPIURL = None, gl_SlackAPIURLFile = '''', gl_SlackAppToken = '''', gl_SlackAppTokenFile = '''',
     gl_SlackAppURL = Some \<lparr>u_Prefix = ''https://slack.com'', u_Path = ''/api/chat.postMessage''\<rparr>,
     gl_PagerdutyURL = Some \<lparr>u_Prefix = ''https://events.pagerduty.com'', u_Path = ''/v2/enqueue''\<rparr>,
     gl_OpsGenieAPIURL = Some \<lparr>u_Prefix = ''https://api.opsgenie.com'', u_Path = ''/''\<rparr>, gl_OpsGenieAPIKey = '''', gl_OpsGenieAPIKeyFile = '''',
     gl_WeChatAPIURL = Some \<lparr>u_Prefix = ''https://qyapi.weixin.qq.com'', u_Path = ''/cgi-bin/''\<rparr>, gl_WeChatAPISecret = '''',
     gl_WeChatAPISecretFile = '''', gl_WeChatAPICorpID = '''',
     gl_VictorOpsAPIURL = Some \<lparr>u_Prefix = ''https://alert.victorops.com'', u_Path = ''/integrations/generic/20131114/alert/''\<rparr>,
     gl_VictorOpsAPIKey = '''', gl_VictorOpsAPIKeyFile = '''', gl_TelegramAPIUrl = Some \<lparr>u_Prefix = ''https://api.telegram.org'', u_Path = ''''\<rparr>,
     gl_TelegramBotToken = '''', gl_TelegramBotTokenFile = '''', gl_WebexAPIURL = Some \<lparr>u_Prefix = ''https://webexapis.com'', u_Path = ''/v1/messages''\<rparr>,
     gl_RocketchatAPIURL = Some \<lparr>u_Prefix = ''https://open.rocket.chat'', u_Path = ''/''\<rparr>, gl_RocketchatToken = None, gl_RocketchatTokenFile = '''',
     gl_RocketchatTokenID = None, gl_RocketchatTokenIDFile = '''', gl_MattermostWebhookURL = None, gl_MattermostWebhookURLFile = ''''\<rparr>"

text \<open>The integrations. Kinds with the same fields share a record.\<close>

record plain_config =
  pc_HTTPConfig :: "http_config option"

record email_config =
  ec_TLSConfig :: "tls_config option"
  ec_Smarthost :: host_port
  ec_From :: string
  ec_Hello :: string
  ec_AuthUsername :: string
  ec_AuthPassword :: string
  ec_AuthPasswordFile :: string
  ec_AuthSecret :: string
  ec_AuthSecretFile :: string
  ec_AuthIdentity :: string
  ec_RequireTLS :: "bool option"
  ec_ForceImplicitTLS :: "bool option"

record slack_config =
  sc_HTTPConfig :: "http_config option"
  sc_APIURL :: "url option"
  sc_APIURLFile :: string
  sc_AppToken :: string
  sc_AppTokenFile :: string
  sc_AppURL :: "url option"
  sc_UpdateMessage :: bool

record url_config =
  uc_HTTPConfig :: "http_config option"
  uc_URL :: "url option"

record key_config =
  kc_HTTPConfig :: "http_config option"
  kc_APIURL :: "url option"
  kc_APIKey :: string
  kc_APIKeyFile :: string

record wechat_config =
  wc_HTTPConfig :: "http_config option"
  wc_APIURL :: "url option"
  wc_APISecret :: string
  wc_APISecretFile :: string
  wc_CorpID :: string

record webhook_url_config =
  wu_HTTPConfig :: "http_config option"
  wu_WebhookURL :: "url option"
  wu_WebhookURLFile :: string

record rocketchat_config =
  rk_HTTPConfig :: "http_config option"
  rk_APIURL :: "url option"
  rk_TokenID :: "string option"
  rk_TokenIDFile :: string
  rk_Token :: "string option"
  rk_TokenFile :: string

record receiver_config =
  rv_Name :: string
  rv_Labels :: "string \<rightharpoonup> string"
  rv_Webhook :: "plain_config option list"
  rv_Email :: "email_config option list"
  rv_Slack :: "slack_config option list"
  rv_Pushover :: "plain_config option list"
  rv_Pagerduty :: "url_config option list"
  rv_Incidentio :: "plain_config option list"
  rv_OpsGenie :: "key_config option list"
  rv_Wechat :: "wechat_config option list"
  rv_VictorOps :: "key_config option list"
  rv_SNS :: "plain_config option list"
  rv_Telegram :: "key_config option list"
  rv_Discord :: "webhook_url_config option list"
  rv_Webex :: "url_config option list"
  rv_MSTeams :: "webhook_url_config option list"
  rv_MSTeamsV2 :: "webhook_url_config option list"
  rv_Jira :: "url_config option list"
  rv_Rocketchat :: "rocketchat_config option list"
  rv_Mattermost :: "webhook_url_config option list"

section \<open>The global section\<close>

definition at_most_one :: "bool \<Rightarrow> bool \<Rightarrow> string \<Rightarrow> string \<Rightarrow> unit load_result" where
  "at_most_one a b x y = ensure (\<not> (a \<and> b)) (AtMostOneOf x y)"

text \<open>The text of a URL; the method of a nil pointer is a panic.\<close>

definition url_String :: "url option \<Rightarrow> string load_result" where
  "url_String u = (case u of None \<Rightarrow> LoadPanic | Some v \<Rightarrow> Loaded (u_Prefix v @ u_Path v))"

definition slack_url_check :: "global_config \<Rightarrow> unit load_result" where
  "slack_url_check g =
     (if (gl_SlackAppToken g \<noteq> '''' \<or> gl_SlackAppTokenFile g \<noteq> '''') \<and> (gl_SlackAPIURL g \<noteq> None \<or> gl_SlackAPIURLFile g \<noteq> '''') then
        and_then (url_String (gl_SlackAPIURL g)) (\<lambda>a. and_then (url_String (gl_SlackAppURL g)) (\<lambda>b.
          ensure (a = b) (AtMostOneOf ''slack_app_token'' ''slack_api_url'')))
      else Loaded ())"

definition check_global :: "global_config \<Rightarrow> unit load_result" where
  "check_global g =
     and_then (at_most_one (gl_SlackAppToken g \<noteq> '''') (gl_SlackAppTokenFile g \<noteq> '''') ''slack_app_token'' ''slack_app_token_file'') (\<lambda>_.
     and_then (at_most_one (gl_SlackAPIURL g \<noteq> None) (gl_SlackAPIURLFile g \<noteq> '''') ''slack_api_url'' ''slack_api_url_file'') (\<lambda>_.
     and_then (slack_url_check g) (\<lambda>_.
     and_then (at_most_one (gl_OpsGenieAPIKey g \<noteq> '''') (gl_OpsGenieAPIKeyFile g \<noteq> '''') ''opsgenie_api_key'' ''opsgenie_api_key_file'') (\<lambda>_.
     and_then (at_most_one (gl_VictorOpsAPIKey g \<noteq> '''') (gl_VictorOpsAPIKeyFile g \<noteq> '''') ''victorops_api_key'' ''victorops_api_key_file'') (\<lambda>_.
     and_then (at_most_one (gl_TelegramBotToken g \<noteq> '''') (gl_TelegramBotTokenFile g \<noteq> '''') ''telegram_bot_token'' ''telegram_bot_token_file'') (\<lambda>_.
     and_then (at_most_one (gl_SMTPAuthPassword g \<noteq> '''') (gl_SMTPAuthPasswordFile g \<noteq> '''') ''smtp_auth_password'' ''smtp_auth_password_file'') (\<lambda>_.
     and_then (at_most_one (gl_RocketchatToken g \<noteq> None) (gl_RocketchatTokenFile g \<noteq> '''') ''rocketchat_token'' ''rocketchat_token_file'') (\<lambda>_.
     and_then (at_most_one (gl_RocketchatTokenID g \<noteq> None) (gl_RocketchatTokenIDFile g \<noteq> '''') ''rocketchat_token_id'' ''rocketchat_token_id_file'') (\<lambda>_.
     and_then (at_most_one (gl_SMTPAuthSecret g \<noteq> '''') (gl_SMTPAuthSecretFile g \<noteq> '''') ''smtp_auth_secret'' ''smtp_auth_secret_file'') (\<lambda>_.
     and_then (at_most_one (gl_WeChatAPISecret g \<noteq> '''') (gl_WeChatAPISecretFile g \<noteq> '''') ''wechat_api_secret'' ''wechat_api_secret_file'') (\<lambda>_.
       at_most_one (gl_MattermostWebhookURL g \<noteq> None) (gl_MattermostWebhookURLFile g \<noteq> '''') ''mattermost_webhook_url'' ''mattermost_webhook_url_file'')))))))))))"

section \<open>Filling the integrations\<close>

text \<open>\<^verbatim>\<open>cmp.Or\<close> on pointers, and on strings.\<close>

definition ptr_or :: "'a option \<Rightarrow> 'a option \<Rightarrow> 'a option" where
  "ptr_or a b = (if a \<noteq> None then a else b)"

definition str_or :: "string \<Rightarrow> string \<Rightarrow> string" where
  "str_or a b = (if a \<noteq> '''' then a else b)"

definition with_slash :: "url \<Rightarrow> url" where
  "with_slash u = (if u_Path u \<noteq> '''' \<and> last (u_Path u) = CHR ''/'' then u else u\<lparr>u_Path := u_Path u @ ''/''\<rparr>)"

text \<open>A loop over pointers: a nil one is an error, or is replaced by an empty integration that is then dropped.\<close>

definition or_missing :: "string \<Rightarrow> ('g \<Rightarrow> 'c \<Rightarrow> ('g \<times> 'c) load_result) \<Rightarrow> 'g \<Rightarrow> 'c option \<Rightarrow> ('g \<times> 'c option) load_result" where
  "or_missing kind fill g c = (case c of
     None \<Rightarrow> Rejected (MissingConfig kind)
   | Some c \<Rightarrow> and_then (fill g c) (\<lambda>(g, c). Loaded (g, Some c)))"

definition or_empty :: "'c \<Rightarrow> ('g \<Rightarrow> 'c \<Rightarrow> ('g \<times> 'c) load_result) \<Rightarrow> 'g \<Rightarrow> 'c option \<Rightarrow> ('g \<times> 'c option) load_result" where
  "or_empty fresh fill g c = (case c of
     None \<Rightarrow> and_then (fill g fresh) (\<lambda>(g, c). Loaded (g, None))
   | Some c \<Rightarrow> and_then (fill g c) (\<lambda>(g, c). Loaded (g, Some c)))"

definition fill_plain :: "global_config \<Rightarrow> plain_config \<Rightarrow> (global_config \<times> plain_config) load_result" where
  "fill_plain g c = Loaded (g, c\<lparr>pc_HTTPConfig := ptr_or (pc_HTTPConfig c) (gl_HTTPConfig g)\<rparr>)"

definition fill_email :: "global_config \<Rightarrow> email_config \<Rightarrow> (global_config \<times> email_config) load_result" where
  "fill_email g ec =
     (let e1 = ec\<lparr>ec_TLSConfig := ptr_or (ec_TLSConfig ec) (gl_SMTPTLSConfig g),
            ec_Smarthost := (if ec_Smarthost ec \<noteq> no_host then ec_Smarthost ec else gl_SMTPSmarthost g)\<rparr>
      in and_then (ensure (HostPort_String (ec_Smarthost e1) \<noteq> '''') (NotSet ''SMTP smarthost'')) (\<lambda>_.
      let e2 = e1\<lparr>ec_From := str_or (ec_From e1) (gl_SMTPFrom g)\<rparr>
      in and_then (ensure (ec_From e2 \<noteq> '''') (NotSet ''SMTP from'')) (\<lambda>_.
      let e3 = e2\<lparr>ec_Hello := str_or (ec_Hello e2) (gl_SMTPHello g), ec_AuthUsername := str_or (ec_AuthUsername e2) (gl_SMTPAuthUsername g)\<rparr>;
          e4 = (if ec_AuthPassword e3 = '''' \<and> ec_AuthPasswordFile e3 = ''''
                then e3\<lparr>ec_AuthPassword := gl_SMTPAuthPassword g, ec_AuthPasswordFile := gl_SMTPAuthPasswordFile g\<rparr> else e3);
          e5 = (if ec_AuthSecret e4 = '''' \<and> ec_AuthSecretFile e4 = ''''
                then e4\<lparr>ec_AuthSecret := gl_SMTPAuthSecret g, ec_AuthSecretFile := gl_SMTPAuthSecretFile g\<rparr> else e4);
          e6 = e5\<lparr>ec_AuthIdentity := str_or (ec_AuthIdentity e5) (gl_SMTPAuthIdentity g),
            ec_RequireTLS := (case ec_RequireTLS e5 of None \<Rightarrow> Some (gl_SMTPRequireTLS g) | Some b \<Rightarrow> Some b),
            ec_ForceImplicitTLS := (case ec_ForceImplicitTLS e5 of None \<Rightarrow> gl_SMTPForceImplicitTLS g | Some b \<Rightarrow> Some b)\<rparr>
      in Loaded (g, e6))))"

definition fill_slack :: "global_config \<Rightarrow> slack_config \<Rightarrow> (global_config \<times> slack_config) load_result" where
  "fill_slack g sc =
     (let s1 = sc\<lparr>sc_AppURL := ptr_or (sc_AppURL sc) (gl_SlackAppURL g)\<rparr>
      in and_then (ensure (sc_AppURL s1 \<noteq> None) (NotSet ''Slack App URL'')) (\<lambda>_.
      let s2 = (if sc_AppToken s1 = '''' \<and> sc_AppTokenFile s1 = ''''
                  \<and> (case sc_HTTPConfig s1 of None \<Rightarrow> True | Some h \<Rightarrow> hc_Authorization h = None) \<and> sc_APIURL s1 = None
                then s1\<lparr>sc_AppToken := gl_SlackAppToken g, sc_AppTokenFile := gl_SlackAppTokenFile g\<rparr> else s1);
          s3 = (if sc_APIURL s2 = None \<and> sc_APIURLFile s2 = ''''
                then s2\<lparr>sc_APIURL := gl_SlackAPIURL g, sc_APIURLFile := gl_SlackAPIURLFile g\<rparr> else s2)
      in and_then (ensure (\<not> (sc_APIURL s3 = None \<and> sc_APIURLFile s3 = '''' \<and> sc_AppToken s3 = '''' \<and> sc_AppTokenFile s3 = '''')) (NotSet ''Slack API URL'')) (\<lambda>_.
      case (case sc_HTTPConfig s3 of None \<Rightarrow> gl_HTTPConfig g | Some h \<Rightarrow> Some h) of
        None \<Rightarrow> LoadPanic
      | Some h \<Rightarrow>
          if sc_AppToken s3 \<noteq> '''' \<or> sc_AppTokenFile s3 \<noteq> '''' then
            and_then (ensure (hc_Authorization h = None) AuthorizationSet) (\<lambda>_.
              Loaded (g, s3\<lparr>sc_HTTPConfig := Some (h\<lparr>hc_Authorization := Some \<lparr>au_Type = ''Bearer'', au_Credentials = sc_AppToken s3,
                au_CredentialsFile = sc_AppTokenFile s3\<rparr>\<rparr>), sc_APIURL := sc_AppURL s3\<rparr>))
          else Loaded (g, s3\<lparr>sc_HTTPConfig := Some h\<rparr>))))"

definition fill_url :: "(global_config \<Rightarrow> url option) \<Rightarrow> string \<Rightarrow> global_config \<Rightarrow> url_config \<Rightarrow> (global_config \<times> url_config) load_result" where
  "fill_url gurl kind g c =
     (let c1 = c\<lparr>uc_HTTPConfig := ptr_or (uc_HTTPConfig c) (gl_HTTPConfig g), uc_URL := ptr_or (uc_URL c) (gurl g)\<rparr>
      in and_then (ensure (uc_URL c1 \<noteq> None) (NotSet kind)) (\<lambda>_. Loaded (g, c1)))"

definition fill_opsgenie :: "global_config \<Rightarrow> key_config \<Rightarrow> (global_config \<times> key_config) load_result" where
  "fill_opsgenie g c =
     (let c1 = c\<lparr>kc_HTTPConfig := ptr_or (kc_HTTPConfig c) (gl_HTTPConfig g), kc_APIURL := ptr_or (kc_APIURL c) (gl_OpsGenieAPIURL g)\<rparr>
      in and_then (ensure (kc_APIURL c1 \<noteq> None) (NotSet ''OpsGenie URL'')) (\<lambda>_.
      let g1 = (if kc_APIURL c = None then g\<lparr>gl_OpsGenieAPIURL := map_option with_slash (gl_OpsGenieAPIURL g)\<rparr> else g);
          c2 = c1\<lparr>kc_APIURL := map_option with_slash (kc_APIURL c1)\<rparr>
      in if kc_APIKey c2 = '''' \<and> kc_APIKeyFile c2 = '''' then
           and_then (ensure (\<not> (gl_OpsGenieAPIKey g = '''' \<and> gl_OpsGenieAPIKeyFile g = '''')) (NotSet ''OpsGenie API Key'')) (\<lambda>_.
             Loaded (g1, c2\<lparr>kc_APIKey := gl_OpsGenieAPIKey g, kc_APIKeyFile := gl_OpsGenieAPIKeyFile g\<rparr>))
         else Loaded (g1, c2)))"

definition fill_wechat :: "global_config \<Rightarrow> wechat_config \<Rightarrow> (global_config \<times> wechat_config) load_result" where
  "fill_wechat g c =
     (let c1 = c\<lparr>wc_HTTPConfig := ptr_or (wc_HTTPConfig c) (gl_HTTPConfig g), wc_APIURL := ptr_or (wc_APIURL c) (gl_WeChatAPIURL g)\<rparr>
      in and_then (ensure (wc_APIURL c1 \<noteq> None) (NotSet ''Wechat URL'')) (\<lambda>_.
      and_then (if wc_APISecret c1 = '''' \<and> wc_APISecretFile c1 = '''' then
           and_then (ensure (\<not> (gl_WeChatAPISecret g = '''' \<and> gl_WeChatAPISecretFile g = '''')) (NotSet ''Wechat Api Secret'')) (\<lambda>_.
             Loaded (c1\<lparr>wc_APISecret := gl_WeChatAPISecret g, wc_APISecretFile := gl_WeChatAPISecretFile g\<rparr>))
         else Loaded c1) (\<lambda>c2.
      let c3 = c2\<lparr>wc_CorpID := str_or (wc_CorpID c2) (gl_WeChatAPICorpID g)\<rparr>
      in and_then (ensure (wc_CorpID c3 \<noteq> '''') (NotSet ''Wechat CorpID'')) (\<lambda>_.
      Loaded (if wc_APIURL c = None then g\<lparr>gl_WeChatAPIURL := map_option with_slash (gl_WeChatAPIURL g)\<rparr> else g,
        c3\<lparr>wc_APIURL := map_option with_slash (wc_APIURL c3)\<rparr>)))))"

definition fill_victorops :: "global_config \<Rightarrow> key_config \<Rightarrow> (global_config \<times> key_config) load_result" where
  "fill_victorops g c =
     (let c1 = c\<lparr>kc_HTTPConfig := ptr_or (kc_HTTPConfig c) (gl_HTTPConfig g), kc_APIURL := ptr_or (kc_APIURL c) (gl_VictorOpsAPIURL g)\<rparr>
      in and_then (ensure (kc_APIURL c1 \<noteq> None) (NotSet ''VictorOps URL'')) (\<lambda>_.
      let g1 = (if kc_APIURL c = None then g\<lparr>gl_VictorOpsAPIURL := map_option with_slash (gl_VictorOpsAPIURL g)\<rparr> else g);
          c2 = c1\<lparr>kc_APIURL := map_option with_slash (kc_APIURL c1)\<rparr>
      in if kc_APIKey c2 = '''' \<and> kc_APIKeyFile c2 = '''' then
           and_then (ensure (\<not> (gl_VictorOpsAPIKey g = '''' \<and> gl_VictorOpsAPIKeyFile g = '''')) (NotSet ''VictorOps API Key'')) (\<lambda>_.
             Loaded (g1, c2\<lparr>kc_APIKey := gl_VictorOpsAPIKey g, kc_APIKeyFile := gl_VictorOpsAPIKeyFile g\<rparr>))
         else Loaded (g1, c2)))"

definition fill_telegram :: "global_config \<Rightarrow> key_config \<Rightarrow> (global_config \<times> key_config) load_result" where
  "fill_telegram g c =
     (let c1 = c\<lparr>kc_HTTPConfig := ptr_or (kc_HTTPConfig c) (gl_HTTPConfig g), kc_APIURL := ptr_or (kc_APIURL c) (gl_TelegramAPIUrl g)\<rparr>
      in if kc_APIKey c1 = '''' \<and> kc_APIKeyFile c1 = '''' then
           and_then (ensure (\<not> (gl_TelegramBotToken g = '''' \<and> gl_TelegramBotTokenFile g = '''')) (NotSet ''bot_token'')) (\<lambda>_.
             Loaded (g, c1\<lparr>kc_APIKey := gl_TelegramBotToken g, kc_APIKeyFile := gl_TelegramBotTokenFile g\<rparr>))
         else Loaded (g, c1))"

definition fill_webhook_url :: "string \<Rightarrow> global_config \<Rightarrow> webhook_url_config \<Rightarrow> (global_config \<times> webhook_url_config) load_result" where
  "fill_webhook_url kind g c =
     (let c1 = c\<lparr>wu_HTTPConfig := ptr_or (wu_HTTPConfig c) (gl_HTTPConfig g)\<rparr>
      in and_then (ensure (\<not> (wu_WebhookURL c1 = None \<and> wu_WebhookURLFile c1 = '''')) (NotSet kind)) (\<lambda>_. Loaded (g, c1)))"

definition fill_msteamsv2 :: "global_config \<Rightarrow> webhook_url_config \<Rightarrow> (global_config \<times> webhook_url_config) load_result" where
  "fill_msteamsv2 g c =
     and_then (case wu_HTTPConfig c of
         None \<Rightarrow> (case gl_HTTPConfig g of None \<Rightarrow> LoadPanic | Some h \<Rightarrow> Loaded (c\<lparr>wu_HTTPConfig := Some h\<rparr>))
       | Some h \<Rightarrow>
           if hc_ProxyURL h = None then
             (case gl_HTTPConfig g of None \<Rightarrow> LoadPanic | Some gh \<Rightarrow> Loaded (c\<lparr>wu_HTTPConfig := Some (h\<lparr>hc_ProxyURL := hc_ProxyURL gh\<rparr>)\<rparr>))
           else Loaded c) (\<lambda>c1.
     and_then (ensure (\<not> (wu_WebhookURL c1 = None \<and> wu_WebhookURLFile c1 = '''')) (NotSet ''msteamsv2 webhook URL'')) (\<lambda>_. Loaded (g, c1)))"

definition fill_rocketchat :: "global_config \<Rightarrow> rocketchat_config \<Rightarrow> (global_config \<times> rocketchat_config) load_result" where
  "fill_rocketchat g c =
     (let c1 = c\<lparr>rk_HTTPConfig := ptr_or (rk_HTTPConfig c) (gl_HTTPConfig g), rk_APIURL := ptr_or (rk_APIURL c) (gl_RocketchatAPIURL g)\<rparr>
      in and_then (if rk_TokenID c1 = None \<and> rk_TokenIDFile c1 = '''' then
           and_then (ensure (\<not> (gl_RocketchatTokenID g = None \<and> gl_RocketchatTokenIDFile g = '''')) (NotSet ''Rocketchat TokenID'')) (\<lambda>_.
             Loaded (c1\<lparr>rk_TokenID := gl_RocketchatTokenID g, rk_TokenIDFile := gl_RocketchatTokenIDFile g\<rparr>))
         else Loaded c1) (\<lambda>c2.
         if rk_Token c2 = None \<and> rk_TokenFile c2 = '''' then
           and_then (ensure (\<not> (gl_RocketchatToken g = None \<and> gl_RocketchatTokenFile g = '''')) (NotSet ''Rocketchat Token'')) (\<lambda>_.
             Loaded (g, c2\<lparr>rk_Token := gl_RocketchatToken g, rk_TokenFile := gl_RocketchatTokenFile g\<rparr>))
         else Loaded (g, c2)))"

definition fill_mattermost :: "global_config \<Rightarrow> webhook_url_config \<Rightarrow> (global_config \<times> webhook_url_config) load_result" where
  "fill_mattermost g c =
     (let c1 = c\<lparr>wu_HTTPConfig := ptr_or (wu_HTTPConfig c) (gl_HTTPConfig g)\<rparr>
      in if wu_WebhookURL c1 = None \<and> wu_WebhookURLFile c1 = '''' then
           and_then (ensure (\<not> (gl_MattermostWebhookURL g = None \<and> gl_MattermostWebhookURLFile g = '''')) (NotSet ''mattermost webhook_url'')) (\<lambda>_.
             Loaded (g, c1\<lparr>wu_WebhookURL := gl_MattermostWebhookURL g, wu_WebhookURLFile := gl_MattermostWebhookURLFile g\<rparr>))
         else Loaded (g, c1))"

section \<open>Receivers\<close>

definition empty_slack :: slack_config where
  "empty_slack = \<lparr>sc_HTTPConfig = None, sc_APIURL = None, sc_APIURLFile = '''', sc_AppToken = '''', sc_AppTokenFile = '''', sc_AppURL = None, sc_UpdateMessage = False\<rparr>"

definition empty_key :: key_config where
  "empty_key = \<lparr>kc_HTTPConfig = None, kc_APIURL = None, kc_APIKey = '''', kc_APIKeyFile = ''''\<rparr>"

definition empty_wechat :: wechat_config where
  "empty_wechat = \<lparr>wc_HTTPConfig = None, wc_APIURL = None, wc_APISecret = '''', wc_APISecretFile = '''', wc_CorpID = ''''\<rparr>"

definition empty_rocketchat :: rocketchat_config where
  "empty_rocketchat = \<lparr>rk_HTTPConfig = None, rk_APIURL = None, rk_TokenID = None, rk_TokenIDFile = '''', rk_Token = None, rk_TokenFile = ''''\<rparr>"

definition fill_receiver :: "global_config \<Rightarrow> receiver_config \<Rightarrow> (global_config \<times> receiver_config) load_result" where
  "fill_receiver g0 r =
     and_then (load_fold (or_missing ''webhook'' fill_plain) g0 (rv_Webhook r)) (\<lambda>(g1, webhook).
     and_then (load_fold (or_missing ''email'' fill_email) g1 (rv_Email r)) (\<lambda>(g2, email).
     and_then (load_fold (or_empty empty_slack fill_slack) g2 (rv_Slack r)) (\<lambda>(g3, slack).
     and_then (load_fold (or_missing ''pushover'' fill_plain) g3 (rv_Pushover r)) (\<lambda>(g4, pushover).
     and_then (load_fold (or_missing ''pagerduty'' (fill_url gl_PagerdutyURL ''PagerDuty URL'')) g4 (rv_Pagerduty r)) (\<lambda>(g5, pagerduty).
     and_then (load_fold (or_missing ''incidentio'' fill_plain) g5 (rv_Incidentio r)) (\<lambda>(g6, incidentio).
     and_then (load_fold (or_empty empty_key fill_opsgenie) g6 (rv_OpsGenie r)) (\<lambda>(g7, opsgenie).
     and_then (load_fold (or_empty empty_wechat fill_wechat) g7 (rv_Wechat r)) (\<lambda>(g8, wechat).
     and_then (load_fold (or_missing ''victorops'' fill_victorops) g8 (rv_VictorOps r)) (\<lambda>(g9, victorops).
     and_then (load_fold (or_missing ''sns'' fill_plain) g9 (rv_SNS r)) (\<lambda>(g10, sns).
     and_then (load_fold (or_missing ''telegram'' fill_telegram) g10 (rv_Telegram r)) (\<lambda>(g11, telegram).
     and_then (load_fold (or_missing ''discord'' (fill_webhook_url ''discord webhook URL'')) g11 (rv_Discord r)) (\<lambda>(g12, discord).
     and_then (load_fold (or_missing ''webex'' (fill_url gl_WebexAPIURL ''Webex URL'')) g12 (rv_Webex r)) (\<lambda>(g13, webex).
     and_then (load_fold (or_missing ''msteams'' (fill_webhook_url ''msteams webhook URL'')) g13 (rv_MSTeams r)) (\<lambda>(g14, msteams).
     and_then (load_fold (or_missing ''msteamsv2'' fill_msteamsv2) g14 (rv_MSTeamsV2 r)) (\<lambda>(g15, msteamsv2).
     and_then (load_fold (or_missing ''jira'' (fill_url gl_JiraAPIURL ''Jira Cloud URL'')) g15 (rv_Jira r)) (\<lambda>(g16, jira).
     and_then (load_fold (or_empty empty_rocketchat fill_rocketchat) g16 (rv_Rocketchat r)) (\<lambda>(g17, rocketchat).
     and_then (load_fold (or_missing ''mattermost'' fill_mattermost) g17 (rv_Mattermost r)) (\<lambda>(g18, mattermost).
       Loaded (g18, r\<lparr>rv_Webhook := webhook, rv_Email := email, rv_Slack := slack, rv_Pushover := pushover, rv_Pagerduty := pagerduty,
         rv_Incidentio := incidentio, rv_OpsGenie := opsgenie, rv_Wechat := wechat, rv_VictorOps := victorops, rv_SNS := sns, rv_Telegram := telegram,
         rv_Discord := discord, rv_Webex := webex, rv_MSTeams := msteams, rv_MSTeamsV2 := msteamsv2, rv_Jira := jira, rv_Rocketchat := rocketchat,
         rv_Mattermost := mattermost\<rparr>)))))))))))))))))))"

text \<open>The loop over the receivers, with the names met so far.\<close>

fun fill_receivers :: "string list \<Rightarrow> global_config \<Rightarrow> receiver_config list \<Rightarrow> (global_config \<times> receiver_config list) load_result" where
  "fill_receivers names g [] = Loaded (g, [])"
| "fill_receivers names g (r # rs) =
     and_then (ensure (rv_Name r \<notin> set names) (NameNotUnique (rv_Name r))) (\<lambda>_.
     and_then (fill_receiver g r) (\<lambda>(g1, r1).
     and_then (fill_receivers (rv_Name r # names) g1 rs) (\<lambda>(g2, rs1). Loaded (g2, r1 # rs1))))"

definition Receiver_UnmarshalYAML :: "receiver_config \<Rightarrow> receiver_config load_result" where
  "Receiver_UnmarshalYAML r =
     and_then (ensure (rv_Name r \<noteq> '''') MissingName) (\<lambda>_.
     and_then (ensure (case rv_Labels r ''name'' of None \<Rightarrow> True | Some v \<Rightarrow> v = rv_Name r) (ReceiverLabelName (rv_Name r))) (\<lambda>_.
       Loaded (r\<lparr>rv_Labels := (rv_Labels r)(''name'' \<mapsto> rv_Name r)\<rparr>)))"

text \<open>The check of a Slack integration when it is decoded, which asks the URL for its text.\<close>

definition Slack_Validate :: "slack_config \<Rightarrow> unit load_result" where
  "Slack_Validate c =
     and_then (at_most_one (sc_APIURL c \<noteq> None) (sc_APIURLFile c \<noteq> '''') ''api_url'' ''api_url_file'') (\<lambda>_.
     and_then (at_most_one (sc_AppToken c \<noteq> '''') (sc_AppTokenFile c \<noteq> '''') ''app_token'' ''app_token_file'') (\<lambda>_.
     and_then (at_most_one (sc_APIURL c \<noteq> None \<or> sc_APIURLFile c \<noteq> '''') (sc_AppToken c \<noteq> '''' \<or> sc_AppTokenFile c \<noteq> '''') ''api_url'' ''app_token'') (\<lambda>_.
     if sc_UpdateMessage c then
       and_then (url_String (sc_APIURL c)) (\<lambda>t. ensure (t = ''https://slack.com/api/chat.postMessage'') (AtMostOneOf ''update_message'' ''api_url''))
     else Loaded ())))"

end
