(* ===== verification/Config_Load.thy ===== *)
theory Config_Load
  imports Config_Receivers Aggr_Group
begin

text \<open>
  Loading a configuration, \<^verbatim>\<open>config/config.go\<close>, the coordinator, \<^verbatim>\<open>config/coordinator.go\<close>, the building of the integrations of a
  receiver, \<^verbatim>\<open>config/receiver/receiver.go\<close>, and the reload that turns a configuration into the running
  routing tree, receivers, intervals and inhibition rules, \<^verbatim>\<open>app/reloader.go\<close>.
\<close>

section \<open>The whole document\<close>

record raw_inhibit_rule =
  ri_name :: string
  ri_sourceMatch :: "(string \<times> string) list"
  ri_sourceMatchRE :: "(string \<times> string option) list"
  ri_sourceMatchers :: "string list"
  ri_targetMatch :: "(string \<times> string) list"
  ri_targetMatchRE :: "(string \<times> string option) list"
  ri_targetMatchers :: "string list"
  ri_equal :: "string list"

definition InhibitRule_UnmarshalYAML :: "config_env \<Rightarrow> raw_inhibit_rule \<Rightarrow> inhibit_rule_config load_result" where
  "InhibitRule_UnmarshalYAML E r =
     and_then (MatchRegexps_UnmarshalYAML E (ri_sourceMatchRE r)) (\<lambda>sre.
     and_then (Matchers_UnmarshalYAML E (ri_sourceMatchers r)) (\<lambda>sm.
     and_then (MatchRegexps_UnmarshalYAML E (ri_targetMatchRE r)) (\<lambda>tre.
     and_then (Matchers_UnmarshalYAML E (ri_targetMatchers r)) (\<lambda>tm.
     and_then (load_map (\<lambda>(k, v). ensure (ce_labelNameRE E k) (BadLabelName k)) (ri_sourceMatch r)) (\<lambda>_.
     and_then (load_map (\<lambda>(k, v). ensure (ce_labelNameRE E k) (BadLabelName k)) (ri_targetMatch r)) (\<lambda>_.
     and_then (load_map (\<lambda>l. ensure (label_ok E l) (BadLabelName l)) (ri_equal r)) (\<lambda>_.
       Loaded \<lparr>icr_name = ri_name r, icr_sourceMatch = ri_sourceMatch r, icr_sourceMatchRE = sre, icr_sourceMatchers = sm,
         icr_targetMatch = ri_targetMatch r, icr_targetMatchRE = tre, icr_targetMatchers = tm, icr_equal = ri_equal r\<rparr>)))))))"

type_synonym named_intervals = "string \<times> time_interval list"

definition TimeInterval_UnmarshalYAML :: "named_intervals \<Rightarrow> named_intervals load_result" where
  "TimeInterval_UnmarshalYAML mt = and_then (ensure (fst mt \<noteq> '''') MissingName) (\<lambda>_. Loaded mt)"

record raw_config =
  rw_Global :: "global_config option"
  rw_Route :: "raw_route option"
  rw_InhibitRules :: "raw_inhibit_rule list"
  rw_Receivers :: "receiver_config list"
  rw_Templates :: "string list"
  rw_MuteTimeIntervals :: "named_intervals list"
  rw_TimeIntervals :: "named_intervals list"

record config =
  cf_Global :: global_config
  cf_Route :: config_route
  cf_InhibitRules :: "inhibit_rule_config list"
  cf_Receivers :: "receiver_config list"
  cf_Templates :: "string list"
  cf_MuteTimeIntervals :: "named_intervals list"
  cf_TimeIntervals :: "named_intervals list"

fun interval_names :: "string list \<Rightarrow> named_intervals list \<Rightarrow> string list load_result" where
  "interval_names seen [] = Loaded seen"
| "interval_names seen (mt # mts) = (if fst mt \<in> set seen then Rejected (IntervalNotUnique (fst mt)) else interval_names (fst mt # seen) mts)"

definition check_root :: "config_route_opts \<Rightarrow> unit load_result" where
  "check_root r =
     and_then (ensure (cr_Receiver r \<noteq> '''') RootReceiver) (\<lambda>_.
     and_then (ensure (cr_Match r = [] \<and> cr_MatchRE r = [] \<and> cr_Matchers r = []) RootMatchers) (\<lambda>_.
     and_then (ensure (cr_MuteTimeIntervals r = []) RootMuteIntervals) (\<lambda>_.
     ensure (cr_ActiveTimeIntervals r = []) RootActiveIntervals)))"

text \<open>The checks of the decoded document.\<close>

definition check_config ::
  "global_config \<Rightarrow> pre_route option \<Rightarrow> inhibit_rule_config list \<Rightarrow> receiver_config list \<Rightarrow> string list \<Rightarrow> named_intervals list \<Rightarrow> named_intervals list \<Rightarrow>
     config load_result" where
  "check_config g route rules receivers templates mutes intervals =
     and_then (check_global g) (\<lambda>_.
     and_then (fill_receivers [] g receivers) (\<lambda>(g1, rs).
     case route of
       None \<Rightarrow> Rejected NoRoutes
     | Some r \<Rightarrow>
         and_then (check_root (pre_opts r)) (\<lambda>_.
         and_then (checkReceiver r (set (map rv_Name receivers))) (\<lambda>_.
         and_then (interval_names [] mutes) (\<lambda>seen.
         and_then (interval_names seen intervals) (\<lambda>names.
         and_then (checkTimeInterval r (set names)) (\<lambda>_.
         case route_of r of
           None \<Rightarrow> LoadPanic
         | Some cr \<Rightarrow> Loaded \<lparr>cf_Global = g1, cf_Route = cr, cf_InhibitRules = rules, cf_Receivers = rs, cf_Templates = templates,
             cf_MuteTimeIntervals = mutes, cf_TimeIntervals = intervals\<rparr>)))))))"

definition validate_slack :: "receiver_config \<Rightarrow> unit load_result" where
  "validate_slack r = and_then (load_map (\<lambda>c. case c of None \<Rightarrow> Loaded () | Some sc \<Rightarrow> Slack_Validate sc) (rv_Slack r)) (\<lambda>_. Loaded ())"

definition Config_UnmarshalYAML :: "config_env \<Rightarrow> global_config \<Rightarrow> raw_config \<Rightarrow> config load_result" where
  "Config_UnmarshalYAML E dflt raw =
     and_then (case rw_Route raw of None \<Rightarrow> Loaded None | Some r \<Rightarrow> and_then (decode_route E r) (\<lambda>p. Loaded (Some p))) (\<lambda>route.
     and_then (load_map (InhibitRule_UnmarshalYAML E) (rw_InhibitRules raw)) (\<lambda>rules.
     and_then (load_map (\<lambda>r. and_then (validate_slack r) (\<lambda>_. Receiver_UnmarshalYAML r)) (rw_Receivers raw)) (\<lambda>receivers.
     and_then (load_map TimeInterval_UnmarshalYAML (rw_MuteTimeIntervals raw)) (\<lambda>mutes.
     and_then (load_map TimeInterval_UnmarshalYAML (rw_TimeIntervals raw)) (\<lambda>intervals.
       check_config (case rw_Global raw of None \<Rightarrow> dflt | Some g \<Rightarrow> g) route rules receivers (rw_Templates raw) mutes intervals)))))"

text \<open>\<^verbatim>\<open>Load\<close>; an empty document does not reach \<^verbatim>\<open>UnmarshalYAML\<close>.\<close>

definition Load :: "config_env \<Rightarrow> global_config \<Rightarrow> raw_config option \<Rightarrow> config load_result" where
  "Load E dflt doc = (case doc of
     None \<Rightarrow> Rejected NoRouteProvided
   | Some raw \<Rightarrow> and_then (Config_UnmarshalYAML E dflt raw) (\<lambda>cfg.
       and_then (ensure (\<not> cr_Continue (cr_opts (cf_Route cfg))) RootContinue) (\<lambda>_. Loaded cfg)))"

definition has_nil :: "receiver_config \<Rightarrow> bool" where
  "has_nil r \<longleftrightarrow> None \<in> set (rv_OpsGenie r) \<or> None \<in> set (rv_Pagerduty r) \<or> None \<in> set (rv_Pushover r) \<or> None \<in> set (rv_Slack r)
     \<or> None \<in> set (rv_VictorOps r) \<or> None \<in> set (rv_Webhook r) \<or> None \<in> set (rv_Wechat r) \<or> None \<in> set (rv_SNS r) \<or> None \<in> set (rv_Telegram r)
     \<or> None \<in> set (rv_Discord r) \<or> None \<in> set (rv_Webex r) \<or> None \<in> set (rv_MSTeams r) \<or> None \<in> set (rv_MSTeamsV2 r) \<or> None \<in> set (rv_Jira r)
     \<or> None \<in> set (rv_Rocketchat r) \<or> None \<in> set (rv_Mattermost r)"

text \<open>The paths are resolved against the directory of the file (\<open>join\<close>); every integration's HTTP configuration is visited.\<close>

definition resolveFilepaths :: "(string \<Rightarrow> string) \<Rightarrow> config \<Rightarrow> config load_result" where
  "resolveFilepaths join cfg =
     (if \<exists>r \<in> set (cf_Receivers cfg). has_nil r then LoadPanic
      else Loaded (cfg\<lparr>cf_Templates := map (\<lambda>fp. if fp = '''' then fp else join fp) (cf_Templates cfg)\<rparr>))"

definition LoadFile :: "config_env \<Rightarrow> global_config \<Rightarrow> (string \<Rightarrow> string) \<Rightarrow> raw_config option \<Rightarrow> config load_result" where
  "LoadFile E dflt join doc = and_then (Load E dflt doc) (resolveFilepaths join)"

section \<open>Building the running system\<close>

text \<open>The constructor of an integration is the parameter \<open>new\<close>: an error, or whether the integration sends resolved alerts.\<close>

type_synonym constructor = "string \<Rightarrow> string \<Rightarrow> nat \<Rightarrow> string + bool"

fun build_kind :: "constructor \<Rightarrow> string \<Rightarrow> string \<Rightarrow> nat \<Rightarrow> 'c list \<Rightarrow> integration list \<times> string list" where
  "build_kind new rcv name i [] = ([], [])"
| "build_kind new rcv name i (c # cs) =
     (let (is, errs) = build_kind new rcv name (i + 1) cs
      in case new rcv name i of
           Inl e \<Rightarrow> (is, e # errs)
         | Inr sr \<Rightarrow> (\<lparr>it_name = name, it_idx = i, it_sendResolved = sr\<rparr> # is, errs))"

definition BuildReceiverIntegrations :: "constructor \<Rightarrow> receiver_config \<Rightarrow> integration list \<times> string list" where
  "BuildReceiverIntegrations new nc =
     (let b = (\<lambda>name cs. build_kind new (rv_Name nc) name 0 cs);
          parts = [b ''webhook'' (replicate (length (rv_Webhook nc)) ()), b ''email'' (replicate (length (rv_Email nc)) ()),
            b ''pagerduty'' (replicate (length (rv_Pagerduty nc)) ()), b ''opsgenie'' (replicate (length (rv_OpsGenie nc)) ()),
            b ''wechat'' (replicate (length (rv_Wechat nc)) ()), b ''slack'' (replicate (length (rv_Slack nc)) ()),
            b ''victorops'' (replicate (length (rv_VictorOps nc)) ()), b ''pushover'' (replicate (length (rv_Pushover nc)) ()),
            b ''sns'' (replicate (length (rv_SNS nc)) ()), b ''telegram'' (replicate (length (rv_Telegram nc)) ()),
            b ''discord'' (replicate (length (rv_Discord nc)) ()), b ''webex'' (replicate (length (rv_Webex nc)) ()),
            b ''msteams'' (replicate (length (rv_MSTeams nc)) ()), b ''msteamsv2'' (replicate (length (rv_MSTeamsV2 nc)) ()),
            b ''jira'' (replicate (length (rv_Jira nc)) ()), b ''incidentio'' (replicate (length (rv_Incidentio nc)) ()),
            b ''rocketchat'' (replicate (length (rv_Rocketchat nc)) ()), b ''mattermost'' (replicate (length (rv_Mattermost nc)) ())]
      in (concat (map fst parts), concat (map snd parts)))"

fun build_receivers :: "constructor \<Rightarrow> string set \<Rightarrow> receiver_config list \<Rightarrow> string list + (string \<rightharpoonup> integration list)" where
  "build_receivers new active [] = Inr Map.empty"
| "build_receivers new active (rcv # rcvs) =
     (if rv_Name rcv \<notin> active then build_receivers new active rcvs
      else (case BuildReceiverIntegrations new rcv of (is, errs) \<Rightarrow>
          if errs \<noteq> [] then Inl errs
          else (case build_receivers new active rcvs of
              Inl e \<Rightarrow> Inl e
            | Inr m \<Rightarrow> Inr (\<lambda>n. if n = rv_Name rcv \<and> m n = None then Some is else m n))))"

definition interval_map :: "named_intervals list \<Rightarrow> named_intervals list \<Rightarrow> string \<rightharpoonup> time_interval list" where
  "interval_map mutes intervals = fold (\<lambda>(n, ti) m. m(n \<mapsto> ti)) (mutes @ intervals) Map.empty"

record running =
  rn_root :: route
  rn_receivers :: "string \<rightharpoonup> integration list"
  rn_intervals :: "string \<rightharpoonup> time_interval list"
  rn_rules :: "inhibit_rule list"

datatype reload_result = Reloaded running | ReloadFailed "string list" | ReloadPanic

text \<open>\<open>tmplErr\<close> and \<open>tracingErr\<close> are the errors of the template parser and of the tracing set-up, if any.\<close>

definition reload :: "regexp_engine \<Rightarrow> constructor \<Rightarrow> string option \<Rightarrow> string option \<Rightarrow> config \<Rightarrow> reload_result" where
  "reload rx new tmplErr tracingErr conf = (case tmplErr of
     Some e \<Rightarrow> ReloadFailed [e]
   | None \<Rightarrow> (case NewRoute rx (cf_Route conf) of
       None \<Rightarrow> ReloadPanic
     | Some routes \<Rightarrow>
         (case build_receivers new (set (map (\<lambda>rt. ro_Receiver (rt_RouteOpts rt)) (Walk routes))) (cf_Receivers conf) of
            Inl errs \<Rightarrow> ReloadFailed errs
          | Inr receivers \<Rightarrow> (case tracingErr of
              Some e \<Rightarrow> ReloadFailed [e]
            | None \<Rightarrow> (case NewInhibitor rx (cf_InhibitRules conf) of
                None \<Rightarrow> ReloadPanic
              | Some rules \<Rightarrow> Reloaded \<lparr>rn_root = routes, rn_receivers = receivers,
                  rn_intervals = interval_map (cf_MuteTimeIntervals conf) (cf_TimeIntervals conf), rn_rules = rules\<rparr>)))))"

section \<open>The coordinator\<close>

record coordinator =
  co_config :: "config option"
  co_running :: "running option"
  co_success :: bool

text \<open>One subscriber, the reload: a failed one leaves what runs as it was. A panic is \<open>None\<close>.\<close>

definition Coordinator_ApplyConfig :: "(config \<Rightarrow> reload_result) \<Rightarrow> config option \<Rightarrow> coordinator \<Rightarrow> coordinator option" where
  "Coordinator_ApplyConfig sub new c = (case new of
     None \<Rightarrow> Some (c\<lparr>co_success := False\<rparr>)
   | Some conf \<Rightarrow> (case sub conf of
       ReloadPanic \<Rightarrow> None
     | ReloadFailed errs \<Rightarrow> Some (c\<lparr>co_config := Some conf, co_success := False\<rparr>)
     | Reloaded r \<Rightarrow> Some (c\<lparr>co_config := Some conf, co_running := Some r, co_success := True\<rparr>)))"

definition Coordinator_Reload :: "(config \<Rightarrow> reload_result) \<Rightarrow> config load_result \<Rightarrow> coordinator \<Rightarrow> coordinator option" where
  "Coordinator_Reload sub loaded c = (case loaded of
     LoadPanic \<Rightarrow> None
   | Rejected e \<Rightarrow> Some (c\<lparr>co_success := False\<rparr>)
   | Loaded conf \<Rightarrow> Coordinator_ApplyConfig sub (Some conf) c)"

end
