(* ===== verification/Config_Correct.thy ===== *)
theory Config_Correct
  imports Config_Load
begin

text \<open>
  What a configuration that loads guarantees: the routing tree, the inhibition rules and the receivers can be
  built from it without a panic, every integration has what it needs, and the notification pipeline
  built from it finds a stage for the receiver of every group and every time interval it asks for.
\<close>

section \<open>The nodes of a tree\<close>

fun pre_nodes :: "pre_route \<Rightarrow> config_route_opts list"
and pres_nodes :: "pre_route option list \<Rightarrow> config_route_opts list" where
  "pre_nodes (PreRoute o1 rs) = o1 # pres_nodes rs"
| "pres_nodes [] = []"
| "pres_nodes (None # rs) = pres_nodes rs"
| "pres_nodes (Some r # rs) = pre_nodes r @ pres_nodes rs"

fun cr_nodes :: "config_route \<Rightarrow> config_route_opts list" where
  "cr_nodes (ConfigRoute o1 rs) = o1 # concat (map cr_nodes rs)"

lemma checkReceiver_nodes:
  "checkReceiver r names = Loaded u \<Longrightarrow> (\<forall>o1 \<in> set (pre_nodes r). cr_Receiver o1 = '''' \<or> cr_Receiver o1 \<in> names) \<and> (\<exists>cr. route_of r = Some cr)"
  "checkReceivers rs names = Loaded u \<Longrightarrow> (\<forall>o1 \<in> set (pres_nodes rs). cr_Receiver o1 = '''' \<or> cr_Receiver o1 \<in> names) \<and> (\<exists>crs. routes_of rs = Some crs)"
  by (induction r names and rs names arbitrary: u and u rule: checkReceiver_checkReceivers.induct) (auto split: if_splits)

lemma all_defined_iff: "all_defined ns names = Loaded u \<longleftrightarrow> set ns \<subseteq> names"
  unfolding all_defined_def by (induction ns) auto

lemma checkTimeInterval_nodes:
  "checkTimeInterval r names = Loaded u \<Longrightarrow> \<forall>o1 \<in> set (pre_nodes r). set (cr_ActiveTimeIntervals o1) \<union> set (cr_MuteTimeIntervals o1) \<subseteq> names"
  "checkTimeIntervals rs names = Loaded u \<Longrightarrow> \<forall>o1 \<in> set (pres_nodes rs). set (cr_ActiveTimeIntervals o1) \<union> set (cr_MuteTimeIntervals o1) \<subseteq> names"
  by (induction r names and rs names arbitrary: u and u rule: checkTimeInterval_checkTimeIntervals.induct) (auto simp: all_defined_iff)

lemma route_of_nodes:
  "route_of r = Some cr \<Longrightarrow> cr_nodes cr = pre_nodes r"
  "routes_of rs = Some crs \<Longrightarrow> concat (map cr_nodes crs) = pres_nodes rs"
  by (induction r and rs arbitrary: cr and crs rule: route_of_routes_of.induct) (auto split: option.splits)

text \<open>What decoding guarantees of a node: its expressions compile and its intervals are not zero.\<close>

definition node_ok :: "regexp_engine \<Rightarrow> config_route_opts \<Rightarrow> bool" where
  "node_ok rx o1 \<longleftrightarrow> (\<forall>(k, t) \<in> set (cr_MatchRE o1). \<exists>s. t = anchored s \<and> rx (anchored s) \<noteq> None)
     \<and> cr_GroupInterval o1 \<noteq> Some 0 \<and> cr_RepeatInterval o1 \<noteq> Some 0"

lemma list_all2_setD: "list_all2 P xs ys \<Longrightarrow> y \<in> set ys \<Longrightarrow> \<exists>x \<in> set xs. P x y"
  by (induction rule: list_all2_induct) auto

lemma MatchRegexps_compile:
  assumes "MatchRegexps_UnmarshalYAML E res = Loaded out" "(k, t) \<in> set out"
  shows "\<exists>s. t = anchored s \<and> ce_rx E (anchored s) \<noteq> None"
proof -
  obtain mid where m: "load_map (\<lambda>(k, v). case v of None \<Rightarrow> Loaded (k, None)
       | Some s \<Rightarrow> and_then (Regexp_UnmarshalYAML E s) (\<lambda>t. Loaded (k, Some t))) res = Loaded mid"
    and o1: "load_map (\<lambda>(k, v). and_then (ensure (ce_labelNameRE E k) (BadLabelName k)) (\<lambda>_. case v of
           None \<Rightarrow> Rejected (BadRegexp k) | Some t \<Rightarrow> Loaded (k, t))) mid = Loaded out"
    using assms(1) by (auto simp: MatchRegexps_UnmarshalYAML_def)
  obtain x where x: "x \<in> set mid" "x = (k, Some t)"
    using list_all2_setD [OF load_map_Loaded [OF o1] assms(2)] by (auto split: option.splits)
  obtain y where "y \<in> set res" "(case y of (k, v) \<Rightarrow> case v of None \<Rightarrow> Loaded (k, None)
       | Some s \<Rightarrow> and_then (Regexp_UnmarshalYAML E s) (\<lambda>t. Loaded (k, Some t))) = Loaded x"
    using list_all2_setD [OF load_map_Loaded [OF m] x(1)] by blast
  then show ?thesis using x(2) by (auto simp: Regexp_UnmarshalYAML_def split: option.splits prod.splits)
qed

lemma Route_UnmarshalYAML_ok: "Route_UnmarshalYAML E r = Loaded o1 \<Longrightarrow> node_ok (ce_rx E) o1"
  using MatchRegexps_compile by (fastforce simp: Route_UnmarshalYAML_def node_ok_def split: prod.splits)

lemma decode_route_nodes:
  "decode_route E raw = Loaded r \<Longrightarrow> \<forall>o1 \<in> set (pre_nodes r). node_ok (ce_rx E) o1"
  "decode_routes E raws = Loaded rs \<Longrightarrow> \<forall>o1 \<in> set (pres_nodes rs). node_ok (ce_rx E) o1"
  by (induction E raw and E raws arbitrary: r and rs rule: decode_route_decode_routes.induct) (auto dest: Route_UnmarshalYAML_ok)

section \<open>The routing tree\<close>

lemma newRoute_all:
  "newRoute rx cr parent n = Some (r, m) \<Longrightarrow> P (newRoute_opts (cr_opts cr) (case parent of None \<Rightarrow> DefaultRouteOpts | Some po \<Rightarrow> po)) \<Longrightarrow>
     (\<And>o1 po. o1 \<in> set (cr_nodes cr) \<Longrightarrow> P po \<Longrightarrow> P (newRoute_opts o1 po)) \<Longrightarrow> \<forall>rt \<in> set (Walk r). P (rt_RouteOpts rt)"
  "newRoutes rx crs po n = Some (rs, m) \<Longrightarrow> P po \<Longrightarrow>
     (\<And>o1 po. o1 \<in> set (concat (map cr_nodes crs)) \<Longrightarrow> P po \<Longrightarrow> P (newRoute_opts o1 po)) \<Longrightarrow> \<forall>rt \<in> set (concat (map Walk rs)). P (rt_RouteOpts rt)"
proof (induction rx cr parent n and rx crs po n arbitrary: r m and rs m rule: newRoute_newRoutes.induct)
  case (1 rx cr crs parent counter)
  define opts where "opts = newRoute_opts cr (case parent of None \<Rightarrow> DefaultRouteOpts | Some po \<Rightarrow> po)"
  from "1.prems"(1) obtain ms rs idx where ms: "side_matchers rx (cr_Match cr) (cr_MatchRE cr) (cr_Matchers cr) = Some ms"
    and rs: "newRoutes rx crs opts counter = Some (rs, idx)" and r: "r = Route opts (sort_matchers ms) (cr_Continue cr) rs idx"
    by (auto simp: Let_def opts_def split: option.splits)
  have p: "P opts" using "1.prems"(2) by (simp add: opts_def)
  have "\<forall>rt \<in> set (concat (map Walk rs)). P (rt_RouteOpts rt)"
    by (rule "1.IH" [OF opts_def ms rs p]) (use "1.prems"(3) in auto)
  then show ?case using p r by auto
next
  case (2 rx parent counter)
  then show ?case by simp
next
  case (3 rx cr crs parent counter)
  from "3.prems"(1) obtain r1 c1 rs1 where r: "newRoute rx cr (Some parent) counter = Some (r1, c1)" "newRoutes rx crs parent c1 = Some (rs1, m)" "rs = r1 # rs1"
    by (auto split: option.splits)
  have n: "cr_opts cr \<in> set (cr_nodes cr)" by (cases cr) simp
  have "\<forall>rt \<in> set (Walk r1). P (rt_RouteOpts rt)"
    by (rule "3.IH"(1) [OF r(1)]) (use "3.prems"(2,3) n in auto)
  moreover have "\<forall>rt \<in> set (concat (map Walk rs1)). P (rt_RouteOpts rt)"
    by (rule "3.IH"(2) [OF r(1) refl r(2) "3.prems"(2)]) (use "3.prems"(3) in auto)
  ultimately show ?case using r(3) by auto
qed

lemma config_matchers_some: "(\<And>k v. (k, v) \<in> set ps \<Longrightarrow> NewMatcher rx t k v \<noteq> None) \<Longrightarrow> config_matchers rx t ps \<noteq> None"
proof (induction ps)
  case (Cons p ps)
  obtain k v where p: "p = (k, v)" by force
  obtain m where "NewMatcher rx t k v = Some m" using Cons.prems [of k v] p by auto
  then show ?case using Cons p by auto
qed simp

definition rx_nests :: "regexp_engine \<Rightarrow> bool" where
  "rx_nests rx \<longleftrightarrow> (\<forall>s. rx (anchored s) \<noteq> None \<longrightarrow> rx (anchored (anchored s)) \<noteq> None)"

lemma side_matchers_some:
  assumes "rx_nests rx" "\<forall>(k, t) \<in> set res. \<exists>s. t = anchored s \<and> rx (anchored s) \<noteq> None"
  shows "side_matchers rx eqs res ms \<noteq> None"
proof -
  have "config_matchers rx MatchEqual eqs \<noteq> None" by (rule config_matchers_some) (simp add: NewMatcher_def)
  moreover have "config_matchers rx MatchRegexp res \<noteq> None"
  proof (rule config_matchers_some)
    fix k v assume "(k, v) \<in> set res"
    then obtain s where "v = anchored s" "rx (anchored s) \<noteq> None" using assms(2) by auto
    then show "NewMatcher rx MatchRegexp k v \<noteq> None" using assms(1) by (auto simp: NewMatcher_def rx_nests_def split: option.splits)
  qed
  ultimately show ?thesis by (auto simp: side_matchers_def)
qed

lemma newRoute_some:
  "rx_nests rx \<Longrightarrow> \<forall>o1 \<in> set (cr_nodes cr). node_ok rx o1 \<Longrightarrow> newRoute rx cr parent n \<noteq> None"
  "rx_nests rx \<Longrightarrow> \<forall>o1 \<in> set (concat (map cr_nodes crs)). node_ok rx o1 \<Longrightarrow> newRoutes rx crs po n \<noteq> None"
proof (induction rx cr parent n and rx crs po n rule: newRoute_newRoutes.induct)
  case (1 rx cr crs parent counter)
  define opts where "opts = newRoute_opts cr (case parent of None \<Rightarrow> DefaultRouteOpts | Some po \<Rightarrow> po)"
  obtain ms where ms: "side_matchers rx (cr_Match cr) (cr_MatchRE cr) (cr_Matchers cr) = Some ms"
    using side_matchers_some [OF "1.prems"(1), of "cr_MatchRE cr" "cr_Match cr" "cr_Matchers cr"] "1.prems"(2) by (auto simp: node_ok_def)
  have "newRoutes rx crs opts counter \<noteq> None" by (rule "1.IH" [OF opts_def ms "1.prems"(1)]) (use "1.prems"(2) in auto)
  then show ?case using ms by (auto simp: Let_def opts_def)
next
  case (3 rx cr crs parent counter)
  obtain r c1 where r: "newRoute rx cr (Some parent) counter = Some (r, c1)" using "3.IH"(1) "3.prems" by fastforce
  have "newRoutes rx crs parent c1 \<noteq> None" by (rule "3.IH"(2) [OF r refl "3.prems"(1)]) (use "3.prems"(2) in auto)
  then show ?case using r by auto
qed simp


section \<open>What is checked of the tree is true of its nodes\<close>

lemma interval_names_set: "interval_names seen mts = Loaded ns \<Longrightarrow> set ns = set seen \<union> fst ` set mts"
  by (induction seen mts arbitrary: ns rule: interval_names.induct) (auto split: if_splits)

lemma fill_receiver_Name: "fill_receiver g r = Loaded (g1, r1) \<Longrightarrow> rv_Name r1 = rv_Name r"
  by (auto simp: fill_receiver_def split: prod.splits)

lemma fill_receivers_names:
  "fill_receivers names g rs = Loaded (g1, rs1) \<Longrightarrow> map rv_Name rs1 = map rv_Name rs \<and> distinct (map rv_Name rs) \<and> set (map rv_Name rs) \<inter> set names = {}"
proof (induction rs arbitrary: names g g1 rs1)
  case (Cons r rs)
  from Cons.prems obtain g2 r1 rs2 where r: "rv_Name r \<notin> set names" "fill_receiver g r = Loaded (g2, r1)" "fill_receivers (rv_Name r # names) g2 rs = Loaded (g1, rs2)" "rs1 = r1 # rs2"
    by (auto split: prod.splits)
  show ?case using Cons.IH [OF r(3)] fill_receiver_Name [OF r(2)] r(1,4) by auto
qed simp

definition configured :: "config \<Rightarrow> route_opts \<Rightarrow> bool" where
  "configured conf opts \<longleftrightarrow> ro_Receiver opts \<in> set (map rv_Name (cf_Receivers conf))
     \<and> set (ro_MuteTimeIntervals opts) \<union> set (ro_ActiveTimeIntervals opts) \<subseteq> fst ` (set (cf_MuteTimeIntervals conf) \<union> set (cf_TimeIntervals conf))
     \<and> ro_GroupInterval opts \<noteq> 0 \<and> ro_RepeatInterval opts \<noteq> 0"

lemma newRoute_opts_configured:
  assumes "cr_Receiver o1 = '''' \<longrightarrow> ro_Receiver po \<in> set (map rv_Name (cf_Receivers conf))"
    and "ro_GroupInterval po \<noteq> 0" "ro_RepeatInterval po \<noteq> 0" "node_ok rx o1"
    and "cr_Receiver o1 = '''' \<or> cr_Receiver o1 \<in> set (map rv_Name (cf_Receivers conf))"
    and "set (cr_ActiveTimeIntervals o1) \<union> set (cr_MuteTimeIntervals o1) \<subseteq> fst ` (set (cf_MuteTimeIntervals conf) \<union> set (cf_TimeIntervals conf))"
  shows "configured conf (newRoute_opts o1 po)"
  using assms by (auto simp: configured_def newRoute_opts_def node_ok_def Let_def split: option.splits)

lemma check_config_Loaded:
  assumes "check_config g route rules receivers templates mutes intervals = Loaded conf"
  obtains g1 rs r seen names cr where "route = Some r" "fill_receivers [] g receivers = Loaded (g1, rs)" "check_root (pre_opts r) = Loaded ()"
    "checkReceiver r (set (map rv_Name receivers)) = Loaded ()" "interval_names [] mutes = Loaded seen" "interval_names seen intervals = Loaded names"
    "checkTimeInterval r (set names) = Loaded ()" "route_of r = Some cr"
    "conf = \<lparr>cf_Global = g1, cf_Route = cr, cf_InhibitRules = rules, cf_Receivers = rs, cf_Templates = templates, cf_MuteTimeIntervals = mutes, cf_TimeIntervals = intervals\<rparr>"
proof (cases route)
  case None
  then show thesis using assms by (auto simp: check_config_def)
next
  case (Some r)
  then show thesis using assms that by (cases "route_of r") (auto simp: check_config_def)
qed

lemma check_config_rules: "check_config g route rules receivers templates mutes intervals = Loaded conf \<Longrightarrow> cf_InhibitRules conf = rules"
  by (erule check_config_Loaded) simp

lemma Load_nodes:
  assumes "Load E g doc = Loaded conf"
  shows "cr_Receiver (cr_opts (cf_Route conf)) \<noteq> ''''
    \<and> (\<forall>o1 \<in> set (cr_nodes (cf_Route conf)). node_ok (ce_rx E) o1 \<and> (cr_Receiver o1 = '''' \<or> cr_Receiver o1 \<in> set (map rv_Name (cf_Receivers conf)))
      \<and> set (cr_ActiveTimeIntervals o1) \<union> set (cr_MuteTimeIntervals o1) \<subseteq> fst ` (set (cf_MuteTimeIntervals conf) \<union> set (cf_TimeIntervals conf)))
    \<and> distinct (map rv_Name (cf_Receivers conf))"
proof -
  obtain raw where raw: "doc = Some raw" "Config_UnmarshalYAML E g raw = Loaded conf" using assms by (auto simp: Load_def split: option.splits)
  then obtain route rules receivers mutes intervals where
    route: "(case rw_Route raw of None \<Rightarrow> Loaded None | Some r \<Rightarrow> and_then (decode_route E r) (\<lambda>p. Loaded (Some p))) = Loaded route"
    and chk: "check_config (case rw_Global raw of None \<Rightarrow> g | Some g \<Rightarrow> g) route rules receivers (rw_Templates raw) mutes intervals = Loaded conf"
    by (auto simp: Config_UnmarshalYAML_def)
  from chk obtain g1 rs r seen names cr where r: "route = Some r"
    and fill: "fill_receivers [] (case rw_Global raw of None \<Rightarrow> g | Some g \<Rightarrow> g) receivers = Loaded (g1, rs)"
    and root: "check_root (pre_opts r) = Loaded ()" and recv: "checkReceiver r (set (map rv_Name receivers)) = Loaded ()"
    and seen: "interval_names [] mutes = Loaded seen" and names: "interval_names seen intervals = Loaded names"
    and ivs: "checkTimeInterval r (set names) = Loaded ()" and cr: "route_of r = Some cr"
    and c: "conf = \<lparr>cf_Global = g1, cf_Route = cr, cf_InhibitRules = rules, cf_Receivers = rs, cf_Templates = rw_Templates raw,
      cf_MuteTimeIntervals = mutes, cf_TimeIntervals = intervals\<rparr>"
    by (rule check_config_Loaded)
  have conf: "cf_Route conf = cr" "cf_Receivers conf = rs" "cf_MuteTimeIntervals conf = mutes" "cf_TimeIntervals conf = intervals" by (simp_all add: c)
  obtain raw_r where raw_r: "decode_route E raw_r = Loaded r" using route r by (auto split: option.splits)
  have n: "cr_nodes cr = pre_nodes r" using route_of_nodes(1) [OF cr] .
  have top: "cr_opts cr = pre_opts r" using cr by (cases r) auto
  have ns: "set names = fst ` (set mutes \<union> set intervals)"
    using interval_names_set [OF seen] interval_names_set [OF names] by auto
  have rn: "map rv_Name rs = map rv_Name receivers" "distinct (map rv_Name receivers)" using fill_receivers_names [OF fill] by auto
  show ?thesis unfolding conf top n rn(1) ns [symmetric]
    using checkReceiver_nodes(1) [OF recv] checkTimeInterval_nodes(1) [OF ivs] decode_route_nodes(1) [OF raw_r] rn(2) root
    by (auto simp: check_root_def)
qed

lemma Load_tree:
  assumes "Load E g doc = Loaded conf" "rx_nests (ce_rx E)"
  obtains root where "NewRoute (ce_rx E) (cf_Route conf) = Some root" "\<forall>rt \<in> set (Walk root). configured conf (rt_RouteOpts rt)"
proof -
  note L = Load_nodes [OF assms(1)]
  have "newRoute (ce_rx E) (cf_Route conf) None 0 \<noteq> None" using L newRoute_some(1) [OF assms(2)] by blast
  then obtain root m where nr: "newRoute (ce_rx E) (cf_Route conf) None 0 = Some (root, m)" by auto
  have top: "cr_opts (cf_Route conf) \<in> set (cr_nodes (cf_Route conf))" by (cases "cf_Route conf") simp
  have "\<forall>rt \<in> set (Walk root). configured conf (rt_RouteOpts rt)"
  proof (rule newRoute_all(1) [OF nr])
    show "configured conf (newRoute_opts (cr_opts (cf_Route conf)) (case None of None \<Rightarrow> DefaultRouteOpts | Some po \<Rightarrow> po))"
      by (rule newRoute_opts_configured [of _ _ _ "ce_rx E"]) (use L top in \<open>auto simp: DefaultRouteOpts_def second_def\<close>)
    show "configured conf (newRoute_opts o1 po)" if "o1 \<in> set (cr_nodes (cf_Route conf))" "configured conf po" for o1 po
      by (rule newRoute_opts_configured [of _ _ _ "ce_rx E"]) (use L that in \<open>auto simp: configured_def\<close>)
  qed
  then show thesis using that nr by (auto simp: NewRoute_def)
qed

section \<open>Inhibition rules\<close>

lemma InhibitRule_compiles:
  assumes "InhibitRule_UnmarshalYAML E r = Loaded cr" "rx_nests (ce_rx E)"
  shows "NewInhibitRule (ce_rx E) cr \<noteq> None"
proof -
  obtain sre tre where "MatchRegexps_UnmarshalYAML E (ri_sourceMatchRE r) = Loaded sre" "icr_sourceMatchRE cr = sre"
    "MatchRegexps_UnmarshalYAML E (ri_targetMatchRE r) = Loaded tre" "icr_targetMatchRE cr = tre"
    using assms(1) by (auto simp: InhibitRule_UnmarshalYAML_def)
  then have "\<forall>(k, t) \<in> set (icr_sourceMatchRE cr). \<exists>s. t = anchored s \<and> ce_rx E (anchored s) \<noteq> None"
    "\<forall>(k, t) \<in> set (icr_targetMatchRE cr). \<exists>s. t = anchored s \<and> ce_rx E (anchored s) \<noteq> None"
    using MatchRegexps_compile by blast+
  then have "side_matchers (ce_rx E) (icr_sourceMatch cr) (icr_sourceMatchRE cr) (icr_sourceMatchers cr) \<noteq> None"
    "side_matchers (ce_rx E) (icr_targetMatch cr) (icr_targetMatchRE cr) (icr_targetMatchers cr) \<noteq> None"
    by (simp_all only: side_matchers_some [OF assms(2)] not_False_eq_True)
  then show ?thesis by (auto simp: NewInhibitRule_def)
qed

lemma those_some: "(\<And>x. x \<in> set xs \<Longrightarrow> x \<noteq> None) \<Longrightarrow> those xs \<noteq> None"
  by (induction xs) (auto split: option.splits)

lemma Load_rules:
  assumes "Load E g doc = Loaded conf" "rx_nests (ce_rx E)"
  shows "NewInhibitor (ce_rx E) (cf_InhibitRules conf) \<noteq> None"
proof -
  obtain raw where "Config_UnmarshalYAML E g raw = Loaded conf" using assms by (auto simp: Load_def split: option.splits)
  then have "load_map (InhibitRule_UnmarshalYAML E) (rw_InhibitRules raw) = Loaded (cf_InhibitRules conf)"
    by (auto simp: Config_UnmarshalYAML_def dest: check_config_rules)
  note rules = load_map_Loaded [OF this]
  have "NewInhibitRule (ce_rx E) cr \<noteq> None" if "cr \<in> set (cf_InhibitRules conf)" for cr
    using list_all2_setD [OF rules that] InhibitRule_compiles [OF _ assms(2)] by blast
  then show ?thesis unfolding NewInhibitor_def by (intro those_some) auto
qed

section \<open>Reloading\<close>

lemma build_receivers_dom:
  "build_receivers new active rcvs = Inr m \<Longrightarrow> dom m = active \<inter> set (map rv_Name rcvs)"
proof (induction rcvs arbitrary: m)
  case (Cons r rcvs)
  show ?case
  proof (cases "rv_Name r \<in> active")
    case False
    then show ?thesis using Cons by auto
  next
    case True
    then obtain ints m1 where m1: "build_receivers new active rcvs = Inr m1" "m = (\<lambda>n. if n = rv_Name r \<and> m1 n = None then Some ints else m1 n)"
      using Cons.prems by (auto split: prod.splits sum.splits if_splits)
    have "dom m = insert (rv_Name r) (dom m1)" using m1(2) by (auto simp: dom_def)
    then show ?thesis using Cons.IH [OF m1(1)] True by auto
  qed
qed simp

lemma interval_map_dom: "dom (interval_map mutes intervals) = fst ` (set mutes \<union> set intervals)"
proof -
  have "dom (fold (\<lambda>(n, ti) m. m(n \<mapsto> ti)) xs m) = dom m \<union> fst ` set xs" for xs :: "named_intervals list" and m
    by (induction xs arbitrary: m) auto
  then show ?thesis by (auto simp: interval_map_def)
qed

lemma reload_parts:
  assumes "reload rx new te tr conf = Reloaded run"
  shows "NewRoute rx (cf_Route conf) = Some (rn_root run)
    \<and> dom (rn_receivers run) = (\<lambda>rt. ro_Receiver (rt_RouteOpts rt)) ` set (Walk (rn_root run)) \<inter> set (map rv_Name (cf_Receivers conf))
    \<and> dom (rn_intervals run) = fst ` (set (cf_MuteTimeIntervals conf) \<union> set (cf_TimeIntervals conf))"
proof -
  obtain routes receivers rules where r: "NewRoute rx (cf_Route conf) = Some routes"
    "build_receivers new (set (map (\<lambda>rt. ro_Receiver (rt_RouteOpts rt)) (Walk routes))) (cf_Receivers conf) = Inr receivers"
    "run = \<lparr>rn_root = routes, rn_receivers = receivers, rn_intervals = interval_map (cf_MuteTimeIntervals conf) (cf_TimeIntervals conf), rn_rules = rules\<rparr>"
    using assms by (auto simp: reload_def split: option.splits sum.splits)
  show ?thesis using build_receivers_dom [OF r(2)] r(1) by (simp add: r(3) interval_map_dom)
qed

section \<open>The pipeline finds what it needs\<close>

text \<open>The errors of a pipeline whose context or configuration lacks something.\<close>

fun config_fault :: "notify_error \<Rightarrow> bool" where
  "config_fault GroupKeyMissing \<longleftrightarrow> True"
| "config_fault RepeatIntervalMissing \<longleftrightarrow> True"
| "config_fault FiringMissing \<longleftrightarrow> True"
| "config_fault ResolvedMissing \<longleftrightarrow> True"
| "config_fault RouteIDMissing \<longleftrightarrow> True"
| "config_fault NowMissing \<longleftrightarrow> True"
| "config_fault ReceiverMissing \<longleftrightarrow> True"
| "config_fault StageMissing \<longleftrightarrow> True"
| "config_fault (IntervalMissing n) \<longleftrightarrow> True"
| "config_fault (Joined es) \<longleftrightarrow> (\<exists>e \<in> set es. config_fault e)"
| "config_fault (UnexpectedResultSize n) \<longleftrightarrow> False"
| "config_fault (LogError e) \<longleftrightarrow> False"
| "config_fault (WaitError e) \<longleftrightarrow> False"
| "config_fault (RetryCanceled i e) \<longleftrightarrow> False"
| "config_fault (RetryUnrecoverable i e) \<longleftrightarrow> False"

definition sound_stage :: "(nctx \<Rightarrow> bool) \<Rightarrow> (nctx \<Rightarrow> bool) \<Rightarrow> 'm stage \<Rightarrow> bool" where
  "sound_stage P Q s \<longleftrightarrow> (\<forall>ctx as w ctx' as' err w'. P ctx \<longrightarrow> s ctx as w = Some (ctx', as', err, w') \<longrightarrow>
     (case err of None \<Rightarrow> Q ctx' | Some e \<Rightarrow> \<not> config_fault e))"

lemma sound_stageI:
  "(\<And>ctx as w ctx' as' err w'. P ctx \<Longrightarrow> s ctx as w = Some (ctx', as', err, w') \<Longrightarrow> case err of None \<Rightarrow> Q ctx' | Some e \<Rightarrow> \<not> config_fault e)
     \<Longrightarrow> sound_stage P Q s"
  unfolding sound_stage_def by blast

lemma sound_stageD:
  "sound_stage P Q s \<Longrightarrow> P ctx \<Longrightarrow> s ctx as w = Some (ctx', as', err, w') \<Longrightarrow> case err of None \<Rightarrow> Q ctx' | Some e \<Rightarrow> \<not> config_fault e"
  unfolding sound_stage_def by blast

lemma sound_Multi_Nil: "sound_stage P (\<lambda>_. True) (MultiStage [])"
  by (rule sound_stageI) auto

lemma sound_Multi_Cons:
  assumes "sound_stage P Q s" "sound_stage Q (\<lambda>_. True) (MultiStage ss)"
  shows "sound_stage P (\<lambda>_. True) (MultiStage (s # ss))"
proof (rule sound_stageI)
  fix ctx as w ctx' as' err w'
  assume P: "P ctx" and r: "MultiStage (s # ss) ctx as w = Some (ctx', as', err, w')"
  show "case err of None \<Rightarrow> True | Some e \<Rightarrow> \<not> config_fault e"
  proof (cases "as = []")
    case True
    then show ?thesis using r by simp
  next
    case False
    then obtain ctx1 as1 err1 w1 where s: "s ctx as w = Some (ctx1, as1, err1, w1)" using r by (auto split: option.splits prod.splits)
    note snd = sound_stageD [OF assms(1) P s]
    show ?thesis
    proof (cases err1)
      case None
      then have "MultiStage ss ctx1 as1 w1 = Some (ctx', as', err, w')" using r s False by simp
      then show ?thesis using sound_stageD [OF assms(2)] snd None by fastforce
    next
      case (Some e)
      then show ?thesis using r s False snd by auto
    qed
  qed
qed

lemma sound_fanout_loop:
  "\<forall>s \<in> set fs. sound_stage P (\<lambda>_. True) s \<Longrightarrow> P ctx \<Longrightarrow> fanout_loop fs ctx as w = Some (errs, w') \<Longrightarrow> \<forall>e \<in> set errs. \<not> config_fault e"
proof (induction fs arbitrary: w errs w')
  case (Cons s fs)
  from Cons.prems(3) obtain c1 a1 err w1 errs2 where s: "s ctx as w = Some (c1, a1, err, w1)"
    and r: "fanout_loop fs ctx as w1 = Some (errs2, w')" and e: "errs = (case err of None \<Rightarrow> errs2 | Some e \<Rightarrow> e # errs2)"
    by (auto split: option.splits prod.splits)
  have "sound_stage P (\<lambda>_. True) s" using Cons.prems(1) by simp
  note snd = sound_stageD [OF this Cons.prems(2) s]
  have "\<forall>e \<in> set errs2. \<not> config_fault e" using Cons.IH [OF _ Cons.prems(2) r] Cons.prems(1) by simp
  then show ?case using e snd by (cases err) auto
qed simp

lemma sound_Fanout: "\<forall>s \<in> set fs. sound_stage P (\<lambda>_. True) s \<Longrightarrow> sound_stage P (\<lambda>_. True) (FanoutStage fs)"
  by (rule sound_stageI) (use sound_fanout_loop in \<open>fastforce simp: FanoutStage_def split: option.splits if_splits\<close>)

text \<open>What the stages need of a context.\<close>

definition ctx_ok :: "string set \<Rightarrow> nctx \<Rightarrow> bool" where
  "ctx_ok ivs ctx \<longleftrightarrow> cx_GroupKey ctx \<noteq> None \<and> cx_RepeatInterval ctx \<noteq> None \<and> cx_RouteID ctx \<noteq> None \<and> cx_Now ctx \<noteq> None
     \<and> (\<forall>ns. cx_MuteTimeIntervals ctx = Some ns \<longrightarrow> set ns \<subseteq> ivs) \<and> (\<forall>ns. cx_ActiveTimeIntervals ctx = Some ns \<longrightarrow> set ns \<subseteq> ivs)"

definition ctx_dedup :: "nctx \<Rightarrow> bool" where
  "ctx_dedup ctx \<longleftrightarrow> cx_GroupKey ctx \<noteq> None \<and> cx_RepeatInterval ctx \<noteq> None \<and> cx_FiringAlerts ctx \<noteq> None \<and> cx_ResolvedAlerts ctx \<noteq> None"

lemma sound_Settle: "sound_stage P P (ClusterGossipSettleStage ready)"
  by (rule sound_stageI) (auto simp: ClusterGossipSettleStage_def split: option.splits)

lemma sound_Wait: "sound_stage P P (ClusterWaitStage ended)"
  by (rule sound_stageI) (auto simp: ClusterWaitStage_def split: option.splits)

lemma sound_Mute: "sound_stage (ctx_ok ivs) (ctx_ok ivs) (MuteStage hash mutes)"
  by (rule sound_stageI) (auto simp: MuteStage_def ctx_ok_def Let_def split: option.splits prod.splits if_splits)

lemma Intervener_known: "set names \<subseteq> dom ivs \<Longrightarrow> Intervener_Mutes ivs names now \<noteq> Inl e"
  by (auto simp: Intervener_Mutes_eq)

lemma sound_TimeMute: "sound_stage (ctx_ok (dom ivs)) (ctx_ok (dom ivs)) (TimeMuteStage ivs)"
  by (rule sound_stageI) (auto simp: TimeMuteStage_def ctx_ok_def Let_def Intervener_known split: option.splits sum.splits if_splits)

lemma sound_TimeActive: "sound_stage (ctx_ok (dom ivs)) (ctx_ok (dom ivs)) (TimeActiveStage ivs)"
  by (rule sound_stageI) (auto simp: TimeActiveStage_def ctx_ok_def Let_def Intervener_known split: option.splits sum.splits if_splits)

lemma sound_Dedup: "sound_stage (ctx_ok ivs) ctx_dedup (DedupStage A clk clock hash sr recv)"
  by (rule sound_stageI) (auto simp: DedupStage_def ctx_ok_def ctx_dedup_def Let_def split: option.splits sum.splits if_splits prod.splits list.splits)

lemma sound_Retry: "sound_stage ctx_dedup ctx_dedup (RetryStage A clk events sr recv)"
  by (rule sound_stageI) (auto simp: RetryStage_def ctx_dedup_def Let_def split: option.splits if_splits retry_result.splits)

lemma sound_SetNotifies: "sound_stage ctx_dedup (\<lambda>_. True) (SetNotifiesStage enc now now' recv)"
  by (rule sound_stageI) (auto simp: SetNotifiesStage_def ctx_dedup_def Let_def split: option.splits prod.splits)

lemmas sound_stages = sound_Multi_Cons [OF sound_Settle] sound_Multi_Cons [OF sound_Wait] sound_Multi_Cons [OF sound_Mute]
  sound_Multi_Cons [OF sound_TimeMute] sound_Multi_Cons [OF sound_TimeActive] sound_Multi_Cons [OF sound_Dedup] sound_Multi_Cons [OF sound_Retry]
  sound_Multi_Cons [OF sound_SetNotifies] sound_Multi_Nil

lemma sound_receiver: "sound_stage (ctx_ok ivs) (\<lambda>_. True) (createReceiverStage A hash enc name is)"
  unfolding createReceiverStage_def by (rule sound_Fanout) (auto simp: integration_stages_def Let_def intro!: sound_stages)

lemma sound_pipeline:
  assumes "ctx_ok (dom ivs) ctx" "cx_ReceiverName ctx = Some name" "receivers name \<noteq> None"
    and "pipeline_New A hash enc receivers inhibitor silencer ivs ready ctx as w = Some (ctx', as', Some e, w')"
  shows "\<not> config_fault e"
proof -
  obtain ints where "receivers name = Some ints" using assms(3) by auto
  moreover have "sound_stage (ctx_ok (dom ivs)) (\<lambda>_. True) (MultiStage [ClusterGossipSettleStage ready, MuteStage hash inhibitor, TimeActiveStage ivs,
      TimeMuteStage ivs, MuteStage hash silencer, createReceiverStage A hash enc name ints])"
    by (intro sound_stages sound_Multi_Cons [OF sound_receiver])
  ultimately show ?thesis using sound_stageD assms(1,2,4) by (fastforce simp: pipeline_New_def RoutingStage_def)
qed

section \<open>Complete integrations\<close>

definition slashed :: "url option \<Rightarrow> bool" where
  "slashed u \<longleftrightarrow> (\<exists>v. u = Some v \<and> u_Path v \<noteq> '''' \<and> last (u_Path v) = CHR ''/'')"

definition plain_complete :: "plain_config \<Rightarrow> bool" where
  "plain_complete c \<longleftrightarrow> pc_HTTPConfig c \<noteq> None"

definition email_complete :: "email_config \<Rightarrow> bool" where
  "email_complete c \<longleftrightarrow> HostPort_String (ec_Smarthost c) \<noteq> '''' \<and> ec_From c \<noteq> '''' \<and> ec_RequireTLS c \<noteq> None"

definition slack_complete :: "slack_config \<Rightarrow> bool" where
  "slack_complete c \<longleftrightarrow> (sc_APIURL c \<noteq> None \<or> sc_APIURLFile c \<noteq> '''')
     \<and> (\<exists>h. sc_HTTPConfig c = Some h \<and> (sc_AppToken c \<noteq> '''' \<or> sc_AppTokenFile c \<noteq> '''' \<longrightarrow> sc_APIURL c = sc_AppURL c
       \<and> hc_Authorization h = Some \<lparr>au_Type = ''Bearer'', au_Credentials = sc_AppToken c, au_CredentialsFile = sc_AppTokenFile c\<rparr>))"

definition url_complete :: "url_config \<Rightarrow> bool" where
  "url_complete c \<longleftrightarrow> uc_HTTPConfig c \<noteq> None \<and> uc_URL c \<noteq> None"

definition key_complete :: "key_config \<Rightarrow> bool" where
  "key_complete c \<longleftrightarrow> kc_HTTPConfig c \<noteq> None \<and> (kc_APIKey c \<noteq> '''' \<or> kc_APIKeyFile c \<noteq> '''')"

definition wechat_complete :: "wechat_config \<Rightarrow> bool" where
  "wechat_complete c \<longleftrightarrow> wc_HTTPConfig c \<noteq> None \<and> slashed (wc_APIURL c) \<and> (wc_APISecret c \<noteq> '''' \<or> wc_APISecretFile c \<noteq> '''') \<and> wc_CorpID c \<noteq> ''''"

definition webhook_url_complete :: "webhook_url_config \<Rightarrow> bool" where
  "webhook_url_complete c \<longleftrightarrow> wu_HTTPConfig c \<noteq> None \<and> (wu_WebhookURL c \<noteq> None \<or> wu_WebhookURLFile c \<noteq> '''')"

definition rocketchat_complete :: "rocketchat_config \<Rightarrow> bool" where
  "rocketchat_complete c \<longleftrightarrow> rk_HTTPConfig c \<noteq> None \<and> (rk_TokenID c \<noteq> None \<or> rk_TokenIDFile c \<noteq> '''') \<and> (rk_Token c \<noteq> None \<or> rk_TokenFile c \<noteq> '''')"

definition all_filled :: "('c \<Rightarrow> bool) \<Rightarrow> 'c option list \<Rightarrow> bool" where
  "all_filled P cs \<longleftrightarrow> (\<forall>c. Some c \<in> set cs \<longrightarrow> P c)"

definition receiver_complete :: "receiver_config \<Rightarrow> bool" where
  "receiver_complete r \<longleftrightarrow> all_filled plain_complete (rv_Webhook r) \<and> all_filled email_complete (rv_Email r) \<and> all_filled slack_complete (rv_Slack r)
     \<and> all_filled plain_complete (rv_Pushover r) \<and> all_filled url_complete (rv_Pagerduty r) \<and> all_filled plain_complete (rv_Incidentio r)
     \<and> all_filled (\<lambda>c. key_complete c \<and> slashed (kc_APIURL c)) (rv_OpsGenie r) \<and> all_filled wechat_complete (rv_Wechat r)
     \<and> all_filled (\<lambda>c. key_complete c \<and> slashed (kc_APIURL c)) (rv_VictorOps r) \<and> all_filled plain_complete (rv_SNS r)
     \<and> all_filled key_complete (rv_Telegram r) \<and> all_filled webhook_url_complete (rv_Discord r) \<and> all_filled url_complete (rv_Webex r)
     \<and> all_filled webhook_url_complete (rv_MSTeams r) \<and> all_filled webhook_url_complete (rv_MSTeamsV2 r) \<and> all_filled url_complete (rv_Jira r)
     \<and> all_filled rocketchat_complete (rv_Rocketchat r) \<and> all_filled webhook_url_complete (rv_Mattermost r)"

text \<open>A step that keeps the HTTP configuration of the global section and fills an integration.\<close>

definition fills :: "('c \<Rightarrow> bool) \<Rightarrow> (global_config \<Rightarrow> 'c \<Rightarrow> (global_config \<times> 'c) load_result) \<Rightarrow> bool" where
  "fills P f \<longleftrightarrow> (\<forall>g c g1 c1. gl_HTTPConfig g \<noteq> None \<longrightarrow> f g c = Loaded (g1, c1) \<longrightarrow> gl_HTTPConfig g1 \<noteq> None \<and> P c1)"

lemma fills_fold:
  assumes "\<And>g x g1 y. gl_HTTPConfig g \<noteq> None \<Longrightarrow> step g x = Loaded (g1, y) \<Longrightarrow> gl_HTTPConfig g1 \<noteq> None \<and> (\<forall>c. y = Some c \<longrightarrow> P c)"
  shows "load_fold step g cs = Loaded (g1, cs1) \<Longrightarrow> gl_HTTPConfig g \<noteq> None \<Longrightarrow> gl_HTTPConfig g1 \<noteq> None \<and> all_filled P cs1"
proof (induction cs arbitrary: g g1 cs1)
  case (Cons x cs)
  then obtain g2 y cs2 where s: "step g x = Loaded (g2, y)" "load_fold step g2 cs = Loaded (g1, cs2)" "cs1 = y # cs2" by (auto split: prod.splits)
  have y: "gl_HTTPConfig g2 \<noteq> None" "\<forall>c. y = Some c \<longrightarrow> P c" using assms [OF Cons.prems(2) s(1)] by simp_all
  show ?case using Cons.IH [OF s(2) y(1)] y(2) s(3) by (auto simp: all_filled_def)
qed (simp add: all_filled_def)

lemma fills_missing:
  assumes "load_fold (or_missing kind f) g cs = Loaded (g1, cs1)" "fills P f" "gl_HTTPConfig g \<noteq> None"
  shows "gl_HTTPConfig g1 \<noteq> None \<and> all_filled P cs1"
proof (rule fills_fold [OF _ assms(1,3)])
  fix g x g1 y assume "gl_HTTPConfig g \<noteq> None" "or_missing kind f g x = Loaded (g1, y)"
  then show "gl_HTTPConfig g1 \<noteq> None \<and> (\<forall>c. y = Some c \<longrightarrow> P c)"
    using assms(2) unfolding fills_def by (fastforce simp: or_missing_def split: option.splits prod.splits)
qed

lemma fills_empty:
  assumes "load_fold (or_empty fresh f) g cs = Loaded (g1, cs1)" "fills P f" "gl_HTTPConfig g \<noteq> None"
  shows "gl_HTTPConfig g1 \<noteq> None \<and> all_filled P cs1"
proof (rule fills_fold [OF _ assms(1,3)])
  fix g x g1 y assume "gl_HTTPConfig g \<noteq> None" "or_empty fresh f g x = Loaded (g1, y)"
  then show "gl_HTTPConfig g1 \<noteq> None \<and> (\<forall>c. y = Some c \<longrightarrow> P c)"
    using assms(2) unfolding fills_def by (fastforce simp: or_empty_def split: option.splits prod.splits)
qed

lemma slashed_with_slash:
  assumes "u \<noteq> None"
  shows "slashed (map_option with_slash u)"
proof -
  obtain v where "u = Some v" using assms by auto
  moreover have "u_Path (with_slash v) \<noteq> '''' \<and> last (u_Path (with_slash v)) = CHR ''/''" by (simp add: with_slash_def)
  ultimately show ?thesis by (simp add: slashed_def)
qed

lemma fills_plain: "fills plain_complete fill_plain"
  by (auto simp: fills_def fill_plain_def plain_complete_def ptr_or_def)

lemma fills_email: "fills email_complete fill_email"
  by (auto simp: fills_def fill_email_def email_complete_def Let_def split: option.splits)

lemma fills_slack: "fills slack_complete fill_slack"
  by (auto simp: fills_def fill_slack_def slack_complete_def Let_def split: option.splits if_splits)

lemma fills_url: "fills url_complete (fill_url gurl kind)"
  by (auto simp: fills_def fill_url_def url_complete_def ptr_or_def Let_def)

lemma fills_opsgenie: "fills (\<lambda>c. key_complete c \<and> slashed (kc_APIURL c)) fill_opsgenie"
  by (auto simp: fills_def fill_opsgenie_def key_complete_def ptr_or_def slashed_with_slash Let_def split: if_splits)

lemma fills_victorops: "fills (\<lambda>c. key_complete c \<and> slashed (kc_APIURL c)) fill_victorops"
  by (auto simp: fills_def fill_victorops_def key_complete_def ptr_or_def slashed_with_slash Let_def split: if_splits)

lemma fills_wechat: "fills wechat_complete fill_wechat"
  by (auto simp: fills_def fill_wechat_def wechat_complete_def ptr_or_def str_or_def slashed_with_slash Let_def split: if_splits)

lemma fills_telegram: "fills key_complete fill_telegram"
  by (auto simp: fills_def fill_telegram_def key_complete_def ptr_or_def Let_def split: if_splits)

lemma fills_webhook_url: "fills webhook_url_complete (fill_webhook_url kind)"
  by (auto simp: fills_def fill_webhook_url_def webhook_url_complete_def ptr_or_def Let_def)

lemma fills_msteamsv2: "fills webhook_url_complete fill_msteamsv2"
  by (auto simp: fills_def fill_msteamsv2_def webhook_url_complete_def split: option.splits if_splits)

lemma fills_rocketchat: "fills rocketchat_complete fill_rocketchat"
  by (auto simp: fills_def fill_rocketchat_def rocketchat_complete_def ptr_or_def Let_def split: if_splits)

lemma fills_mattermost: "fills webhook_url_complete fill_mattermost"
  by (auto simp: fills_def fill_mattermost_def webhook_url_complete_def ptr_or_def Let_def split: if_splits)

lemma fill_receiver_complete:
  assumes "fill_receiver g r = Loaded (g1, r1)" "gl_HTTPConfig g \<noteq> None"
  shows "gl_HTTPConfig g1 \<noteq> None \<and> receiver_complete r1"
proof -
  from assms(1) obtain h1 h2 h3 h4 h5 h6 h7 h8 h9 h10 h11 h12 h13 h14 h15 h16 h17 webhook email slack pushover pagerduty incidentio
    opsgenie wechat victorops sns telegram discord webex msteams msteamsv2 jira rocketchat mattermost where
    s1: "load_fold (or_missing ''webhook'' fill_plain) g (rv_Webhook r) = Loaded (h1, webhook)"
    and s2: "load_fold (or_missing ''email'' fill_email) h1 (rv_Email r) = Loaded (h2, email)"
    and s3: "load_fold (or_empty empty_slack fill_slack) h2 (rv_Slack r) = Loaded (h3, slack)"
    and s4: "load_fold (or_missing ''pushover'' fill_plain) h3 (rv_Pushover r) = Loaded (h4, pushover)"
    and s5: "load_fold (or_missing ''pagerduty'' (fill_url gl_PagerdutyURL ''PagerDuty URL'')) h4 (rv_Pagerduty r) = Loaded (h5, pagerduty)"
    and s6: "load_fold (or_missing ''incidentio'' fill_plain) h5 (rv_Incidentio r) = Loaded (h6, incidentio)"
    and s7: "load_fold (or_empty empty_key fill_opsgenie) h6 (rv_OpsGenie r) = Loaded (h7, opsgenie)"
    and s8: "load_fold (or_empty empty_wechat fill_wechat) h7 (rv_Wechat r) = Loaded (h8, wechat)"
    and s9: "load_fold (or_missing ''victorops'' fill_victorops) h8 (rv_VictorOps r) = Loaded (h9, victorops)"
    and s10: "load_fold (or_missing ''sns'' fill_plain) h9 (rv_SNS r) = Loaded (h10, sns)"
    and s11: "load_fold (or_missing ''telegram'' fill_telegram) h10 (rv_Telegram r) = Loaded (h11, telegram)"
    and s12: "load_fold (or_missing ''discord'' (fill_webhook_url ''discord webhook URL'')) h11 (rv_Discord r) = Loaded (h12, discord)"
    and s13: "load_fold (or_missing ''webex'' (fill_url gl_WebexAPIURL ''Webex URL'')) h12 (rv_Webex r) = Loaded (h13, webex)"
    and s14: "load_fold (or_missing ''msteams'' (fill_webhook_url ''msteams webhook URL'')) h13 (rv_MSTeams r) = Loaded (h14, msteams)"
    and s15: "load_fold (or_missing ''msteamsv2'' fill_msteamsv2) h14 (rv_MSTeamsV2 r) = Loaded (h15, msteamsv2)"
    and s16: "load_fold (or_missing ''jira'' (fill_url gl_JiraAPIURL ''Jira Cloud URL'')) h15 (rv_Jira r) = Loaded (h16, jira)"
    and s17: "load_fold (or_empty empty_rocketchat fill_rocketchat) h16 (rv_Rocketchat r) = Loaded (h17, rocketchat)"
    and s18: "load_fold (or_missing ''mattermost'' fill_mattermost) h17 (rv_Mattermost r) = Loaded (g1, mattermost)"
    and r1: "r1 = r\<lparr>rv_Webhook := webhook, rv_Email := email, rv_Slack := slack, rv_Pushover := pushover, rv_Pagerduty := pagerduty,
         rv_Incidentio := incidentio, rv_OpsGenie := opsgenie, rv_Wechat := wechat, rv_VictorOps := victorops, rv_SNS := sns, rv_Telegram := telegram,
         rv_Discord := discord, rv_Webex := webex, rv_MSTeams := msteams, rv_MSTeamsV2 := msteamsv2, rv_Jira := jira, rv_Rocketchat := rocketchat,
         rv_Mattermost := mattermost\<rparr>"
    by (auto simp: fill_receiver_def split: prod.splits)
  note f = fills_missing [OF s1 fills_plain assms(2)]
  note f = f fills_missing [OF s2 fills_email f [THEN conjunct1]]
  note f2 = fills_missing [OF s2 fills_email fills_missing [OF s1 fills_plain assms(2), THEN conjunct1]]
  note f3 = fills_empty [OF s3 fills_slack f2 [THEN conjunct1]]
  note f4 = fills_missing [OF s4 fills_plain f3 [THEN conjunct1]]
  note f5 = fills_missing [OF s5 fills_url f4 [THEN conjunct1]]
  note f6 = fills_missing [OF s6 fills_plain f5 [THEN conjunct1]]
  note f7 = fills_empty [OF s7 fills_opsgenie f6 [THEN conjunct1]]
  note f8 = fills_empty [OF s8 fills_wechat f7 [THEN conjunct1]]
  note f9 = fills_missing [OF s9 fills_victorops f8 [THEN conjunct1]]
  note f10 = fills_missing [OF s10 fills_plain f9 [THEN conjunct1]]
  note f11 = fills_missing [OF s11 fills_telegram f10 [THEN conjunct1]]
  note f12 = fills_missing [OF s12 fills_webhook_url f11 [THEN conjunct1]]
  note f13 = fills_missing [OF s13 fills_url f12 [THEN conjunct1]]
  note f14 = fills_missing [OF s14 fills_webhook_url f13 [THEN conjunct1]]
  note f15 = fills_missing [OF s15 fills_msteamsv2 f14 [THEN conjunct1]]
  note f16 = fills_missing [OF s16 fills_url f15 [THEN conjunct1]]
  note f17 = fills_empty [OF s17 fills_rocketchat f16 [THEN conjunct1]]
  note f18 = fills_missing [OF s18 fills_mattermost f17 [THEN conjunct1]]
  show ?thesis unfolding receiver_complete_def r1
    using f f3 f4 f5 f6 f7 f8 f9 f10 f11 f12 f13 f14 f15 f16 f17 f18 by simp
qed

lemma fill_receivers_complete:
  "fill_receivers names g rs = Loaded (g1, rs1) \<Longrightarrow> gl_HTTPConfig g \<noteq> None \<Longrightarrow> \<forall>r \<in> set rs1. receiver_complete r"
proof (induction rs arbitrary: names g g1 rs1)
  case (Cons r rs)
  from Cons.prems(1) obtain g2 r1 rs2 where r: "fill_receiver g r = Loaded (g2, r1)" "fill_receivers (rv_Name r # names) g2 rs = Loaded (g1, rs2)" "rs1 = r1 # rs2"
    by (auto split: prod.splits)
  note c = fill_receiver_complete [OF r(1) Cons.prems(2)]
  show ?case using Cons.IH [OF r(2) c [THEN conjunct1]] c r(3) by auto
qed simp

section \<open>Properties of a loaded configuration\<close>




section \<open>Instances\<close>

definition lit_rx :: regexp_engine where
  "lit_rx p = Some (\<lambda>s. p = anchored s)"

definition sample_E :: config_env where
  "sample_E = \<lparr>ce_rx = lit_rx, ce_mode = Classic, ce_quote = id, ce_legacy = (\<lambda>s. s \<noteq> ''''), ce_labelNameRE = (\<lambda>s. s \<noteq> '''')\<rparr>"

definition sample_global :: global_config where
  "sample_global = (DefaultGlobalConfig \<lparr>hc_Authorization = None, hc_ProxyURL = None, hc_rest = ''''\<rparr> '''')\<lparr>gl_OpsGenieAPIKey := ''k''\<rparr>"

definition sample_raw_opts :: raw_route_opts where
  "sample_raw_opts = \<lparr>rr_Receiver = ''r'', rr_GroupByStr = Some [''a''], rr_Match = [], rr_MatchRE = [], rr_Matchers = [], rr_MuteTimeIntervals = [],
     rr_ActiveTimeIntervals = [], rr_Continue = False, rr_GroupWait = None, rr_GroupInterval = None, rr_RepeatInterval = None, rr_Labels = []\<rparr>"

definition sample_receiver :: "key_config option list \<Rightarrow> receiver_config" where
  "sample_receiver ops = \<lparr>rv_Name = ''r'', rv_Labels = Map.empty, rv_Webhook = [], rv_Email = [], rv_Slack = [], rv_Pushover = [], rv_Pagerduty = [],
     rv_Incidentio = [], rv_OpsGenie = ops, rv_Wechat = [], rv_VictorOps = [], rv_SNS = [], rv_Telegram = [], rv_Discord = [],
     rv_Webex = [], rv_MSTeams = [], rv_MSTeamsV2 = [], rv_Jira = [], rv_Rocketchat = [], rv_Mattermost = []\<rparr>"

definition sample_raw :: "key_config option list \<Rightarrow> raw_config" where
  "sample_raw ops = \<lparr>rw_Global = None,
     rw_Route = Some (RawRoute sample_raw_opts [Some (RawRoute (sample_raw_opts\<lparr>rr_Receiver := '''', rr_MatchRE := [(''b'', Some ''x'')], rr_MuteTimeIntervals := [''n'']\<rparr>) [])]),
     rw_InhibitRules = [], rw_Receivers = [sample_receiver ops], rw_Templates = [], rw_MuteTimeIntervals = [(''n'', [])], rw_TimeIntervals = []\<rparr>"

definition sample_node :: config_route_opts where
  "sample_node = \<lparr>cr_Receiver = ''r'', cr_GroupBy = Some [''a''], cr_GroupByAll = False, cr_Match = [], cr_MatchRE = [], cr_Matchers = [],
     cr_MuteTimeIntervals = [], cr_ActiveTimeIntervals = [], cr_Continue = False, cr_GroupWait = None, cr_GroupInterval = None, cr_RepeatInterval = None,
     cr_Labels = Map.empty\<rparr>"

definition sample_conf :: "key_config option list \<Rightarrow> config" where
  "sample_conf ops = \<lparr>cf_Global = sample_global,
     cf_Route = ConfigRoute sample_node [ConfigRoute (sample_node\<lparr>cr_Receiver := '''', cr_MatchRE := [(''b'', anchored ''x'')], cr_MuteTimeIntervals := [''n'']\<rparr>) []],
     cf_InhibitRules = [], cf_Receivers = [(sample_receiver ops)\<lparr>rv_Labels := [''name'' \<mapsto> ''r'']\<rparr>],
     cf_Templates = [], cf_MuteTimeIntervals = [(''n'', [])], cf_TimeIntervals = []\<rparr>"

definition sample_filled :: key_config where
  "sample_filled = \<lparr>kc_HTTPConfig = gl_HTTPConfig sample_global, kc_APIURL = gl_OpsGenieAPIURL sample_global, kc_APIKey = ''k'', kc_APIKeyFile = ''''\<rparr>"

lemma sample_nests: "rx_nests (ce_rx sample_E)"
  by (simp add: rx_nests_def sample_E_def lit_rx_def)

lemma sample_decode: "decode_route sample_E (RawRoute sample_raw_opts [Some (RawRoute (sample_raw_opts\<lparr>rr_Receiver := '''', rr_MatchRE := [(''b'', Some ''x'')], rr_MuteTimeIntervals := [''n'']\<rparr>) [])])
  = Loaded (PreRoute sample_node [Some (PreRoute (sample_node\<lparr>cr_Receiver := '''', cr_MatchRE := [(''b'', anchored ''x'')], cr_MuteTimeIntervals := [''n'']\<rparr>) [])])"
  by (simp add: Route_UnmarshalYAML_def MatchRegexps_UnmarshalYAML_def Regexp_UnmarshalYAML_def Matchers_UnmarshalYAML_def sample_raw_opts_def
    sample_E_def sample_node_def lit_rx_def ensure_def label_ok_def sort_matchers_def)

lemma sample_opsgenie: "fill_opsgenie sample_global empty_key = Loaded (sample_global, sample_filled)"
  by (simp add: sample_global_def DefaultGlobalConfig_def fill_opsgenie_def empty_key_def ptr_or_def with_slash_def ensure_def sample_filled_def Let_def)

lemma sample_ops:
  "load_fold (or_empty empty_key fill_opsgenie) sample_global [None] = Loaded (sample_global, [None])"
  "load_fold (or_empty empty_key fill_opsgenie) sample_global [Some empty_key] = Loaded (sample_global, [Some sample_filled])"
  by (simp_all add: or_empty_def sample_opsgenie)

lemma sample_fill:
  assumes "load_fold (or_empty empty_key fill_opsgenie) sample_global ops = Loaded (sample_global, ops')"
  shows "fill_receivers [] sample_global [(sample_receiver ops)\<lparr>rv_Labels := [''name'' \<mapsto> ''r'']\<rparr>] = Loaded (sample_global, cf_Receivers (sample_conf ops'))"
  using assms by (simp add: fill_receiver_def sample_receiver_def ensure_def sample_conf_def)

lemma sample_check:
  assumes "load_fold (or_empty empty_key fill_opsgenie) sample_global ops = Loaded (sample_global, ops')"
  shows "check_config sample_global (Some (PreRoute sample_node [Some (PreRoute (sample_node\<lparr>cr_Receiver := '''', cr_MatchRE := [(''b'', anchored ''x'')], cr_MuteTimeIntervals := [''n'']\<rparr>) [])]))
    [] [(sample_receiver ops)\<lparr>rv_Labels := [''name'' \<mapsto> ''r'']\<rparr>] [] [(''n'', [])] [] = Loaded (sample_conf ops')"
proof -
  have "check_global sample_global = Loaded ()"
    by (simp add: check_global_def sample_global_def DefaultGlobalConfig_def at_most_one_def ensure_def slack_url_check_def)
  moreover have "rv_Name (sample_receiver ops) = ''r''" by (simp add: sample_receiver_def)
  ultimately show ?thesis
    by (simp only: check_config_def sample_fill [OF assms])
      (simp add: ensure_def check_root_def all_defined_def sample_node_def, simp add: sample_conf_def sample_node_def)
qed

lemma sample_Load:
  assumes "load_fold (or_empty empty_key fill_opsgenie) sample_global ops = Loaded (sample_global, ops')"
  shows "Load sample_E sample_global (Some (sample_raw ops)) = Loaded (sample_conf ops')"
proof -
  have "load_map (\<lambda>r. and_then (validate_slack r) (\<lambda>_. Receiver_UnmarshalYAML r)) [sample_receiver ops] = Loaded [(sample_receiver ops)\<lparr>rv_Labels := [''name'' \<mapsto> ''r'']\<rparr>]"
    by (simp add: validate_slack_def Receiver_UnmarshalYAML_def sample_receiver_def ensure_def)
  moreover have "cr_opts (cf_Route (sample_conf ops')) = sample_node" by (simp add: sample_conf_def)
  ultimately show ?thesis
    by (simp add: Load_def Config_UnmarshalYAML_def sample_raw_def sample_decode sample_check [OF assms] TimeInterval_UnmarshalYAML_def ensure_def
      del: decode_route.simps) (simp add: sample_node_def)
qed

abbreviation loaded_conf :: config where
  "loaded_conf \<equiv> sample_conf [Some sample_filled]"

lemmas sample_loaded = sample_Load [OF sample_ops(2)]



definition sample_state :: "unit nstate" where
  "sample_state = \<lparr>ns_log = new_nflog 5000, ns_groups = Map.empty, ns_muters = (), ns_notified = []\<rparr>"

definition sample_out :: outside where
  "sample_out = \<lparr>os_wait = None, os_clk = (\<lambda>_. 30), os_clock = 30, os_events = [Tick False (Some ''refused'') True], os_log = 30, os_log' = 30\<rparr>"

definition sample_run :: running where
  "sample_run =
     (let opts = DefaultRouteOpts\<lparr>ro_Receiver := ''r'', ro_GroupBy := {''a''}\<rparr>;
          child = Route (opts\<lparr>ro_MuteTimeIntervals := [''n'']\<rparr>) [\<lparr>m_type = MatchRegexp, m_name = ''b'', m_value = anchored ''x'', m_re = (\<lambda>s. anchored (anchored ''x'') = anchored s)\<rparr>] False [] 0
      in \<lparr>rn_root = Route opts [] False [child] 1, rn_receivers = [''r'' \<mapsto> [\<lparr>it_name = ''opsgenie'', it_idx = 0, it_sendResolved = True\<rparr>]],
        rn_intervals = [''n'' \<mapsto> []], rn_rules = []\<rparr>)"

lemma sample_reload: "reload lit_rx (\<lambda>r k i. Inr True) None None loaded_conf = Reloaded sample_run"
  by (simp add: reload_def sample_conf_def sample_node_def NewRoute_def side_matchers_def NewMatcher_def newRoute_opts_def DefaultRouteOpts_def lit_rx_def
    sort_matchers_def BuildReceiverIntegrations_def sample_receiver_def interval_map_def NewInhibitor_def sample_run_def Let_def fun_eq_iff)

definition sample_group :: aggr_group where
  "sample_group = \<lparr>ag_labels = Map.empty, ag_opts = DefaultRouteOpts\<lparr>ro_Receiver := ''r'', ro_GroupBy := {''a''}, ro_MuteTimeIntervals := [''n'']\<rparr>,
     ag_routeID = ''1'', ag_routeKey = ''k'', ag_matchers = [], ag_alerts = NewAlerts, ag_marker = Map.empty, ag_id = None, ag_cancelled = False, ag_done = False,
     ag_next = 0, ag_running = True, ag_flushIdx = 1, ag_routeLabels = None, ag_routeLabelsGen = 0\<rparr>"

definition sample_pipeline :: "unit stage" where
  "sample_pipeline = pipeline_New sample_alert_env (\<lambda>_. 7) (\<lambda>_. Some []) (\<lambda>n. map_option (map (\<lambda>i. (i, sample_out))) (rn_receivers sample_run n))
     (\<lambda>l s. Some (False, s)) (\<lambda>l s. Some (False, s)) (rn_intervals sample_run) None"

lemma sample_refused:
  "\<exists>ctx' w'. sample_pipeline (flush_ctx (\<lambda>_. '''') None 30 [sample_alert 0 100 0] sample_group) [sample_alert 0 100 0] sample_state
     = Some (ctx', [], Some (Joined [RetryUnrecoverable 1 ''refused'']), w')"
  by (simp add: sample_pipeline_def sample_state_def sample_out_def flush_ctx_def run_ctx_def sample_group_def DefaultRouteOpts_def sample_run_def pipeline_New_def
    RoutingStage_def ClusterGossipSettleStage_def MuteStage_def TimeActiveStage_def TimeMuteStage_def Intervener_Mutes_def createReceiverStage_def FanoutStage_def
    integration_stages_def zero_time_def new_nflog_def ClusterWaitStage_def DedupStage_def nf_Query_def needsUpdate_def Let_def shouldNotify_def RetryStage_def
    SetNotifiesStage_def mark_group_def sample_alert_env_def sample_alert_def GroupKey_def)


section \<open>Panics\<close>



end
