(* ===== verification/Spec2Isabelle.thy ===== *)
theory Spec2Isabelle
  imports Silences_Correct Inhibit Nflog Notify_Repeat Dispatch_Results Dispatch_Groups Provider_Mem Config_Correct
begin

text \<open>
  A verification development for the alert manager under \<^verbatim>\<open>src/upstream\<close>. Paths below are relative to it.

  \<^bold>\<open>The program.\<close> Alerts arrive and are kept by the provider (\<^verbatim>\<open>provider/mem\<close>), which merges reports of the same alert
  and sends them to its subscribers. The dispatcher (\<^verbatim>\<open>dispatch\<close>) routes an alert through the routing tree to
  aggregation groups, and every group flushes from time to time into the notification pipeline (\<^verbatim>\<open>notify\<close>).
  The pipeline drops what the inhibitor (\<^verbatim>\<open>inhibit\<close>), the time intervals (\<^verbatim>\<open>timeinterval\<close>) and the silencer
  (\<^verbatim>\<open>silence\<close>) mute, compares the rest with the notification log (\<^verbatim>\<open>nflog\<close>) and sends it to the integrations of a
  receiver. Silences and log are replicated between peers by gossip (\<^verbatim>\<open>cluster\<close>). The configuration
  (\<^verbatim>\<open>config\<close>) is loaded and turned into the routing tree, the receivers, the intervals and the
  inhibition rules (\<^verbatim>\<open>app/reloader.go\<close>). Matchers on labels (\<^verbatim>\<open>pkg/labels\<close>, \<^verbatim>\<open>matcher\<close>) are used by routes, rules and silences.

  \<^bold>\<open>Conventions.\<close> Times and durations are integers, in nanoseconds; strings are lists of bytes; a label set is a
  map from names to values. A clock read is an argument of the operation that reads the clock, and so is the
  order in which a Go map is visited. Code that is not part of the repository is a parameter: the regular expression engine (from a
  pattern to a predicate, or an error), fingerprints and hashes, encoders, identifiers, \<^verbatim>\<open>strconv.Quote\<close>, the text of a
  label set, templates, the constructors of integrations. What a theorem needs of such a parameter is a hypothesis of it. Errors are
  values; a panic or a call that does not return is \<open>None\<close> or a constructor of its own. Metrics, logs, traces and recorded
  events are left out.

  \<^bold>\<open>Shared theories.\<close> \<open>AM_Prelude\<close> has the types and general lemmas. \<open>Go_Strings\<close> and \<open>Go_Quote\<close> model what is used of
  \<^verbatim>\<open>strings\<close>, \<^verbatim>\<open>strconv\<close> and \<^verbatim>\<open>unicode/utf8\<close>, \<open>Civil_Time\<close> what is used of \<^verbatim>\<open>time\<close>. \<open>LWW_Merge\<close> is the
  interface of a state that is replicated by keeping the latest version of every entry (locale \<open>lww_merge\<close>), with convergence
  proved once; \<open>Silences_Correct\<close> and \<open>Nflog\<close> interpret it. \<open>Gossip\<close> has the messages of the exchange.

  \<^bold>\<open>Matchers.\<close> \<open>Labels\<close>: \<^verbatim>\<open>pkg/labels\<close>, with the classic parser. \<open>Matcher_Lexer\<close>, \<open>Matcher_Parse\<close>:
  \<^verbatim>\<open>matcher/parse\<close>, the lexer and the automaton of the UTF-8 parser; it ends on every input without a panic. \<open>Matcher_Compat\<close>:
  \<^verbatim>\<open>matcher/compat\<close> and \<^verbatim>\<open>featurecontrol\<close>; what is printed is read back in every mode.

  \<^bold>\<open>Silences.\<close> \<open>Silences\<close>: \<^verbatim>\<open>silence/silence.go\<close> with state, version index and matcher index; \<^verbatim>\<open>Set\<close>, \<^verbatim>\<open>Expire\<close>,
  \<^verbatim>\<open>Query\<close>, \<^verbatim>\<open>Merge\<close>, snapshots, \<^verbatim>\<open>GC\<close>. \<open>Silencer\<close>: \<^verbatim>\<open>silence/silencer.go\<close> with its cache; \<open>sys_reachable\<close> runs
  it together with the operations on silences. \<open>Silences_Correct\<close>: the index invariant, history, convergence, snapshots. The main result is
  that the silencer answers exactly with the active silences that match, in every reachable state.

  \<^bold>\<open>Alerts.\<close> \<open>Alert\<close>: \<^verbatim>\<open>alert/alert.go\<close>. \<open>Limit_Bucket\<close>: \<^verbatim>\<open>limit/bucket.go\<close>, a heap that refines a map with expiry
  times. \<open>Store\<close>: \<^verbatim>\<open>store/store.go\<close>. \<open>Provider_Mem\<close>: \<^verbatim>\<open>provider/mem\<close> as a step relation (\<open>prov_step\<close>) in which a
  \<^verbatim>\<open>Put\<close> holds the lock while it sends; a subscriber has seen what the store holds, and a \<^verbatim>\<open>Put\<close> can always finish.

  \<^bold>\<open>Inhibition.\<close> \<open>Inhibit\<close>: \<^verbatim>\<open>inhibit/inhibit.go\<close> and \<^verbatim>\<open>index.go\<close>; \<open>inhibitor_run\<close> runs the loop with its collections. Under unique
  sources the inhibitor mutes exactly what a firing source inhibits; without, two theorems show how an inhibition is lost.

  \<^bold>\<open>Notification.\<close> \<open>Nflog\<close>: \<^verbatim>\<open>nflog/nflog.go\<close>. \<open>Time_Interval\<close>: \<^verbatim>\<open>timeinterval/timeinterval.go\<close> with its text forms. \<open>Marker\<close>:
  \<^verbatim>\<open>marker\<close>. \<open>Notify\<close>: the stages of the pipeline and their composition; the interface of the
  two muters is the locale \<open>muting\<close>, interpreted on inhibitor and silencer. \<open>Notify_Correct\<close>: only unmuted alerts are sent.
  \<open>Notify_Repeat\<close>: a new alert is delivered and logged, and not sent again before the repeat interval has passed.

  \<^bold>\<open>Dispatch.\<close> \<open>Route\<close>: \<^verbatim>\<open>dispatch/route.go\<close>; the search equals a declarative one, indices and identifiers are unique.
  \<open>Aggr_Group\<close>: groups and their flush, which loses no alert. \<open>Dispatch\<close>: ingestion goroutines, maintenance, start timer and
  group loops as a step relation (\<open>disp_step\<close>) that interleaves them at the operations of the concurrent maps.
  \<open>Dispatch_Correct\<close>, \<open>Dispatch_Results\<close>: the invariant, and that an alert is grouped, groups run and only dead groups
  leave the table. \<open>Dispatch_Groups\<close>: the groups shown by the API.

  \<^bold>\<open>Configuration.\<close> \<open>Config\<close>: the results, routes and matchers of \<^verbatim>\<open>config/config.go\<close> and \<^verbatim>\<open>config/common\<close>. \<open>Config_Receivers\<close>: the global
  section and the filling of the integrations. \<open>Config_Load\<close>: the whole document, the building of
  integrations, the reload and the coordinator. \<open>Config_Correct\<close>: a configuration that loads can be built and run, its
  integrations are complete, and the pipeline never fails for something that is missing.

  \<^bold>\<open>Bounds.\<close> Recursion is structural or has a measure, so no fuel is needed. The retries of \<^verbatim>\<open>groupAlert\<close> are the code's
  hundred, which gives the bound of \<open>groupAlert_terminates\<close>. The loop of \<^verbatim>\<open>RetryStage\<close> runs along the list of
  events it meets, and returns nothing where the list ends first; the theorems on delivery state that it returns. Integers of the code
  are unbounded here except for flags and hashes: versions and counters are not expected to
  wrap, and the only machine words are those of the typed data of the log.

  \<^bold>\<open>Not modelled.\<close> The HTTP API and its generated code, the command-line client, the user interface and the wiring of
  the process are input and output around the operations above. The integrations build requests with
  templates and send them; the pipeline takes their answers as given. Cluster membership is the third-party memberlist; only what the replicated states
  make of messages is modelled. Timers, files and the encoding of snapshots on disk are arguments. The metrics,
  tracing and event recorder read the modelled state and do not change it.
\<close>

end
